(* ===== verification/Ws_Prelude.thy ===== *)
theory Ws_Prelude
  imports Main "HOL-Library.Word" "HOL-Library.Code_Target_Nat"
begin

text \<open>
  The shared vocabulary of the development: bytes and machine integers, Rust's
  \<open>Result\<close> as a sum, saturating arithmetic on \<open>usize\<close> and \<open>u64\<close>, big-endian
  integers, and the list facts the component theories rely on.

  A Rust \<open>&str\<close> or \<open>String\<close> is modelled by its UTF-8 bytes, as in memory, so that
  byte offsets, lengths and the byte-wise tests of the source carry over unchanged;
  \<open>str\<close> turns a HOL string literal into those bytes.  Lengths, indices and times are
  \<open>nat\<close>; where the source saturates or truncates, the model says so.
\<close>

unbundle bit_operations_syntax

named_theorems ws_eval \<open>definitions that closed evaluation unfolds\<close>

subsection \<open>Types\<close>

type_synonym byte = "8 word"
type_synonym bytes = "byte list"
type_synonym u16 = "16 word"
type_synonym u32 = "32 word"

text \<open>\<open>Result<T, E>\<close>: the error is the left summand.\<close>

abbreviation Err :: "'e \<Rightarrow> 'e + 'a" where "Err \<equiv> Inl"
abbreviation Ok :: "'a \<Rightarrow> 'e + 'a" where "Ok \<equiv> Inr"

abbreviation is_Ok :: "'e + 'a \<Rightarrow> bool" where "is_Ok r \<equiv> \<not> isl r"

text \<open>
  Early returns: a guarded result is a success when the guard is false and the rest
  succeeds.  The collection turns a successful run through a chain of guards into the
  conjunction of their negations.
\<close>

named_theorems guards \<open>success through early returns\<close>

lemma guard_Err [guards]: "(if c then Err e else x) = Ok y \<longleftrightarrow> \<not> c \<and> x = Ok y"
  by simp

lemma guard_None [guards]: "(if c then Ok None else x) = Ok (Some y) \<longleftrightarrow> \<not> c \<and> x = Ok (Some y)"
  by simp

lemma guard_option_None [guards]:
  "(case x of None \<Rightarrow> Ok None | Some z \<Rightarrow> f z) = Ok (Some y) \<longleftrightarrow> (\<exists>z. x = Some z \<and> f z = Ok (Some y))"
  by (cases x) simp_all

lemma guard_option_Err [guards]:
  "(case x of None \<Rightarrow> Err e | Some z \<Rightarrow> f z) = Ok y \<longleftrightarrow> (\<exists>z. x = Some z \<and> f z = Ok y)"
  by (cases x) simp_all

lemma guard_fail [guards]:
  "(case x of None \<Rightarrow> f | Some e \<Rightarrow> Err (g e)) = Ok y \<longleftrightarrow> x = None \<and> f = Ok y"
  by (cases x) simp_all

lemma guard_sum_Err [guards]:
  "(case x of Err e \<Rightarrow> Err (g e) | Ok z \<Rightarrow> f z) = Ok y \<longleftrightarrow> (\<exists>z. x = Ok z \<and> f z = Ok y)"
  by (cases x) simp_all

lemma guard_fail_None [guards]: "(if c then None else x) = Some y \<longleftrightarrow> \<not> c \<and> x = Some y"
  by simp

lemma guard_case_prod [guards]: "(case p of (a, b) \<Rightarrow> f a b) = y \<longleftrightarrow> f (fst p) (snd p) = y"
  by (simp add: case_prod_beta)

definition str :: "string \<Rightarrow> bytes" where
  [ws_eval]: "str s = map of_char s"

subsection \<open>Machine integers\<close>

text \<open>\<open>usize::MAX\<close> on the 64-bit targets, which is also \<open>u64::MAX\<close>.\<close>

definition usize_max :: nat where
  [ws_eval]: "usize_max = 18446744073709551615"

definition saturating_add :: "nat \<Rightarrow> nat \<Rightarrow> nat" where
  [ws_eval]: "saturating_add a b = min (a + b) usize_max"

lemma saturating_add_le: "saturating_add a b \<le> a + b"
  by (simp add: saturating_add_def)

lemma saturating_add_exact: "a + b \<le> usize_max \<Longrightarrow> saturating_add a b = a + b"
  by (simp add: saturating_add_def)

lemma saturating_add_gt: "m < saturating_add a b \<Longrightarrow> m < a + b"
  by (simp add: saturating_add_def)

lemma saturating_add_le_iff: "m < usize_max \<Longrightarrow> saturating_add a b \<le> m \<longleftrightarrow> a + b \<le> m"
  by (auto simp: saturating_add_def)

text \<open>
  \<open>be_bytes k n\<close> is \<open>to_be_bytes\<close> of the \<open>8 k\<close>-bit integer \<open>n as u{8k}\<close> (higher
  bits are cut off, as the cast does); \<open>be_nat\<close> is \<open>from_be_bytes\<close>.
\<close>

fun be_bytes :: "nat \<Rightarrow> nat \<Rightarrow> bytes" where
  "be_bytes 0 n = []"
| "be_bytes (Suc k) n = be_bytes k (n div 256) @ [word_of_nat n]"

definition be_nat :: "bytes \<Rightarrow> nat" where
  [ws_eval]: "be_nat bs = foldl (\<lambda>n b. n * 256 + unat b) 0 bs"

lemma length_be_bytes [simp]: "length (be_bytes k n) = k"
  by (induction k arbitrary: n) auto

lemma unat_lt_256 [simp]: "unat (b :: byte) < 256"
  using unsigned_less [of b, where ?'a = nat] by simp

lemma be_nat_snoc: "be_nat (bs @ [b]) = be_nat bs * 256 + unat b"
  by (simp add: be_nat_def)

lemma be_nat_Nil [simp]: "be_nat [] = 0"
  by (simp add: be_nat_def)

lemma be_nat_be_bytes: "be_nat (be_bytes k n) = n mod 256 ^ k"
proof (induction k arbitrary: n)
  case 0
  then show ?case by simp
next
  case (Suc k)
  have "be_nat (be_bytes (Suc k) n) = (n div 256 mod 256 ^ k) * 256 + n mod 256"
    by (simp add: be_nat_snoc Suc.IH unat_of_nat)
  also have "\<dots> = n mod 256 ^ Suc k"
    by (simp add: mod_mult2_eq)
  finally show ?case .
qed

lemma be_nat_be_bytes_id: "n < 256 ^ k \<Longrightarrow> be_nat (be_bytes k n) = n"
  by (simp add: be_nat_be_bytes)

lemma be_nat_less: "be_nat bs < 256 ^ length bs"
proof (induction bs rule: rev_induct)
  case Nil
  then show ?case by simp
next
  case (snoc b bs)
  have "be_nat bs * 256 + unat b < be_nat bs * 256 + 256"
    by simp
  also have "\<dots> = Suc (be_nat bs) * 256" by simp
  also have "\<dots> \<le> 256 ^ length bs * 256"
    using snoc by (intro mult_right_mono) auto
  finally show ?case by (simp add: be_nat_snoc mult.commute)
qed

lemma be_bytes_be_nat: "be_bytes (length bs) (be_nat bs) = bs"
proof (induction bs rule: rev_induct)
  case Nil
  then show ?case by simp
next
  case (snoc b bs)
  have "(be_nat bs * 256 + unat b) div 256 = be_nat bs"
    by (simp add: div_mult_self3 less_imp_le)
  moreover have "(word_of_nat (be_nat bs * 256 + unat b) :: byte) = b"
  proof -
    have "(word_of_nat (be_nat bs * 256 + unat b) :: byte) = word_of_nat (be_nat bs) * word_of_nat 256 + b"
      by simp
    also have "(word_of_nat 256 :: byte) = 0" by simp
    finally show ?thesis by simp
  qed
  ultimately show ?case
    using snoc by (simp add: be_nat_snoc)
qed

lemma byte_eq_iff: "(a :: byte) = b \<longleftrightarrow> unat a = unat b"
  by (rule word_eq_iff_unsigned)

lemma unat_byte_of_nat: "n < 256 \<Longrightarrow> unat (word_of_nat n :: byte) = n"
  by (simp add: unat_of_nat)

subsection \<open>Base-64 digits\<close>

lemma digits64:
  fixes c :: nat
  shows "c = c div 64 * 64 + c mod 64"
    and "c = c div 4096 * 4096 + c div 64 mod 64 * 64 + c mod 64"
    and "c = c div 262144 * 262144 + c div 4096 mod 64 * 4096 + c div 64 mod 64 * 64 + c mod 64"
proof -
  have 1: "n = n div 64 * 64 + n mod 64" for n :: nat by simp
  have 2: "c div 64 div 64 = c div 4096" "c div 4096 div 64 = c div 262144"
    by (simp_all add: div_mult2_eq [symmetric])
  show "c = c div 64 * 64 + c mod 64" by simp
  show *: "c = c div 4096 * 4096 + c div 64 mod 64 * 64 + c mod 64"
    using 1 [of c] 1 [of "c div 64"] 2(1) by linarith
  show "c = c div 262144 * 262144 + c div 4096 mod 64 * 4096 + c div 64 mod 64 * 64 + c mod 64"
    using * 1 [of "c div 4096"] 2(2) by linarith
qed

lemma undigits64:
  fixes p q r t :: nat
  assumes "q < 64" "r < 64" "t < 64"
  shows "(p * 64 + q) div 64 = p" "(p * 64 + q) mod 64 = q"
    and "(p * 4096 + q * 64 + r) div 64 = p * 64 + q" "(p * 4096 + q * 64 + r) mod 64 = r"
    and "(p * 4096 + q * 64 + r) div 4096 = p"
    and "(p * 262144 + q * 4096 + r * 64 + t) div 64 = p * 4096 + q * 64 + r"
    and "(p * 262144 + q * 4096 + r * 64 + t) mod 64 = t"
    and "(p * 262144 + q * 4096 + r * 64 + t) div 4096 = p * 64 + q"
    and "(p * 262144 + q * 4096 + r * 64 + t) div 262144 = p"
proof -
  have dm: "(k * n + m) div n = k" "(k * n + m) mod n = m" if "m < n" for k m n :: nat
    using that by simp_all
  show "(p * 64 + q) div 64 = p" "(p * 64 + q) mod 64 = q"
    using assms by simp_all
  show "(p * 4096 + q * 64 + r) div 64 = p * 64 + q" "(p * 4096 + q * 64 + r) mod 64 = r"
    using dm [of r 64 "p * 64 + q"] assms by (simp_all add: algebra_simps)
  show "(p * 4096 + q * 64 + r) div 4096 = p"
    using dm [of "q * 64 + r" 4096 p] assms by (simp add: add.assoc)
  show "(p * 262144 + q * 4096 + r * 64 + t) div 64 = p * 4096 + q * 64 + r"
    "(p * 262144 + q * 4096 + r * 64 + t) mod 64 = t"
    using dm [of t 64 "p * 4096 + q * 64 + r"] assms by (simp_all add: algebra_simps)
  show "(p * 262144 + q * 4096 + r * 64 + t) div 4096 = p * 64 + q"
    using dm [of "r * 64 + t" 4096 "p * 64 + q"] assms by (simp add: algebra_simps)
  show "(p * 262144 + q * 4096 + r * 64 + t) div 262144 = p"
    using dm [of "q * 4096 + r * 64 + t" 262144 p] assms by (simp add: add.assoc)
qed

subsection \<open>Lists\<close>

text \<open>\<open>Iterator::position\<close>.\<close>

fun position :: "('a \<Rightarrow> bool) \<Rightarrow> 'a list \<Rightarrow> nat option" where
  "position p [] = None"
| "position p (x # xs) = (if p x then Some 0 else map_option Suc (position p xs))"

lemma position_Some: "position p xs = Some i \<Longrightarrow> i < length xs \<and> p (xs ! i) \<and> (\<forall>j < i. \<not> p (xs ! j))"
  by (induction xs arbitrary: i) (auto split: if_splits simp: less_Suc_eq_0_disj)

lemma position_None: "position p xs = None \<longleftrightarrow> (\<forall>x \<in> set xs. \<not> p x)"
  by (induction xs) auto

lemma position_nth: "\<lbrakk>distinct xs; i < length xs\<rbrakk> \<Longrightarrow> position (\<lambda>a. a = xs ! i) xs = Some i"
  by (induction xs arbitrary: i) (auto simp: nth_Cons split: nat.splits)

text \<open>\<open>slice::chunks\<close>: pieces of \<open>k\<close> elements, the last one possibly shorter.\<close>

function chunks :: "nat \<Rightarrow> 'a list \<Rightarrow> 'a list list" where
  "chunks k xs = (if xs = [] \<or> k = 0 then [] else take k xs # chunks k (drop k xs))"
  by pat_completeness auto
termination
  by (relation "measure (\<lambda>(k, xs). length xs)") auto

declare chunks.simps [simp del]

lemma chunks_Nil [simp]: "chunks k [] = []"
  by (simp add: chunks.simps)

lemma concat_chunks: "0 < k \<Longrightarrow> concat (chunks k xs) = xs"
proof (induction k xs rule: chunks.induct)
  case (1 k xs)
  then show ?case by (cases "xs = []") (simp_all add: chunks.simps [of k xs])
qed

lemma take_append_le [simp]: "n \<le> length xs \<Longrightarrow> take n (xs @ ys) = take n xs"
  by simp

lemma drop_append_le: "n \<le> length xs \<Longrightarrow> drop n (xs @ ys) = drop n xs @ ys"
  by simp

lemma nth_append_lt: "n < length xs \<Longrightarrow> (xs @ ys) ! n = xs ! n"
  by (simp add: nth_append)

text \<open>Replacing the slice \<open>xs[i..j]\<close> of a vector, as a mutable borrow of it does.\<close>

definition update_slice :: "nat \<Rightarrow> nat \<Rightarrow> ('a list \<Rightarrow> 'a list) \<Rightarrow> 'a list \<Rightarrow> 'a list" where
  [ws_eval]: "update_slice i j f xs = take i xs @ f (take (j - i) (drop i xs)) @ drop j xs"

lemma length_update_slice:
  "\<lbrakk>i \<le> j; j \<le> length xs; \<And>ys. length (f ys) = length ys\<rbrakk>
    \<Longrightarrow> length (update_slice i j f xs) = length xs"
  by (simp add: update_slice_def)

lemma drop_update_slice:
  "\<lbrakk>i \<le> j; j \<le> length xs; \<And>ys. length (f ys) = length ys\<rbrakk>
    \<Longrightarrow> drop j (update_slice i j f xs) = drop j xs"
  by (simp add: update_slice_def)

lemma slice_update_slice:
  "\<lbrakk>i \<le> j; j \<le> length xs; \<And>ys. length (f ys) = length ys\<rbrakk>
    \<Longrightarrow> take (j - i) (drop i (update_slice i j f xs)) = f (take (j - i) (drop i xs))"
  by (simp add: update_slice_def)

end
