(* ===== verification/Utf8.thy ===== *)
theory Utf8
  imports Ws_Prelude
begin

text \<open>
  \<open>std::str::from_utf8\<close>, which the frame reader, the HTTP head parser and the C
  interface call.  The model follows the library's validation loop: it reports the
  offset of the first byte that does not start a complete scalar value
  (\<open>valid_up_to\<close>) and whether the input merely ended there (\<open>error_len = None\<close>)
  or holds an invalid sequence of a given length.

  The lemmas show the three facts the incremental reader relies on: a valid prefix can
  be skipped, an interrupted scalar can be resumed at \<open>valid_up_to\<close>, and an
  invalid sequence stays invalid whatever follows.  \<open>is_utf8_iff\<close> ties the
  validator to the definition of UTF-8: it accepts exactly the concatenations of
  encoded Unicode scalar values.
\<close>

subsection \<open>The validator\<close>

text \<open>One iteration of the loop: the width of the scalar at the front, or why there is none.\<close>

datatype utf8_verdict = Scalar nat | Invalid "nat option"

definition continuation :: "byte \<Rightarrow> bool" where
  [ws_eval]: "continuation b \<longleftrightarrow> 0x80 \<le> b \<and> b \<le> 0xBF"

text \<open>The admissible second bytes of three- and four-byte sequences.\<close>

definition second3 :: "byte \<Rightarrow> byte \<Rightarrow> bool" where
  [ws_eval]: "second3 first b \<longleftrightarrow>
     (if first = 0xE0 then 0xA0 \<le> b \<and> b \<le> 0xBF
      else if first = 0xED then 0x80 \<le> b \<and> b \<le> 0x9F
      else continuation b)"

definition second4 :: "byte \<Rightarrow> byte \<Rightarrow> bool" where
  [ws_eval]: "second4 first b \<longleftrightarrow>
     (if first = 0xF0 then 0x90 \<le> b \<and> b \<le> 0xBF
      else if first = 0xF4 then 0x80 \<le> b \<and> b \<le> 0x8F
      else continuation b)"

text \<open>The library's table \<open>utf8_char_width\<close> for bytes from 0x80; 0 marks an invalid lead byte.\<close>

definition utf8_char_width :: "byte \<Rightarrow> nat" where
  [ws_eval]: "utf8_char_width first =
     (if first \<le> 0x7F then 1
      else if 0xC2 \<le> first \<and> first \<le> 0xDF then 2
      else if 0xE0 \<le> first \<and> first \<le> 0xEF then 3
      else if 0xF0 \<le> first \<and> first \<le> 0xF4 then 4
      else 0)"

fun utf8_step :: "bytes \<Rightarrow> utf8_verdict" where
  "utf8_step [] = Invalid None"
| "utf8_step (first # rest) =
     (if utf8_char_width first = 1 then Scalar 1
      else if utf8_char_width first = 2 then
        (case rest of [] \<Rightarrow> Invalid None
         | b1 # _ \<Rightarrow> if continuation b1 then Scalar 2 else Invalid (Some 1))
      else if utf8_char_width first = 3 then
        (case rest of [] \<Rightarrow> Invalid None
         | b1 # rest1 \<Rightarrow> if \<not> second3 first b1 then Invalid (Some 1)
           else (case rest1 of [] \<Rightarrow> Invalid None
                 | b2 # _ \<Rightarrow> if continuation b2 then Scalar 3 else Invalid (Some 2)))
      else if utf8_char_width first = 4 then
        (case rest of [] \<Rightarrow> Invalid None
         | b1 # rest1 \<Rightarrow> if \<not> second4 first b1 then Invalid (Some 1)
           else (case rest1 of [] \<Rightarrow> Invalid None
                 | b2 # rest2 \<Rightarrow> if \<not> continuation b2 then Invalid (Some 2)
                   else (case rest2 of [] \<Rightarrow> Invalid None
                         | b3 # _ \<Rightarrow> if continuation b3 then Scalar 4 else Invalid (Some 3))))
      else Invalid (Some 1))"

text \<open>\<open>Utf8Error\<close>.\<close>

record utf8_error =
  valid_up_to :: nat
  error_len :: "nat option"

lemma utf8_step_width: "utf8_step bs = Scalar w \<Longrightarrow> 0 < w \<and> w \<le> length bs"
  by (cases bs) (auto split: if_splits list.splits)

function run_utf8_validation :: "nat \<Rightarrow> bytes \<Rightarrow> utf8_error + unit" where
  "run_utf8_validation off [] = Ok ()"
| "run_utf8_validation off (b # bs) =
     (case utf8_step (b # bs) of
        Scalar w \<Rightarrow> run_utf8_validation (off + w) (drop w (b # bs))
      | Invalid e \<Rightarrow> Err \<lparr>valid_up_to = off, error_len = e\<rparr>)"
  by pat_completeness auto
termination
  by (relation "measure (\<lambda>(off, bs). length bs)")
    (auto simp del: utf8_step.simps dest!: utf8_step_width)

definition from_utf8 :: "bytes \<Rightarrow> utf8_error + bytes" where
  [ws_eval]: "from_utf8 bs = (case run_utf8_validation 0 bs of Err e \<Rightarrow> Err e | Ok _ \<Rightarrow> Ok bs)"

definition is_utf8 :: "bytes \<Rightarrow> bool" where
  [ws_eval]: "is_utf8 bs \<longleftrightarrow> is_Ok (run_utf8_validation 0 bs)"

subsection \<open>One step and more input\<close>

lemma utf8_step_Scalar_append: "utf8_step bs = Scalar w \<Longrightarrow> utf8_step (bs @ cs) = Scalar w"
  by (cases bs) (auto split: if_splits list.splits)

lemma utf8_step_Invalid_append:
  "utf8_step bs = Invalid (Some n) \<Longrightarrow> utf8_step (bs @ cs) = Invalid (Some n)"
  by (cases bs) (auto split: if_splits list.splits)

declare utf8_step.simps [simp del]

lemma utf8_step_Nil [simp]: "utf8_step [] = Invalid None"
  by (simp add: utf8_step.simps)

lemma run_utf8_Scalar:
  "utf8_step bs = Scalar w \<Longrightarrow>
     run_utf8_validation off bs = run_utf8_validation (off + w) (drop w bs)"
  by (cases bs) simp_all

lemma run_utf8_Invalid:
  "\<lbrakk>bs \<noteq> []; utf8_step bs = Invalid e\<rbrakk> \<Longrightarrow>
     run_utf8_validation off bs = Err \<lparr>valid_up_to = off, error_len = e\<rparr>"
  by (cases bs) simp_all

lemmas run_utf8_steps = run_utf8_Scalar run_utf8_Invalid

declare run_utf8_validation.simps(2) [simp del]

text \<open>Induction along the validated scalars.\<close>

lemma run_utf8_induct [case_names Nil Scalar Invalid]:
  fixes P :: "nat \<Rightarrow> bytes \<Rightarrow> bool"
  assumes "\<And>off. P off []"
    and "\<And>off bs w. \<lbrakk>utf8_step bs = Scalar w; 0 < w; w \<le> length bs; P (off + w) (drop w bs)\<rbrakk> \<Longrightarrow> P off bs"
    and "\<And>off bs e. \<lbrakk>bs \<noteq> []; utf8_step bs = Invalid e\<rbrakk> \<Longrightarrow> P off bs"
  shows "P off bs"
proof (induction off bs rule: run_utf8_validation.induct)
  case (1 off)
  show ?case by (rule assms(1))
next
  case (2 off b bs)
  show ?case
  proof (cases "utf8_step (b # bs)")
    case (Scalar w)
    with utf8_step_width [OF Scalar] "2.IH" [OF Scalar] show ?thesis
      by (blast intro: assms(2))
  next
    case (Invalid e)
    then show ?thesis by (rule assms(3) [rotated]) simp
  qed
qed

text \<open>The offset only shifts the reported position.\<close>

definition shift_error :: "nat \<Rightarrow> utf8_error + unit \<Rightarrow> utf8_error + unit" where
  "shift_error k r = map_sum (\<lambda>e. e\<lparr>valid_up_to := k + valid_up_to e\<rparr>) id r"

lemma shift_error_simps [simp]:
  "shift_error k (Ok x) = Ok x"
  "shift_error k (Err e) = Err (e\<lparr>valid_up_to := k + valid_up_to e\<rparr>)"
  by (simp_all add: shift_error_def)

lemma shift_error_isl [simp]: "isl (shift_error k r) = isl r"
  by (cases r) simp_all

lemma run_utf8_offset: "run_utf8_validation off bs = shift_error off (run_utf8_validation 0 bs)"
proof -
  have "run_utf8_validation (k + n) bs = shift_error k (run_utf8_validation n bs)" for k n
    by (induction n bs rule: run_utf8_induct) (simp_all add: run_utf8_steps add.assoc)
  from this [of off 0] show ?thesis by simp
qed

lemma isl_run_utf8_offset: "isl (run_utf8_validation off bs) = isl (run_utf8_validation 0 bs)"
  by (subst run_utf8_offset) simp

lemma run_utf8_error_bound:
  "run_utf8_validation off bs = Err e \<Longrightarrow> off \<le> valid_up_to e \<and> valid_up_to e < off + length bs"
  by (induction off bs rule: run_utf8_induct) (auto simp: run_utf8_steps)

subsection \<open>Validation in pieces\<close>

text \<open>A valid prefix can be skipped.\<close>

lemma run_utf8_append_Ok:
  "run_utf8_validation off xs = Ok u \<Longrightarrow>
     run_utf8_validation off (xs @ ys) = run_utf8_validation (off + length xs) ys"
  by (induction off xs rule: run_utf8_induct)
    (auto simp: run_utf8_steps utf8_step_Scalar_append)

text \<open>An invalid sequence is reported the same whatever follows it.\<close>

lemma run_utf8_append_Invalid:
  "\<lbrakk>run_utf8_validation off xs = Err e; error_len e = Some n\<rbrakk>
    \<Longrightarrow> run_utf8_validation off (xs @ ys) = Err e"
  by (induction off xs rule: run_utf8_induct)
    (auto simp: run_utf8_steps utf8_step_Scalar_append utf8_step_Invalid_append)

text \<open>An interrupted scalar is resumed at \<open>valid_up_to\<close>.\<close>

lemma run_utf8_append_Incomplete:
  "\<lbrakk>run_utf8_validation off xs = Err e; error_len e = None\<rbrakk>
    \<Longrightarrow> run_utf8_validation off (xs @ ys)
      = run_utf8_validation (valid_up_to e) (drop (valid_up_to e - off) (xs @ ys))"
proof (induction off xs rule: run_utf8_induct)
  case (Scalar off bs w)
  have err: "run_utf8_validation (off + w) (drop w bs) = Err e"
    using Scalar by (simp add: run_utf8_Scalar)
  have "drop (valid_up_to e - (off + w)) (drop w bs @ ys) = drop (valid_up_to e - off) (bs @ ys)"
    using run_utf8_error_bound [OF err] \<open>w \<le> length bs\<close> drop_drop [of "valid_up_to e - (off + w)" w "bs @ ys"]
    by simp
  with Scalar err show ?case
    by (simp add: run_utf8_Scalar utf8_step_Scalar_append)
qed (auto simp: run_utf8_steps)

subsection \<open>The validator accepts exactly UTF-8\<close>

definition scalar_value :: "nat \<Rightarrow> bool" where
  "scalar_value c \<longleftrightarrow> c < 0xD800 \<or> 0xE000 \<le> c \<and> c < 0x110000"

definition utf8_encode :: "nat \<Rightarrow> bytes" where
  "utf8_encode c =
     map word_of_nat
      (if c < 0x80 then [c]
       else if c < 0x800 then [0xC0 + c div 64, 0x80 + c mod 64]
       else if c < 0x10000 then [0xE0 + c div 4096, 0x80 + c div 64 mod 64, 0x80 + c mod 64]
       else [0xF0 + c div 262144, 0x80 + c div 4096 mod 64, 0x80 + c div 64 mod 64, 0x80 + c mod 64])"

text \<open>The tables over natural numbers.\<close>

lemma utf8_tables_nat:
  "utf8_char_width b =
     (if unat b \<le> 127 then 1 else if 194 \<le> unat b \<and> unat b \<le> 223 then 2
      else if 224 \<le> unat b \<and> unat b \<le> 239 then 3 else if 240 \<le> unat b \<and> unat b \<le> 244 then 4 else 0)"
  "continuation b \<longleftrightarrow> 128 \<le> unat b \<and> unat b \<le> 191"
  "second3 a b \<longleftrightarrow> (if unat a = 224 then 160 \<le> unat b \<and> unat b \<le> 191
     else if unat a = 237 then 128 \<le> unat b \<and> unat b \<le> 159 else 128 \<le> unat b \<and> unat b \<le> 191)"
  "second4 a b \<longleftrightarrow> (if unat a = 240 then 144 \<le> unat b \<and> unat b \<le> 191
     else if unat a = 244 then 128 \<le> unat b \<and> unat b \<le> 143 else 128 \<le> unat b \<and> unat b \<le> 191)"
  by (simp_all add: utf8_char_width_def continuation_def second3_def second4_def word_le_nat_alt byte_eq_iff)

text \<open>The bytes of an encoded scalar, by width, over its base-64 digits.\<close>

inductive encoded :: "nat \<Rightarrow> bytes \<Rightarrow> bool" where
  one: "\<lbrakk>unat a = c; c < 128\<rbrakk> \<Longrightarrow> encoded c [a]"
| two: "\<lbrakk>unat a = 192 + p; unat b = 128 + q; q < 64; p < 32; c = p * 64 + q; 128 \<le> c\<rbrakk>
    \<Longrightarrow> encoded c [a, b]"
| three: "\<lbrakk>unat a = 224 + p; unat b = 128 + q; unat d = 128 + r; q < 64; r < 64; p < 16;
     c = p * 4096 + q * 64 + r; 2048 \<le> c; \<not> (55296 \<le> c \<and> c < 57344)\<rbrakk> \<Longrightarrow> encoded c [a, b, d]"
| four: "\<lbrakk>unat a = 240 + p; unat b = 128 + q; unat d = 128 + r; unat e = 128 + t;
     q < 64; r < 64; t < 64; c = p * 262144 + q * 4096 + r * 64 + t; 65536 \<le> c; c < 1114112\<rbrakk>
    \<Longrightarrow> encoded c [a, b, d, e]"

lemma utf8_encode_encoded:
  assumes "scalar_value c"
  shows "encoded c (utf8_encode c)"
proof -
  consider "c < 128" | "128 \<le> c" "c < 2048" | "2048 \<le> c" "c < 65536" "\<not> (55296 \<le> c \<and> c < 57344)"
    | "65536 \<le> c" "c < 1114112"
    using assms unfolding scalar_value_def by linarith
  then show ?thesis
  proof cases
    case 1
    then show ?thesis by (simp add: utf8_encode_def encoded.one unat_byte_of_nat)
  next
    case 2
    then have "c div 64 < 32" by (simp add: less_mult_imp_div_less)
    with 2 show ?thesis
      by (simp add: utf8_encode_def del: of_nat_add)
        (rule encoded.two [where p = "c div 64" and q = "c mod 64"]; simp add: unat_byte_of_nat del: of_nat_add)
  next
    case 3
    then have "c div 4096 < 16" by (simp add: less_mult_imp_div_less)
    with 3 show ?thesis
      by (simp add: utf8_encode_def del: of_nat_add)
        (rule encoded.three [where p = "c div 4096" and q = "c div 64 mod 64" and r = "c mod 64", OF _ _ _ _ _ _ digits64(2)];
          simp add: unat_byte_of_nat del: of_nat_add)
  next
    case 4
    then have "c div 262144 < 5" by (simp add: less_mult_imp_div_less)
    with 4 show ?thesis
      by (simp add: utf8_encode_def del: of_nat_add)
        (rule encoded.four [where p = "c div 262144" and q = "c div 4096 mod 64" and r = "c div 64 mod 64"
            and t = "c mod 64", OF _ _ _ _ _ _ _ digits64(3)];
          simp add: unat_byte_of_nat del: of_nat_add)
  qed
qed

lemma encoded_scalar_value: "encoded c bs \<Longrightarrow> scalar_value c"
  by (auto elim!: encoded.cases simp: scalar_value_def)

lemma utf8_step_encoded: "encoded c bs \<Longrightarrow> utf8_step (bs @ rest) = Scalar (length bs)"
  by (erule encoded.cases) (auto simp: utf8_step.simps utf8_tables_nat)

lemma utf8_step_Scalar_encoded:
  assumes "utf8_step bs = Scalar w"
  shows "\<exists>c. encoded c (take w bs)"
proof -
  obtain a rest where bs: "bs = a # rest" using assms by (cases bs) auto
  consider "utf8_char_width a = 1" | "utf8_char_width a = 2" | "utf8_char_width a = 3" | "utf8_char_width a = 4"
    using assms unfolding bs by (auto simp: utf8_step.simps split: if_splits)
  then show ?thesis
  proof cases
    case 1
    with assms bs have "take w bs = [a]" "unat a < 128"
      by (auto simp: utf8_step.simps utf8_tables_nat split: if_splits)
    then show ?thesis by (auto intro: encoded.one)
  next
    case 2
    with assms bs obtain b where "take w bs = [a, b]" "continuation b"
      by (auto simp: utf8_step.simps split: list.splits if_splits)
    with 2 show ?thesis
      by (intro exI [of _ "(unat a - 192) * 64 + (unat b - 128)"])
        (simp, rule encoded.two [OF _ _ _ _ refl]; auto simp: utf8_tables_nat split: if_splits)
  next
    case 3
    with assms bs obtain b d where "take w bs = [a, b, d]" "second3 a b" "continuation d"
      by (auto simp: utf8_step.simps split: list.splits if_splits)
    with 3 show ?thesis
      by (intro exI [of _ "(unat a - 224) * 4096 + (unat b - 128) * 64 + (unat d - 128)"])
        (simp, rule encoded.three [OF _ _ _ _ _ _ refl]; auto simp: utf8_tables_nat split: if_splits)
  next
    case 4
    with assms bs obtain b d e where "take w bs = [a, b, d, e]" "second4 a b" "continuation d" "continuation e"
      by (auto simp: utf8_step.simps split: list.splits if_splits)
    with 4 show ?thesis
      by (intro exI [of _ "(unat a - 240) * 262144 + (unat b - 128) * 4096 + (unat d - 128) * 64 + (unat e - 128)"])
        (simp, rule encoded.four [OF _ _ _ _ _ _ _ refl]; auto simp: utf8_tables_nat split: if_splits)
  qed
qed

lemma encoded_eq: "encoded c bs \<Longrightarrow> bs = utf8_encode c"
  by (erule encoded.cases)
    (simp_all add: utf8_encode_def undigits64 byte_eq_iff unat_byte_of_nat del: of_nat_add)

lemma is_utf8_Nil [simp]: "is_utf8 []"
  by (simp add: is_utf8_def)

lemma is_utf8_iff_Ok: "is_utf8 xs \<longleftrightarrow> run_utf8_validation 0 xs = Ok ()"
  by (cases "run_utf8_validation 0 xs") (simp_all add: is_utf8_def)

lemma is_utf8_append: "is_utf8 xs \<Longrightarrow> is_utf8 (xs @ ys) = is_utf8 ys"
  using run_utf8_append_Ok [of 0 xs "()" ys] isl_run_utf8_offset [of "length xs" ys]
  unfolding is_utf8_iff_Ok [of xs] by (simp add: is_utf8_def)

lemma is_utf8_encode: "scalar_value c \<Longrightarrow> is_utf8 (utf8_encode c)"
  using utf8_step_encoded [OF utf8_encode_encoded, of c "[]"]
  by (simp add: is_utf8_def run_utf8_Scalar)

theorem is_utf8_iff:
  "is_utf8 bs \<longleftrightarrow> (\<exists>cs. (\<forall>c \<in> set cs. scalar_value c) \<and> bs = concat (map utf8_encode cs))"
proof
  assume "is_utf8 bs"
  then have "run_utf8_validation 0 bs = Ok ()" by (simp add: is_utf8_iff_Ok)
  moreover have "run_utf8_validation off bs = Ok () \<Longrightarrow>
    \<exists>cs. (\<forall>c \<in> set cs. scalar_value c) \<and> bs = concat (map utf8_encode cs)" for off
  proof (induction off bs rule: run_utf8_induct)
    case Nil
    then show ?case by (intro exI [of _ "[]"]) simp
  next
    case (Scalar off bs w)
    obtain c where c: "encoded c (take w bs)" using utf8_step_Scalar_encoded Scalar(1) by blast
    obtain cs where "\<forall>c \<in> set cs. scalar_value c" "drop w bs = concat (map utf8_encode cs)"
      using Scalar by (auto simp: run_utf8_Scalar)
    with encoded_scalar_value [OF c] encoded_eq [OF c] show ?case
      by (intro exI [of _ "c # cs"]) (simp, metis append_take_drop_id)
  next
    case (Invalid off bs e)
    then show ?case by (simp add: run_utf8_Invalid)
  qed
  ultimately show "\<exists>cs. (\<forall>c \<in> set cs. scalar_value c) \<and> bs = concat (map utf8_encode cs)" by blast
next
  assume "\<exists>cs. (\<forall>c \<in> set cs. scalar_value c) \<and> bs = concat (map utf8_encode cs)"
  then obtain cs where "\<forall>c \<in> set cs. scalar_value c" "bs = concat (map utf8_encode cs)" by blast
  then show "is_utf8 bs"
    by (induction cs arbitrary: bs) (auto simp: is_utf8_append is_utf8_encode)
qed

end
