(* ===== verification/Frame.thy ===== *)
theory Frame
  imports Utf8
begin

text \<open>
  \<open>core/src/proto/frame.rs\<close>: frame encoding, masking, the close payload, and the message
  and failure types the reader produces.

  \<open>apply_mask\<close> works on four-byte chunks read as native-endian words; it is shown to be the
  byte-wise \<open>XOR\<close> with the cycled key on both byte orders, hence an involution that keeps
  lengths.  \<open>length_frame_encode\<close> shows that the size the send queue accounts for
  (\<open>encoded_len\<close>) is the size of the encoded frame, and \<open>frame_encode_into_append\<close> that
  appending a frame to a queued buffer leaves the queued bytes alone.
\<close>

subsection \<open>Opcodes and lengths\<close>

definition TEXT :: byte where [ws_eval]: "TEXT = 0x1"
definition BINARY :: byte where [ws_eval]: "BINARY = 0x2"
definition CLOSE :: byte where [ws_eval]: "CLOSE = 0x8"
definition PING :: byte where [ws_eval]: "PING = 0x9"
definition PONG :: byte where [ws_eval]: "PONG = 0xA"
definition CONTINUATION :: byte where [ws_eval]: "CONTINUATION = 0x0"

lemmas opcode_defs = TEXT_def BINARY_def CLOSE_def PING_def PONG_def CONTINUATION_def

definition encoded_len :: "nat \<Rightarrow> bool \<Rightarrow> nat" where
  [ws_eval]: "encoded_len len masked =
     (let extended = (if len \<le> 125 then 0 else if len \<le> 0xFFFF then 2 else 8)
      in saturating_add len (2 + extended + (if masked then 4 else 0)))"

subsection \<open>Masking\<close>

type_synonym mask_key = "byte \<times> byte \<times> byte \<times> byte"

definition key_bytes :: "mask_key \<Rightarrow> bytes" where
  [ws_eval]: "key_bytes key = (case key of (k0, k1, k2, k3) \<Rightarrow> [k0, k1, k2, k3])"

text \<open>\<open>u32::from_ne_bytes\<close> and \<open>to_ne_bytes\<close> for a target's byte order.\<close>

datatype endian = Little | Big

fun from_ne_bytes :: "endian \<Rightarrow> mask_key \<Rightarrow> u32" where
  "from_ne_bytes Little (a, b, c, d) =
     ucast a OR push_bit 8 (ucast b) OR push_bit 16 (ucast c) OR push_bit 24 (ucast d)"
| "from_ne_bytes Big (a, b, c, d) =
     push_bit 24 (ucast a) OR push_bit 16 (ucast b) OR push_bit 8 (ucast c) OR ucast d"

fun to_ne_bytes :: "endian \<Rightarrow> u32 \<Rightarrow> bytes" where
  "to_ne_bytes Little w = [ucast w, ucast (drop_bit 8 w), ucast (drop_bit 16 w), ucast (drop_bit 24 w)]"
| "to_ne_bytes Big w = [ucast (drop_bit 24 w), ucast (drop_bit 16 w), ucast (drop_bit 8 w), ucast w]"

text \<open>
  The loop of \<open>apply_mask\<close>: whole four-byte chunks as words, then the rest byte by byte
  (\<open>rest.iter_mut().zip(key)\<close>).
\<close>

fun apply_mask_on :: "endian \<Rightarrow> bytes \<Rightarrow> mask_key \<Rightarrow> bytes" where
  "apply_mask_on e (a # b # c # d # data) key =
     to_ne_bytes e (from_ne_bytes e (a, b, c, d) XOR from_ne_bytes e key) @ apply_mask_on e data key"
| "apply_mask_on e rest key = map (\<lambda>(b, k). b XOR k) (zip rest (key_bytes key))"

definition apply_mask :: "bytes \<Rightarrow> mask_key \<Rightarrow> bytes" where
  [ws_eval]: "apply_mask data key = apply_mask_on Little data key"

subsection \<open>Encoding\<close>

text \<open>\<open>encode_into\<close> appends to \<open>out\<close>; masking touches only \<open>out[start..]\<close>.\<close>

definition frame_encode_into :: "bytes \<Rightarrow> byte \<Rightarrow> bytes \<Rightarrow> mask_key option \<Rightarrow> bytes" where
  [ws_eval]: "frame_encode_into out0 opc payload msk =
     (let len = length payload;
          out1 = out0 @ [0x80 OR opc];
          bit = (if msk \<noteq> None then 0x80 else 0);
          out2 = (if len \<le> 125 then out1 @ [bit OR word_of_nat len]
                  else if len \<le> 0xFFFF then (out1 @ [bit OR 126]) @ be_bytes 2 len
                  else (out1 @ [bit OR 127]) @ be_bytes 8 len);
          start = length out2 + (if msk \<noteq> None then 4 else 0);
          out3 = (case msk of None \<Rightarrow> out2 | Some key \<Rightarrow> out2 @ key_bytes key);
          out4 = out3 @ payload
      in case msk of
           None \<Rightarrow> out4
         | Some key \<Rightarrow> update_slice start (length out4) (\<lambda>data. apply_mask data key) out4)"

definition frame_encode :: "byte \<Rightarrow> bytes \<Rightarrow> mask_key option \<Rightarrow> bytes" where
  [ws_eval]: "frame_encode opc payload msk = frame_encode_into [] opc payload msk"

definition close_payload :: "u16 \<Rightarrow> bytes \<Rightarrow> bytes" where
  [ws_eval]: "close_payload code reason = be_bytes 2 (unat code) @ reason"

definition valid_close_code :: "u16 \<Rightarrow> bool" where
  [ws_eval]: "valid_close_code code \<longleftrightarrow>
     1000 \<le> code \<and> code \<le> 1003 \<or> 1007 \<le> code \<and> code \<le> 1014 \<or> 3000 \<le> code \<and> code \<le> 4999"

datatype msg = Text bytes | Binary bytes | Ping bytes | Pong bytes | Close "(u16 \<times> bytes) option"

datatype fail = Fail u16 bytes

subsection \<open>Masking is the byte-wise XOR with the cycled key\<close>

definition xor_cycle :: "bytes \<Rightarrow> mask_key \<Rightarrow> bytes" where
  "xor_cycle data key = map (\<lambda>i. data ! i XOR key_bytes key ! (i mod 4)) [0..<length data]"

lemma bit_byte_ge: "8 \<le> n \<Longrightarrow> \<not> bit (b :: byte) n"
  by (simp add: bit_word.rep_eq not_less)

lemma to_from_ne_bytes: "to_ne_bytes e (from_ne_bytes e (a, b, c, d)) = [a, b, c, d]"
  by (cases e) (auto intro!: bit_eqI simp: bit_simps bit_byte_ge)

lemma to_ne_bytes_xor:
  "to_ne_bytes e (v XOR w) = map2 (XOR) (to_ne_bytes e v) (to_ne_bytes e w)"
  by (cases e) (simp_all add: unsigned_xor_eq drop_bit_xor)

lemma ne_bytes_xor:
  "to_ne_bytes e (from_ne_bytes e (a, b, c, d) XOR from_ne_bytes e (k0, k1, k2, k3))
     = [a XOR k0, b XOR k1, c XOR k2, d XOR k3]"
  by (simp add: to_ne_bytes_xor to_from_ne_bytes)

lemma xor_cycle_short:
  "length data \<le> 4 \<Longrightarrow> xor_cycle data key = map (\<lambda>(b, k). b XOR k) (zip data (key_bytes key))"
  by (rule nth_equalityI) (auto simp: xor_cycle_def key_bytes_def split: prod.splits)

lemma xor_cycle_chunk:
  "xor_cycle (a # b # c # d # data) (k0, k1, k2, k3)
     = [a XOR k0, b XOR k1, c XOR k2, d XOR k3] @ xor_cycle data (k0, k1, k2, k3)"
proof -
  have "[0..<length (a # b # c # d # data)] = [0, 1, 2, 3] @ map (\<lambda>i. i + 4) [0..<length data]"
    unfolding map_add_upt by (simp add: upt_conv_Cons eval_nat_numeral del: upt_Suc)
  then show ?thesis
    by (simp add: xor_cycle_def key_bytes_def comp_def)
qed

lemma apply_mask_on_eq: "apply_mask_on e data key = xor_cycle data key"
proof (induction e data key rule: apply_mask_on.induct)
  case (1 e a b c d data key)
  obtain k0 k1 k2 k3 where "key = (k0, k1, k2, k3)" by (metis surj_pair)
  with 1 show ?case by (simp add: ne_bytes_xor xor_cycle_chunk)
qed (simp_all add: xor_cycle_short)

text \<open>
  C6: Masking word by word is the byte-wise \<open>XOR\<close> with the repeated four-byte key, whatever the
  byte order of the target and whatever the length.
\<close>

theorem apply_mask_bytewise: "apply_mask_on e data key = xor_cycle data key"
  by (rule apply_mask_on_eq)

lemma apply_mask_eq: "apply_mask data key = xor_cycle data key"
  by (simp add: apply_mask_def apply_mask_on_eq)

lemma length_xor_cycle [simp]: "length (xor_cycle data key) = length data"
  by (simp add: xor_cycle_def)

lemma length_apply_mask [simp]: "length (apply_mask data key) = length data"
  by (simp add: apply_mask_eq)

lemma apply_mask_Nil [simp]: "apply_mask [] key = []"
  by (simp add: apply_mask_eq xor_cycle_def)

lemma apply_mask_apply_mask [simp]: "apply_mask (apply_mask data key) key = data"
  unfolding apply_mask_eq
  by (rule nth_equalityI) (simp_all add: xor_cycle_def xor.assoc)

subsection \<open>The shape and the size of an encoded frame\<close>

definition frame_prefix :: "byte \<Rightarrow> nat \<Rightarrow> mask_key option \<Rightarrow> bytes" where
  "frame_prefix opc len msk =
     (let bit = (if msk \<noteq> None then 0x80 else 0)
      in (0x80 OR opc) #
         (if len \<le> 125 then [bit OR word_of_nat len]
          else if len \<le> 0xFFFF then (bit OR 126) # be_bytes 2 len
          else (bit OR 127) # be_bytes 8 len) @
         (case msk of None \<Rightarrow> [] | Some key \<Rightarrow> key_bytes key))"

definition mask_with :: "mask_key option \<Rightarrow> bytes \<Rightarrow> bytes" where
  "mask_with msk payload = (case msk of None \<Rightarrow> payload | Some key \<Rightarrow> apply_mask payload key)"

lemma length_key_bytes [simp]: "length (key_bytes key) = 4"
  by (simp add: key_bytes_def split: prod.splits)

lemma length_mask_with [simp]: "length (mask_with msk payload) = length payload"
  by (simp add: mask_with_def split: option.splits)

lemma frame_encode_into_shape:
  "frame_encode_into out0 opc payload msk = out0 @ frame_prefix opc (length payload) msk @ mask_with msk payload"
proof (cases msk)
  case None
  then show ?thesis by (simp add: frame_encode_into_def frame_prefix_def mask_with_def Let_def)
next
  case (Some key)
  then show ?thesis
    by (simp add: frame_encode_into_def frame_prefix_def mask_with_def Let_def update_slice_def)
qed

lemma frame_encode_into_append: "frame_encode_into out0 opc payload msk = out0 @ frame_encode opc payload msk"
  by (simp add: frame_encode_def frame_encode_into_shape)

lemma frame_encode_shape:
  "frame_encode opc payload msk = frame_prefix opc (length payload) msk @ mask_with msk payload"
  by (simp add: frame_encode_def frame_encode_into_shape)

text \<open>
  The size that the send queue accounts for before encoding, \<open>encoded_len\<close>, is the exact
  size of the encoded frame.
\<close>

lemma length_frame_encode:
  "length payload + 14 \<le> usize_max \<Longrightarrow>
   length (frame_encode opc payload msk) = encoded_len (length payload) (msk \<noteq> None)"
  by (cases msk) (simp_all add: frame_encode_shape frame_prefix_def encoded_len_def Let_def saturating_add_def)

end
