(* ===== verification/Incremental.thy ===== *)
theory Incremental
  imports Ws_Prelude
begin

text \<open>
  The contract of an incremental parser: one step looks at the unread input and asks for
  more, stops with an error, or consumes a non-empty prefix; a verdict does not depend on
  the bytes that follow.  The client's lemmas show that feeding such a parser chunk by
  chunk gives the same messages as feeding it everything at once, and that a state
  invariant holds throughout.
\<close>

datatype ('s, 'm, 'e) outcome = More | Stop 'e | Step "'m option" 's nat

definition emit_msg :: "'m option \<Rightarrow> 'm list \<times> 'r \<Rightarrow> 'm list \<times> 'r" where
  [ws_eval]: "emit_msg m p = ((case m of None \<Rightarrow> fst p | Some x \<Rightarrow> x # fst p), snd p)"

definition prepend :: "'m list \<Rightarrow> 'm list \<times> 'r \<Rightarrow> 'm list \<times> 'r" where
  [ws_eval]: "prepend ms p = (ms @ fst p, snd p)"

lemma prepend_simps [simp]:
  "fst (prepend ms p) = ms @ fst p" "snd (prepend ms p) = snd p" "prepend [] p = p"
  "prepend ms (ns, r) = (ms @ ns, r)"
  by (simp_all add: prepend_def)

lemma emit_msg_simps [simp]:
  "emit_msg None p = p" "emit_msg (Some x) p = (x # fst p, snd p)"
  "emit_msg m (prepend ms p) = prepend (fst (emit_msg m (ms, ()))) p"
  by (cases m; simp add: emit_msg_def prepend_def)+

text \<open>Feeding chunks: each one is appended to the unread input, which is then drained.\<close>

fun feed ::
  "('s \<Rightarrow> 'b list \<Rightarrow> 'm list \<times> ('e + 's \<times> 'b list)) \<Rightarrow> 's \<Rightarrow> 'b list \<Rightarrow> 'b list list
     \<Rightarrow> 'm list \<times> ('e + 's \<times> 'b list)" where
  "feed drain s b [] = ([], Ok (s, b))"
| "feed drain s b (c # cs) =
     (case drain s (b @ c) of
        (ms, Err e) \<Rightarrow> (ms, Err e)
      | (ms, Ok (s', b')) \<Rightarrow> prepend ms (feed drain s' b' cs))"

locale incremental_parser =
  fixes step :: "'s \<Rightarrow> 'b list \<Rightarrow> ('s, 'm, 'e) outcome"
    and drain :: "'s \<Rightarrow> 'b list \<Rightarrow> 'm list \<times> ('e + 's \<times> 'b list)"
  assumes step_progress: "step s b = Step m s' n \<Longrightarrow> 0 < n \<and> n \<le> length b"
    and step_append: "step s b \<noteq> More \<Longrightarrow> step s (b @ c) = step s b"
    and drain_unfold: "drain s b =
      (case step s b of
         More \<Rightarrow> ([], Ok (s, b))
       | Stop e \<Rightarrow> ([], Err e)
       | Step m s' n \<Rightarrow> emit_msg m (drain s' (drop n b)))"
begin

lemma drain_cases:
  "step s b = More \<Longrightarrow> drain s b = ([], Ok (s, b))"
  "step s b = Stop e \<Longrightarrow> drain s b = ([], Err e)"
  "step s b = Step m s' n \<Longrightarrow> drain s b = emit_msg m (drain s' (drop n b))"
  using drain_unfold [of s b] by simp_all

lemma drain_induct [case_names More Stop Step]:
  assumes "\<And>s b. step s b = More \<Longrightarrow> P s b"
    and "\<And>s b e. step s b = Stop e \<Longrightarrow> P s b"
    and "\<And>s b m s' n. \<lbrakk>step s b = Step m s' n; P s' (drop n b)\<rbrakk> \<Longrightarrow> P s b"
  shows "P s b"
proof (induction "length b" arbitrary: s b rule: less_induct)
  case less
  show ?case
  proof (cases "step s b")
    case (Step m s' n)
    with step_progress [OF Step] have "length (drop n b) < length b" by auto
    then show ?thesis by (rule assms(3) [OF Step less.hyps])
  qed (rule assms(1) assms(2), assumption)+
qed

lemma drain_append:
  "drain s (b @ c) =
     (case drain s b of
        (ms, Err e) \<Rightarrow> (ms, Err e)
      | (ms, Ok (s', b')) \<Rightarrow> prepend ms (drain s' (b' @ c)))"
proof (induction s b rule: drain_induct)
  case (Stop s b e)
  then show ?case using step_append [of s b c] by (simp add: drain_cases)
next
  case (Step s b m s' n)
  then have "step s (b @ c) = Step m s' n" using step_append [of s b c] by simp
  with Step step_progress [OF Step(1)] show ?case
    by (cases m) (auto simp: drain_cases prepend_def split: prod.splits sum.splits)
qed (simp add: drain_cases)

lemma drain_rest: "drain s b = (ms, Ok (s', b')) \<Longrightarrow> step s' b' = More"
  by (induction s b arbitrary: ms rule: drain_induct)
    (auto simp: drain_cases emit_msg_def prod_eq_iff split: option.splits)

lemma feed_concat: "step s b = More \<Longrightarrow> feed drain s b cs = drain s (b @ concat cs)"
proof (induction cs arbitrary: s b)
  case Nil
  then show ?case by (simp add: drain_cases)
next
  case (Cons c cs)
  show ?case
    using drain_append [of s "b @ c" "concat cs"] Cons.IH drain_rest [of s "b @ c"]
    by (auto split: prod.splits sum.splits)
qed

end

text \<open>A state invariant that every step keeps, and what it guarantees of the messages.\<close>

locale checked_parser = incremental_parser step drain
  for step :: "'s \<Rightarrow> 'b list \<Rightarrow> ('s, 'm, 'e) outcome" and drain +
  fixes inv :: "'s \<Rightarrow> bool" and good :: "'m \<Rightarrow> bool" and failure :: "'e \<Rightarrow> bool"
  assumes step_inv: "\<lbrakk>inv s; step s b = Step m s' n\<rbrakk> \<Longrightarrow> inv s' \<and> (\<forall>x. m = Some x \<longrightarrow> good x)"
    and step_failure: "\<lbrakk>inv s; step s b = Stop e\<rbrakk> \<Longrightarrow> failure e"
begin

lemma drain_good:
  "\<lbrakk>inv s; drain s b = (ms, res)\<rbrakk> \<Longrightarrow>
     (\<forall>x \<in> set ms. good x) \<and> (case res of Err e \<Rightarrow> failure e | Ok (s', b') \<Rightarrow> inv s')"
proof (induction s b arbitrary: ms rule: drain_induct)
  case (Step s b m s' n)
  then show ?case
    using step_inv [OF Step(3) Step(1)]
    by (cases "drain s' (drop n b)") (auto simp: drain_cases emit_msg_def split: option.splits)
qed (auto simp: drain_cases dest: step_failure)

end

end
