(* ===== verification/Reader.thy ===== *)
theory Reader
  imports Frame Incremental
begin

text \<open>
  \<open>core/src/proto/reader.rs\<close>: the incremental reader that validates frames and assembles
  messages, and the \<open>decode\<close> driver of \<open>fuzz/targets/reader.rs\<close>.

  A method that takes \<open>&mut self\<close> returns its result together with the updated reader.
\<close>

subsection \<open>State\<close>

record frame =
  frame_fin :: bool
  frame_op :: byte
  frame_payload :: "nat \<times> nat"

record partial =
  partial_op :: byte
  partial_data :: bytes
  partial_checked :: nat

record reader =
  rd_buf :: bytes
  rd_pos :: nat
  rd_server :: bool
  rd_max :: nat
  rd_partial :: "partial option"

definition reader_new :: "bool \<Rightarrow> nat \<Rightarrow> reader" where
  [ws_eval]: "reader_new server mx =
     \<lparr>rd_buf = [], rd_pos = 0, rd_server = server, rd_max = mx, rd_partial = None\<rparr>"

definition reader_input :: "reader \<Rightarrow> reader" where
  [ws_eval]: "reader_input r =
     (if rd_pos r > 0 then r\<lparr>rd_buf := drop (rd_pos r) (rd_buf r), rd_pos := 0\<rparr> else r)"

definition reader_push :: "reader \<Rightarrow> bytes \<Rightarrow> reader" where
  [ws_eval]: "reader_push r data = (let r = reader_input r in r\<lparr>rd_buf := rd_buf r @ data\<rparr>)"

subsection \<open>Frames\<close>

definition is_opcode :: "byte \<Rightarrow> bool" where
  [ws_eval]: "is_opcode op \<longleftrightarrow>
     op = CONTINUATION \<or> op = TEXT \<or> op = BINARY \<or> op = CLOSE \<or> op = PING \<or> op = PONG"

text \<open>The payload length and the offset after it; \<open>None\<close> when its bytes have not arrived.\<close>

definition frame_len :: "bytes \<Rightarrow> (nat \<times> nat) option" where
  [ws_eval]: "frame_len b =
     (let n = b ! 1 AND 0x7F in
      if n = 126 \<and> length b \<ge> 4 then Some (be_nat [b ! 2, b ! 3], 4)
      else if n = 127 \<and> length b \<ge> 10 then Some (be_nat (take 8 (drop 2 b)), 10)
      else if n = 126 \<or> n = 127 then None
      else Some (unat n, 2))"

text \<open>The checks on the first two bytes (\<open>b[0]\<close>, \<open>b[1]\<close>).\<close>

definition frame_check :: "bool \<Rightarrow> partial option \<Rightarrow> byte \<Rightarrow> byte \<Rightarrow> fail option" where
  [ws_eval]: "frame_check server part b0 b1 =
     (let op = b0 AND 0x0F; masked = (b1 AND 0x80 \<noteq> 0) in
      if b0 AND 0x70 \<noteq> 0 then Some (Fail 1002 (str ''reserved bits set''))
      else if \<not> is_opcode op then Some (Fail 1002 (str ''unknown opcode''))
      else if masked \<noteq> server
      then Some (Fail 1002 (if server then str ''unmasked client frame'' else str ''masked server frame''))
      else if op < CLOSE \<and> op = CONTINUATION \<and> part = None
      then Some (Fail 1002 (str ''unexpected continuation frame''))
      else if op < CLOSE \<and> (op = TEXT \<or> op = BINARY) \<and> part \<noteq> None
      then Some (Fail 1002 (str ''expected continuation frame''))
      else None)"

definition pending :: "partial option \<Rightarrow> nat" where
  [ws_eval]: "pending part = (case part of None \<Rightarrow> 0 | Some p \<Rightarrow> length (partial_data p))"

text \<open>The checks on the announced length.\<close>

definition frame_limit :: "nat \<Rightarrow> partial option \<Rightarrow> bool \<Rightarrow> byte \<Rightarrow> nat \<Rightarrow> nat \<Rightarrow> fail option" where
  [ws_eval]: "frame_limit mx part fin op len at =
     (if at = 4 \<and> len < 126 \<or> at = 10 \<and> (len < 65536 \<or> len div 2 ^ 63 \<noteq> 0)
      then Some (Fail 1002 (str ''invalid payload length encoding''))
      else if op \<ge> CLOSE then
        if \<not> fin \<or> len > 125 then Some (Fail 1002 (str ''invalid control frame'')) else None
      else if saturating_add len (pending part) > mx then Some (Fail 1009 (str ''message too big''))
      else None)"

text \<open>
  The part of \<open>Reader::frame\<close> that only looks at the unread bytes \<open>b\<close>: \<open>Ok None\<close> asks for
  more input, \<open>Ok (Some (fin, op, len, at, key))\<close> is a complete frame whose payload is
  \<open>b[at..at + len]\<close>.
\<close>

definition frame_head ::
  "bool \<Rightarrow> nat \<Rightarrow> partial option \<Rightarrow> bytes
     \<Rightarrow> fail + (bool \<times> byte \<times> nat \<times> nat \<times> mask_key option) option" where
  [ws_eval]: "frame_head server mx part b =
     (if length b < 2 then Ok None
      else let fin = (b ! 0 AND 0x80 \<noteq> 0); op = b ! 0 AND 0x0F; masked = (b ! 1 AND 0x80 \<noteq> 0) in
      case frame_check server part (b ! 0) (b ! 1) of Some e \<Rightarrow> Err e | None \<Rightarrow>
      case frame_len b of None \<Rightarrow> Ok None | Some (len, at) \<Rightarrow>
      case frame_limit mx part fin op len at of Some e \<Rightarrow> Err e | None \<Rightarrow>
      if masked then
        if length b < at + 4 then Ok None
        else let at = at + 4; key = Some (b ! (at - 4), b ! (at - 3), b ! (at - 2), b ! (at - 1)) in
        if len > length b - at then Ok None else Ok (Some (fin, op, len, at, key))
      else if len > length b - at then Ok None else Ok (Some (fin, op, len, at, None)))"

definition reader_frame :: "reader \<Rightarrow> (fail + frame option) \<times> reader" where
  [ws_eval]: "reader_frame r =
     (let b = drop (rd_pos r) (rd_buf r) in
      case frame_head (rd_server r) (rd_max r) (rd_partial r) b of
        Err e \<Rightarrow> (Err e, r)
      | Ok None \<Rightarrow> (Ok None, r)
      | Ok (Some (fin, op, len, at, key)) \<Rightarrow>
          let start = rd_pos r + at;
              end = start + len;
              buf = (case key of None \<Rightarrow> rd_buf r
                     | Some k \<Rightarrow> update_slice start end (\<lambda>data. apply_mask data k) (rd_buf r))
          in (Ok (Some \<lparr>frame_fin = fin, frame_op = op, frame_payload = (start, end)\<rparr>),
              r\<lparr>rd_buf := buf, rd_pos := end\<rparr>))"

subsection \<open>Messages\<close>

definition close :: "bytes \<Rightarrow> fail + msg" where
  [ws_eval]: "close payload =
     (case payload of
        [] \<Rightarrow> Ok (Close None)
      | [_] \<Rightarrow> Err (Fail 1002 (str ''invalid close frame''))
      | a # b # reason \<Rightarrow>
          let code = word_of_nat (be_nat [a, b]) :: u16 in
          if \<not> valid_close_code code then Err (Fail 1002 (str ''invalid close code''))
          else (case from_utf8 reason of
                  Err _ \<Rightarrow> Err (Fail 1007 (str ''invalid UTF-8 in close reason''))
                | Ok reason \<Rightarrow> Ok (Close (Some (code, reason)))))"

text \<open>
  The incremental UTF-8 check of \<open>assemble\<close>: the new \<open>checked\<close> mark, or \<open>None\<close> when the text
  is rejected.
\<close>

definition check_text :: "bool \<Rightarrow> bytes \<Rightarrow> nat \<Rightarrow> nat option" where
  [ws_eval]: "check_text fin data checked =
     (case from_utf8 (drop checked data) of
        Ok _ \<Rightarrow> Some (length data)
      | Err e \<Rightarrow> if error_len e = None \<and> \<not> fin then Some (checked + valid_up_to e) else None)"

text \<open>\<open>Reader::assemble\<close> on the payload bytes and the reader's \<open>partial\<close> field.\<close>

definition assemble_data ::
  "bool \<Rightarrow> byte \<Rightarrow> bytes \<Rightarrow> partial option \<Rightarrow> (fail + msg option) \<times> partial option" where
  [ws_eval]: "assemble_data fin op payload part =
     (if op = PING then (Ok (Some (Ping payload)), part)
      else if op = PONG then (Ok (Some (Pong payload)), part)
      else if op = CLOSE
      then ((case close payload of Err e \<Rightarrow> Err e | Ok m \<Rightarrow> Ok (Some m)), part)
      else
        let p = (case part of
                   Some p \<Rightarrow> p\<lparr>partial_data := partial_data p @ payload\<rparr>
                 | None \<Rightarrow> \<lparr>partial_op = op, partial_data = payload, partial_checked = 0\<rparr>)
        in case (if partial_op p = TEXT then check_text fin (partial_data p) (partial_checked p)
                 else Some (partial_checked p)) of
             None \<Rightarrow> (Err (Fail 1007 (str ''invalid UTF-8 in text message'')), Some p)
           | Some checked \<Rightarrow>
               let p = p\<lparr>partial_checked := checked\<rparr> in
               if \<not> fin then (Ok None, Some p)
               else (Ok (Some (if partial_op p = TEXT then Text (partial_data p)
                               else Binary (partial_data p))), None))"

definition reader_assemble :: "reader \<Rightarrow> frame \<Rightarrow> (fail + msg option) \<times> reader" where
  [ws_eval]: "reader_assemble r f =
     (case frame_payload f of (start, end) \<Rightarrow>
      let payload = take (end - start) (drop start (rd_buf r)) in
      case assemble_data (frame_fin f) (frame_op f) payload (rd_partial r) of
        (res, part) \<Rightarrow> (res, r\<lparr>rd_partial := part\<rparr>))"

subsection \<open>What a complete frame is\<close>

lemma frame_len_bounds: "\<lbrakk>frame_len b = Some (len, at); 2 \<le> length b\<rbrakk> \<Longrightarrow> 2 \<le> at \<and> at \<le> length b"
  by (auto simp: frame_len_def Let_def split: if_splits)

lemma frame_check_None:
  "frame_check server part b0 b1 = None \<longleftrightarrow>
     b0 AND 0x70 = 0 \<and> is_opcode (b0 AND 0x0F) \<and> (b1 AND 0x80 \<noteq> 0) = server \<and>
     (b0 AND 0x0F < CLOSE \<longrightarrow> (b0 AND 0x0F = CONTINUATION) = (part \<noteq> None))"
  by (auto simp: frame_check_def Let_def is_opcode_def opcode_defs)

lemma frame_limit_None:
  "frame_limit mx part fin op len at = None \<longleftrightarrow>
     (at = 4 \<longrightarrow> 126 \<le> len) \<and> (at = 10 \<longrightarrow> 65536 \<le> len \<and> len < 2 ^ 63) \<and>
     (if CLOSE \<le> op then fin \<and> len \<le> 125 else saturating_add len (pending part) \<le> mx)"
  by (auto simp: frame_limit_def div_eq_0_iff)

lemma frame_head_Some_iff:
  "frame_head server mx part b = Ok (Some (fin, op, len, at, key)) \<longleftrightarrow>
     2 \<le> length b \<and> fin = (b ! 0 AND 0x80 \<noteq> 0) \<and> op = b ! 0 AND 0x0F \<and>
     frame_check server part (b ! 0) (b ! 1) = None \<and>
     (\<exists>at0. frame_len b = Some (len, at0) \<and> frame_limit mx part fin op len at0 = None \<and>
        at = (if server then at0 + 4 else at0) \<and> at + len \<le> length b \<and>
        key = (if server then Some (b ! at0, b ! (at0 + 1), b ! (at0 + 2), b ! (3 + at0)) else None))"
proof (cases "2 \<le> length b \<and> frame_check server part (b ! 0) (b ! 1) = None \<and> frame_len b \<noteq> None")
  case True
  then obtain at0 len0 where len: "frame_len b = Some (len0, at0)" by auto
  have "(b ! 1 AND 0x80 \<noteq> 0) = server" using True by (simp add: frame_check_None)
  with True len frame_len_bounds [OF len] show ?thesis
    by (auto simp: frame_head_def Let_def split: if_splits option.splits)
next
  case False
  then show ?thesis by (auto simp: frame_head_def Let_def guards not_less)
qed

lemma frame_head_SomeD:
  assumes "frame_head server mx part b = Ok (Some (fin, op, len, at, key))"
  shows "2 \<le> at" "at + len \<le> length b" "is_opcode op" "(key \<noteq> None) = server"
    "CLOSE \<le> op \<Longrightarrow> fin \<and> len \<le> 125" "op < CLOSE \<Longrightarrow> saturating_add len (pending part) \<le> mx"
    "op < CLOSE \<Longrightarrow> (op = CONTINUATION) = (part \<noteq> None)"
  using assms frame_len_bounds [of b len]
  by (fastforce simp: frame_head_Some_iff frame_check_None frame_limit_None not_le split: if_splits)+

lemma frame_len_append: "\<lbrakk>2 \<le> length b; frame_len b = Some x\<rbrakk> \<Longrightarrow> frame_len (b @ c) = Some x"
  by (auto simp: frame_len_def Let_def nth_append split: if_splits)

lemma frame_head_Err_iff:
  "frame_head server mx part b = Err e \<longleftrightarrow>
     2 \<le> length b \<and>
     (frame_check server part (b ! 0) (b ! 1) = Some e \<or>
      frame_check server part (b ! 0) (b ! 1) = None \<and>
      (\<exists>len at. frame_len b = Some (len, at) \<and>
         frame_limit mx part (b ! 0 AND 0x80 \<noteq> 0) (b ! 0 AND 0x0F) len at = Some e))"
  by (auto simp: frame_head_def Let_def split: option.splits)

text \<open>A verdict never changes when more bytes arrive.\<close>

lemma frame_head_append:
  assumes "frame_head server mx part b \<noteq> Ok None"
  shows "frame_head server mx part (b @ c) = frame_head server mx part b"
proof -
  have b: "2 \<le> length b" using assms by (auto simp: frame_head_def split: if_splits)
  then have 01: "(b @ c) ! 0 = b ! 0" "(b @ c) ! 1 = b ! 1" by (auto simp: nth_append)
  consider (err) e where "frame_head server mx part b = Err e"
    | (ok) fin op len at key where "frame_head server mx part b = Ok (Some (fin, op, len, at, key))"
    using assms by (metis sumE option.exhaust prod_cases5)
  then show ?thesis
  proof cases
    case err
    then have "frame_head server mx part (b @ c) = Err e"
      unfolding frame_head_Err_iff 01 by (auto dest: frame_len_append [OF b])
    with err show ?thesis by simp
  next
    case ok
    then obtain at0 where len: "frame_len b = Some (len, at0)" "frame_len (b @ c) = Some (len, at0)"
      and at: "at = (if server then at0 + 4 else at0)" "at + len \<le> length b"
      by (auto simp: frame_head_Some_iff dest: frame_len_append [OF b])
    have "server \<Longrightarrow> (b @ c) ! i = b ! i" if "i < at0 + 4" for i
      using at that by (simp add: nth_append)
    with ok len at have "frame_head server mx part (b @ c) = Ok (Some (fin, op, len, at, key))"
      unfolding frame_head_Some_iff 01 by auto
    with ok show ?thesis by simp
  qed
qed

subsection \<open>The loops\<close>

definition unread :: "reader \<Rightarrow> bytes" where
  "unread r = drop (rd_pos r) (rd_buf r)"

lemma reader_frame_Some:
  assumes "reader_frame r = (Ok (Some f), r')"
  shows "rd_pos r < rd_pos r'" "rd_pos r' \<le> length (rd_buf r')" "length (rd_buf r') = length (rd_buf r)"
proof -
  obtain fin op len at key
    where head: "frame_head (rd_server r) (rd_max r) (rd_partial r) (unread r) = Ok (Some (fin, op, len, at, key))"
    using assms by (auto simp: reader_frame_def Let_def unread_def split: sum.splits option.splits)
  from frame_head_SomeD [OF head]
  have at: "2 \<le> at" "rd_pos r + at + len \<le> length (rd_buf r)" by (auto simp: unread_def)
  with assms head show "rd_pos r < rd_pos r'" "rd_pos r' \<le> length (rd_buf r')"
    "length (rd_buf r') = length (rd_buf r)"
    by (auto simp: reader_frame_def Let_def unread_def length_update_slice split: option.splits)
qed

lemma reader_assemble_keeps:
  "reader_assemble r f = (res, r') \<Longrightarrow>
     rd_pos r' = rd_pos r \<and> rd_buf r' = rd_buf r \<and> rd_server r' = rd_server r \<and> rd_max r' = rd_max r"
  by (auto simp: reader_assemble_def Let_def split: prod.splits)

function reader_message :: "reader \<Rightarrow> (fail + msg option) \<times> reader" where
  "reader_message r =
     (case reader_frame r of
        (Err e, r) \<Rightarrow> (Err e, r)
      | (Ok None, r) \<Rightarrow> (Ok None, r)
      | (Ok (Some f), r) \<Rightarrow>
          (case reader_assemble r f of
             (Err e, r) \<Rightarrow> (Err e, r)
           | (Ok (Some m), r) \<Rightarrow> (Ok (Some m), r)
           | (Ok None, r) \<Rightarrow> reader_message r))"
  by pat_completeness auto
termination
proof (relation "measure (\<lambda>r. length (rd_buf r) - rd_pos r)", goal_cases)
  case (2 r res r1 o1 f res2 r2 o2)
  then have *: "reader_frame r = (Ok (Some f), r1)" "reader_assemble r1 f = (Ok None, r2)" by simp_all
  show ?case using reader_frame_Some [OF *(1)] reader_assemble_keeps [OF *(2)] by simp
qed simp

declare reader_message.simps [simp del]

lemma reader_message_progress:
  "reader_message r = (Ok (Some m), r') \<Longrightarrow>
     length (rd_buf r') - rd_pos r' < length (rd_buf r) - rd_pos r"
proof (induction r rule: reader_message.induct)
  case (1 r)
  obtain f r1 where f: "reader_frame r = (Ok (Some f), r1)"
    using 1(2) by (subst (asm) reader_message.simps) (auto split: prod.splits sum.splits option.splits)
  note frame = reader_frame_Some [OF f]
  obtain res r2 where a: "reader_assemble r1 f = (res, r2)" by fastforce
  note keeps = reader_assemble_keeps [OF a]
  show ?case
  proof (cases "res = Ok None")
    case True
    with 1(2) f a have "reader_message r2 = (Ok (Some m), r')" by (simp add: reader_message.simps [of r])
    from 1(1) [OF f [symmetric] refl refl a [symmetric] True refl this] frame keeps
    show ?thesis by simp
  next
    case False
    with 1(2) f a have "r' = r2"
      by (subst (asm) reader_message.simps) (auto split: sum.splits option.splits)
    with frame keeps show ?thesis by simp
  qed
qed

text \<open>The loops of \<open>decode\<close> in \<open>fuzz/targets/reader.rs\<close>.\<close>

function reader_drain :: "reader \<Rightarrow> msg list \<Rightarrow> (fail + msg list) \<times> reader" where
  "reader_drain r out =
     (case reader_message r of
        (Err e, r) \<Rightarrow> (Err e, r)
      | (Ok None, r) \<Rightarrow> (Ok out, r)
      | (Ok (Some m), r) \<Rightarrow> reader_drain r (out @ [m]))"
  by pat_completeness auto
termination
  by (relation "measure (\<lambda>(r, out). length (rd_buf r) - rd_pos r)")
    (auto dest!: sym [of "(_, _)"] reader_message_progress)

declare reader_drain.simps [simp del]

fun decode_loop :: "reader \<Rightarrow> msg list \<Rightarrow> bytes list \<Rightarrow> fail + msg list" where
  "decode_loop r out [] = Ok out"
| "decode_loop r out (chunk # cs) =
     (case reader_drain (reader_push r chunk) out of
        (Err e, _) \<Rightarrow> Err e
      | (Ok out, r) \<Rightarrow> decode_loop r out cs)"

definition decode :: "bool \<Rightarrow> nat \<Rightarrow> bytes list \<Rightarrow> fail + msg list" where
  [ws_eval]: "decode server mx cs = decode_loop (reader_new server mx) [] cs"

subsection \<open>The reader as an incremental parser\<close>

text \<open>
  One turn of the loop of \<open>message\<close> on the unread bytes alone: no buffer, no position, no
  in-place unmasking.
\<close>

definition frame_step :: "bool \<Rightarrow> nat \<Rightarrow> partial option \<Rightarrow> bytes \<Rightarrow> (partial option, msg, fail) outcome" where
  [ws_eval]: "frame_step server mx part b =
     (case frame_head server mx part b of
        Err e \<Rightarrow> Stop e
      | Ok None \<Rightarrow> More
      | Ok (Some (fin, op, len, at, key)) \<Rightarrow>
          (case assemble_data fin op (mask_with key (take len (drop at b))) part of
             (Err e, _) \<Rightarrow> Stop e
           | (Ok m, part') \<Rightarrow> Step m part' (at + len)))"

lemma frame_step_Step:
  "frame_step server mx part b = Step m part' n \<longleftrightarrow>
     (\<exists>fin op len at key. frame_head server mx part b = Ok (Some (fin, op, len, at, key)) \<and> n = at + len \<and>
        assemble_data fin op (mask_with key (take len (drop at b))) part = (Ok m, part'))"
  by (auto simp: frame_step_def split: sum.splits option.splits prod.splits)

lemma frame_step_progress: "frame_step server mx part b = Step m part' n \<Longrightarrow> 0 < n \<and> n \<le> length b"
  by (auto simp: frame_step_Step dest: frame_head_SomeD(1,2))

lemma frame_step_append:
  assumes "frame_step server mx part b \<noteq> More"
  shows "frame_step server mx part (b @ c) = frame_step server mx part b"
proof -
  have head: "frame_head server mx part b \<noteq> Ok None" using assms by (auto simp: frame_step_def)
  then show ?thesis
    unfolding frame_step_def frame_head_append [OF head]
    by (auto split: sum.splits option.splits dest: frame_head_SomeD(1,2))
qed

function drain_frames ::
  "bool \<Rightarrow> nat \<Rightarrow> partial option \<Rightarrow> bytes \<Rightarrow> msg list \<times> (fail + partial option \<times> bytes)" where
  "drain_frames server mx part b =
     (case frame_step server mx part b of
        More \<Rightarrow> ([], Ok (part, b))
      | Stop e \<Rightarrow> ([], Err e)
      | Step m part' n \<Rightarrow> emit_msg m (drain_frames server mx part' (drop n b)))"
  by pat_completeness auto
termination
  by (relation "measure (\<lambda>(server, mx, part, b). length b)") (auto dest: frame_step_progress)

declare drain_frames.simps [simp del]

interpretation rd: incremental_parser "frame_step server mx" "drain_frames server mx" for server mx
  by unfold_locales (simp_all add: frame_step_progress frame_step_append drain_frames.simps)

subsection \<open>The reader refines it\<close>

definition reads :: "bool \<Rightarrow> nat \<Rightarrow> partial option \<Rightarrow> bytes \<Rightarrow> reader \<Rightarrow> bool" where
  "reads server mx part b r \<longleftrightarrow>
     rd_server r = server \<and> rd_max r = mx \<and> rd_partial r = part \<and> unread r = b \<and>
     rd_pos r \<le> length (rd_buf r)"

lemma reads_new: "reads server mx None [] (reader_new server mx)"
  by (simp add: reads_def reader_new_def unread_def)

lemma reads_push: "reads server mx part b r \<Longrightarrow> reads server mx part (b @ c) (reader_push r c)"
  by (auto simp: reads_def reader_push_def reader_input_def unread_def Let_def)

lemma reader_frame_reads:
  assumes r: "reads server mx part b r"
    and head: "frame_head server mx part b = Ok (Some (fin, op, len, at, key))"
  obtains f r' where "reader_frame r = (Ok (Some f), r')" "reads server mx part (drop (at + len) b) r'"
    "reader_assemble r' f =
       (case assemble_data fin op (mask_with key (take len (drop at b))) part of
          (res, part') \<Rightarrow> (res, r'\<lparr>rd_partial := part'\<rparr>))"
proof -
  let ?start = "rd_pos r + at"
  let ?stop = "?start + len"
  define buf where "buf = (case key of None \<Rightarrow> rd_buf r
    | Some k \<Rightarrow> update_slice ?start ?stop (\<lambda>data. apply_mask data k) (rd_buf r))"
  define r' where "r' = r\<lparr>rd_buf := buf, rd_pos := ?stop\<rparr>"
  have b: "b = drop (rd_pos r) (rd_buf r)" "rd_server r = server" "rd_max r = mx" "rd_partial r = part"
    using r by (simp_all add: reads_def unread_def)
  have le: "?stop \<le> length (rd_buf r)" using frame_head_SomeD(1,2) [OF head] by (simp add: b)
  have "reader_frame r = (Ok (Some \<lparr>frame_fin = fin, frame_op = op, frame_payload = (?start, ?stop)\<rparr>), r')"
    using head by (simp add: reader_frame_def b buf_def r'_def Let_def)
  moreover have "length buf = length (rd_buf r)" "drop ?stop buf = drop (at + len) b"
    "take len (drop ?start buf) = mask_with key (take len (drop at b))"
    using le slice_update_slice [of ?start ?stop "rd_buf r" "\<lambda>data. apply_mask data (the key)"]
    by (auto simp: buf_def b mask_with_def length_update_slice drop_update_slice add.commute add.left_commute
        split: option.splits)
  ultimately show thesis
    using that le by (auto simp: reads_def unread_def r'_def b reader_assemble_def split: prod.splits)
qed

lemma reader_message_reads:
  assumes r: "reads server mx part b r"
  shows "frame_step server mx part b = More \<Longrightarrow> reader_message r = (Ok None, r)"
    and "frame_step server mx part b = Stop e \<Longrightarrow> \<exists>r'. reader_message r = (Err e, r')"
    and "frame_step server mx part b = Step (Some m) part' n \<Longrightarrow>
      \<exists>r'. reader_message r = (Ok (Some m), r') \<and> reads server mx part' (drop n b) r'"
    and "frame_step server mx part b = Step None part' n \<Longrightarrow>
      \<exists>r'. reader_message r = reader_message r' \<and> reads server mx part' (drop n b) r'"
proof -
  have b: "drop (rd_pos r) (rd_buf r) = b" "rd_server r = server" "rd_max r = mx" "rd_partial r = part"
    using r by (simp_all add: reads_def unread_def)
  have upd: "reads server mx part' c (r'\<lparr>rd_partial := part'\<rparr>)" if "reads server mx part c r'" for c r'
    using that by (simp add: reads_def unread_def)
  note run = reader_message.simps [of r]
  show "reader_message r = (Ok None, r)" if "frame_step server mx part b = More"
    using that by (simp add: run frame_step_def reader_frame_def b split: sum.splits option.splits prod.splits)
  show "\<exists>r'. reader_message r = (Err e, r')" if stop: "frame_step server mx part b = Stop e"
  proof (cases "frame_head server mx part b")
    case (Inl e')
    with stop show ?thesis by (simp add: run frame_step_def reader_frame_def b)
  next
    case (Inr x)
    with stop obtain fin op len at key where x: "x = Some (fin, op, len, at, key)"
      by (auto simp: frame_step_def split: option.splits)
    from stop show ?thesis
      by (rule_tac reader_frame_reads [OF r Inr [unfolded x]])
        (auto simp: run frame_step_def Inr x split: prod.splits sum.splits)
  qed
  show "\<exists>r'. reader_message r = (Ok (Some m), r') \<and> reads server mx part' (drop n b) r'"
    if "frame_step server mx part b = Step (Some m) part' n"
    using that unfolding frame_step_Step
    by (elim exE conjE, elim reader_frame_reads [OF r]) (auto simp: run upd)
  show "\<exists>r'. reader_message r = reader_message r' \<and> reads server mx part' (drop n b) r'"
    if "frame_step server mx part b = Step None part' n"
    using that unfolding frame_step_Step
    by (elim exE conjE, elim reader_frame_reads [OF r]) (auto simp: run upd)
qed

lemma reader_drain_message: "reader_message r = reader_message r' \<Longrightarrow> reader_drain r out = reader_drain r' out"
  by (simp add: reader_drain.simps)

lemma reader_drain_reads:
  assumes "reads server mx part b r" "drain_frames server mx part b = (ms, res)"
  shows "case res of
      Err e \<Rightarrow> \<exists>r'. reader_drain r out = (Err e, r')
    | Ok (part', b') \<Rightarrow> \<exists>r'. reader_drain r out = (Ok (out @ ms), r') \<and> reads server mx part' b' r'"
  using assms
proof (induction part b arbitrary: r out ms rule: rd.drain_induct [of server mx])
  case (More part b)
  with reader_message_reads(1) [OF More(2,1)] show ?case
    by (auto simp: rd.drain_cases reader_drain.simps)
next
  case (Stop part b e)
  with reader_message_reads(2) [OF Stop(2,1)] show ?case
    by (auto simp: rd.drain_cases reader_drain.simps)
next
  case (Step part b m part' n)
  obtain ms' where d: "drain_frames server mx part' (drop n b) = (ms', res)"
    and ms: "ms = (case m of None \<Rightarrow> ms' | Some x \<Rightarrow> x # ms')"
    using Step(1,4) by (cases "drain_frames server mx part' (drop n b)"; cases m) (auto simp: rd.drain_cases)
  show ?case
  proof (cases m)
    case None
    then obtain r' where same: "reader_message r = reader_message r'"
      and r': "reads server mx part' (drop n b) r'"
      using reader_message_reads(4) [OF Step(3)] Step(1) by blast
    from Step.IH [OF r' d, of out] None ms show ?thesis
      by (cases res) (auto simp: reader_drain_message [OF same])
  next
    case (Some x)
    then obtain r' where "reader_message r = (Ok (Some x), r')" "reads server mx part' (drop n b) r'"
      using reader_message_reads(3) [OF Step(3)] Step(1) by blast
    with Step.IH [OF this(2) d, of "out @ [x]"] Some ms show ?thesis
      by (cases res) (auto simp: reader_drain.simps [of r])
  qed
qed

lemma decode_loop_reads:
  "reads server mx part b r \<Longrightarrow>
   decode_loop r out cs =
     (case feed (drain_frames server mx) part b cs of
        (ms, Err e) \<Rightarrow> Err e
      | (ms, Ok _) \<Rightarrow> Ok (out @ ms))"
proof (induction cs arbitrary: part b r out)
  case (Cons c cs)
  obtain ms res where d: "drain_frames server mx part (b @ c) = (ms, res)" by fastforce
  note drain = reader_drain_reads [OF reads_push [OF Cons.prems] d, of out]
  show ?case
  proof (cases res)
    case (Inl e)
    with drain d show ?thesis by auto
  next
    case (Inr x)
    obtain part' b' where x: "x = (part', b')" by fastforce
    with drain Inr obtain r' where "reader_drain (reader_push r c) out = (Ok (out @ ms), r')"
      "reads server mx part' b' r'" by auto
    with Cons.IH [OF this(2), of "out @ ms"] d Inr x show ?thesis
      by (simp split: prod.splits sum.splits)
  qed
qed simp

lemma decode_frames:
  "decode server mx cs =
     (case drain_frames server mx None (concat cs) of (ms, Err e) \<Rightarrow> Err e | (ms, Ok _) \<Rightarrow> Ok ms)"
proof -
  have "frame_step server mx None [] = More" by (simp add: frame_step_def frame_head_def)
  then show ?thesis
    by (simp add: decode_def decode_loop_reads [OF reads_new] rd.feed_concat split: prod.splits sum.splits)
qed

text \<open>
  C1: How the transport splits the bytes never changes what the reader decodes: the messages,
  or the failure, are those of the whole input pushed at once.
\<close>

theorem decode_chunk_invariant: "decode server mx cs = decode server mx [concat cs]"
  by (simp add: decode_frames)

end
