(* ===== verification/Reader_Spec.thy ===== *)
theory Reader_Spec
  imports Reader
begin

text \<open>
  What the reader promises of the messages it produces: the reference meaning of the
  incremental UTF-8 check, the invariant of a partially received message with the bounds
  it gives, and the round trip of encoded frames, whole and fragmented.
\<close>

subsection \<open>Text that can still become valid\<close>

text \<open>A prefix of UTF-8 text: some continuation makes it valid.\<close>

definition utf8_prefix :: "bytes \<Rightarrow> bool" where
  "utf8_prefix bs \<longleftrightarrow> (\<exists>ys. is_utf8 (bs @ ys))"

lemma second_exists: "\<exists>c. second3 b c" "\<exists>c. second4 b c" "\<exists>c. continuation c"
proof -
  have *: "continuation 0x80" by (simp add: continuation_def)
  then show "\<exists>c. continuation c" by blast
  show "\<exists>c. second3 b c"
    by (rule exI [of _ "if b = 0xE0 then 0xA0 else 0x80"]) (simp add: second3_def *)
  show "\<exists>c. second4 b c"
    by (rule exI [of _ "if b = 0xF0 then 0x90 else 0x80"]) (simp add: second4_def *)
qed

lemma utf8_step_complete:
  assumes "utf8_step (b # bs) = Invalid None"
  shows "\<exists>ys. utf8_step (b # bs @ ys) = Scalar (length (b # bs @ ys))"
proof -
  obtain c2 c3 c4 where c: "continuation c2" "second3 b c3" "second4 b c4"
    using second_exists by metis
  have "utf8_char_width b \<le> 4" by (simp add: utf8_char_width_def)
  then consider "utf8_char_width b = 2" | "utf8_char_width b = 3" | "utf8_char_width b = 4"
    using assms by (fastforce simp: utf8_step.simps le_Suc_eq numeral_eq_Suc split: if_splits)
  then show ?thesis
  proof cases
    case 1
    then have "bs = []" using assms by (auto simp: utf8_step.simps split: list.splits if_splits)
    with 1 c show ?thesis by (intro exI [of _ "[c2]"]) (simp add: utf8_step.simps)
  next
    case 2
    then have "bs = [] \<or> (\<exists>x. bs = [x] \<and> second3 b x)"
      using assms by (auto simp: utf8_step.simps split: list.splits if_splits)
    with 2 c show ?thesis
      by (auto intro: exI [of _ "[c3, c2]"] exI [of _ "[c2]"] simp: utf8_step.simps)
  next
    case 3
    then have "bs = [] \<or> (\<exists>x. bs = [x] \<and> second4 b x) \<or>
        (\<exists>x y. bs = [x, y] \<and> second4 b x \<and> continuation y)"
      using assms by (auto simp: utf8_step.simps split: list.splits if_splits)
    with 3 c show ?thesis
      by (auto intro: exI [of _ "[c4, c2, c2]"] exI [of _ "[c2, c2]"] exI [of _ "[c2]"]
          simp: utf8_step.simps)
  qed
qed

lemma run_utf8_error_step:
  "run_utf8_validation off bs = Err e \<Longrightarrow> utf8_step (drop (valid_up_to e - off) bs) = Invalid (error_len e)"
proof (induction off bs rule: run_utf8_induct)
  case (Scalar off bs w)
  then have "run_utf8_validation (off + w) (drop w bs) = Err e" by (simp add: run_utf8_Scalar)
  with Scalar run_utf8_error_bound [OF this] show ?case by (simp add: add.commute)
qed (auto simp: run_utf8_Invalid)

lemma utf8_prefix_iff:
  "utf8_prefix bs \<longleftrightarrow>
     (case run_utf8_validation 0 bs of Ok _ \<Rightarrow> True | Err e \<Rightarrow> error_len e = None)"
proof (cases "run_utf8_validation 0 bs")
  case (Inr u)
  then show ?thesis by (auto simp: utf8_prefix_def is_utf8_def intro: exI [of _ "[]"])
next
  case (Inl e)
  show ?thesis
  proof (cases "error_len e")
    case (Some n)
    with Inl show ?thesis by (simp add: utf8_prefix_def is_utf8_def run_utf8_append_Invalid [OF Inl Some])
  next
    case None
    have lt: "valid_up_to e < length bs" using run_utf8_error_bound [OF Inl] by simp
    then obtain b cs where d: "drop (valid_up_to e) bs = b # cs" by (cases "drop (valid_up_to e) bs") auto
    with run_utf8_error_step [OF Inl] None utf8_step_complete [of b cs]
    obtain ys where ys: "utf8_step (b # cs @ ys) = Scalar (length (b # cs @ ys))" by auto
    have "run_utf8_validation 0 (bs @ ys) = run_utf8_validation (valid_up_to e) (b # cs @ ys)"
      using run_utf8_append_Incomplete [OF Inl None, of ys] d lt by simp
    also have "\<dots> = Ok ()" using run_utf8_Scalar [OF ys] by simp
    finally have "utf8_prefix bs" by (auto simp: utf8_prefix_def is_utf8_iff_Ok)
    with Inl None show ?thesis by simp
  qed
qed

subsection \<open>Checking the new bytes is checking them all\<close>

text \<open>The mark a text message carries: everything before it is valid, the rest is a scalar cut short.\<close>

definition text_mark :: "bytes \<Rightarrow> nat \<Rightarrow> bool" where
  "text_mark data checked \<longleftrightarrow>
     (case run_utf8_validation 0 data of
        Ok _ \<Rightarrow> checked = length data
      | Err e \<Rightarrow> error_len e = None \<and> checked = valid_up_to e)"

lemma text_mark_le: "text_mark data checked \<Longrightarrow> checked \<le> length data"
  by (auto simp: text_mark_def dest: run_utf8_error_bound split: sum.splits)

lemma text_mark_append:
  assumes "text_mark data checked"
  shows "run_utf8_validation 0 (data @ cs) = run_utf8_validation checked (drop checked (data @ cs))"
proof (cases "run_utf8_validation 0 data")
  case (Inr u)
  with assms show ?thesis by (simp add: text_mark_def run_utf8_append_Ok [OF Inr])
next
  case (Inl e)
  with assms show ?thesis using run_utf8_append_Incomplete [OF Inl, of cs] by (simp add: text_mark_def)
qed

lemma check_text_0:
  "check_text fin data 0 =
     (if fin then if is_utf8 data then Some (length data) else None
      else if utf8_prefix data
      then Some (case run_utf8_validation 0 data of Ok _ \<Rightarrow> length data | Err e \<Rightarrow> valid_up_to e)
      else None)"
  by (auto simp: check_text_def from_utf8_def utf8_prefix_iff is_utf8_def split: sum.splits)

lemma check_text_resume:
  assumes "text_mark data checked"
  shows "check_text fin (data @ cs) checked = check_text fin (data @ cs) 0"
  using text_mark_append [OF assms, of cs] run_utf8_offset [of checked "drop checked (data @ cs)"]
  by (auto simp: check_text_def from_utf8_def shift_error_def split: sum.splits)

lemma check_text_mark: "check_text False data 0 = Some checked \<Longrightarrow> text_mark data checked"
  by (auto simp: check_text_def from_utf8_def text_mark_def split: sum.splits if_splits)

subsection \<open>Assembling against the reference\<close>

text \<open>
  The reference assembler keeps the opcode and the bytes received so far, and looks at all
  of them each time: a fragment is refused when no continuation could make the text valid,
  the final one when the text is not UTF-8.
\<close>

definition text_ok :: "bool \<Rightarrow> bytes \<Rightarrow> bool" where
  "text_ok fin data \<longleftrightarrow> (if fin then is_utf8 data else utf8_prefix data)"

definition assemble_ref ::
  "bool \<Rightarrow> byte \<Rightarrow> bytes \<Rightarrow> (byte \<times> bytes) option \<Rightarrow> (fail + msg option) \<times> (byte \<times> bytes) option" where
  "assemble_ref fin op payload st =
     (if op = PING then (Ok (Some (Ping payload)), st)
      else if op = PONG then (Ok (Some (Pong payload)), st)
      else if op = CLOSE
      then ((case close payload of Err e \<Rightarrow> Err e | Ok m \<Rightarrow> Ok (Some m)), st)
      else case (case st of None \<Rightarrow> (op, payload) | Some (op0, data) \<Rightarrow> (op0, data @ payload)) of (op0, data) \<Rightarrow>
        if op0 = TEXT \<and> \<not> text_ok fin data
        then (Err (Fail 1007 (str ''invalid UTF-8 in text message'')), Some (op0, data))
        else if fin then (Ok (Some (if op0 = TEXT then Text data else Binary data)), None)
        else (Ok None, Some (op0, data)))"

definition partial_abs :: "partial \<Rightarrow> byte \<times> bytes" where
  "partial_abs p = (partial_op p, partial_data p)"

definition partial_inv :: "nat \<Rightarrow> partial option \<Rightarrow> bool" where
  "partial_inv mx part \<longleftrightarrow>
     (case part of None \<Rightarrow> True
      | Some p \<Rightarrow> (partial_op p = TEXT \<or> partial_op p = BINARY) \<and> length (partial_data p) \<le> mx \<and>
          (partial_op p = TEXT \<longrightarrow> text_mark (partial_data p) (partial_checked p)))"

lemma check_text_ok:
  "case part of None \<Rightarrow> True | Some p \<Rightarrow> partial_op p = TEXT \<longrightarrow> text_mark (partial_data p) (partial_checked p)
   \<Longrightarrow> p' = (case part of
               Some p \<Rightarrow> p\<lparr>partial_data := partial_data p @ payload\<rparr>
             | None \<Rightarrow> \<lparr>partial_op = op, partial_data = payload, partial_checked = 0\<rparr>)
   \<Longrightarrow> partial_op p' = TEXT
   \<Longrightarrow> check_text fin (partial_data p') (partial_checked p') = check_text fin (partial_data p') 0"
  by (auto simp: check_text_resume split: option.splits)

lemma check_text_0_None: "check_text fin data 0 = None \<longleftrightarrow> \<not> text_ok fin data"
  by (auto simp: check_text_0 text_ok_def)

lemma assemble_data_ref:
  assumes "partial_inv mx part"
  shows "assemble_ref fin op payload (map_option partial_abs part) =
    (case assemble_data fin op payload part of (res, part') \<Rightarrow> (res, map_option partial_abs part'))"
proof -
  define p where "p = (case part of
      Some p \<Rightarrow> p\<lparr>partial_data := partial_data p @ payload\<rparr>
    | None \<Rightarrow> \<lparr>partial_op = op, partial_data = payload, partial_checked = 0\<rparr>)"
  have st: "(case map_option partial_abs part of None \<Rightarrow> (op, payload) | Some (op0, data) \<Rightarrow> (op0, data @ payload))
      = (partial_op p, partial_data p)"
    by (simp add: p_def partial_abs_def split: option.splits)
  have check: "partial_op p = TEXT \<Longrightarrow>
      check_text fin (partial_data p) (partial_checked p) = check_text fin (partial_data p) 0"
    using assms by (intro check_text_ok [OF _ p_def]) (auto simp: partial_inv_def split: option.splits)
  note defs = assemble_ref_def assemble_data_def st p_def [symmetric] Let_def
  show ?thesis
  proof (cases "partial_op p = TEXT")
    case True
    show ?thesis
    proof (cases "check_text fin (partial_data p) 0")
      case None
      then have "\<not> text_ok fin (partial_data p)" by (simp add: check_text_0_None)
      with True None check [OF True] show ?thesis unfolding defs by (simp add: partial_abs_def)
    next
      case (Some checked)
      then have "text_ok fin (partial_data p)" using check_text_0_None [of fin "partial_data p"] by simp
      with True Some check [OF True] show ?thesis unfolding defs by (simp add: partial_abs_def)
    qed
  next
    case False
    then show ?thesis unfolding defs by (simp add: partial_abs_def)
  qed
qed

subsection \<open>The invariant of a message under assembly\<close>

definition reader_inv :: "nat \<Rightarrow> partial option \<Rightarrow> bool" where
  "reader_inv mx part \<longleftrightarrow> mx < usize_max \<and> partial_inv mx part"

text \<open>What every message satisfies.\<close>

fun message_ok :: "nat \<Rightarrow> msg \<Rightarrow> bool" where
  "message_ok mx (Text d) = (is_utf8 d \<and> length d \<le> mx)"
| "message_ok mx (Binary d) = (length d \<le> mx)"
| "message_ok mx (Ping d) = (length d \<le> 125)"
| "message_ok mx (Pong d) = (length d \<le> 125)"
| "message_ok mx (Close None) = True"
| "message_ok mx (Close (Some (code, reason))) =
     (valid_close_code code \<and> is_utf8 reason \<and> length reason \<le> 123)"

fun fail_code_ok :: "fail \<Rightarrow> bool" where
  "fail_code_ok (Fail code _) = (code = 1002 \<or> code = 1007 \<or> code = 1009)"

lemma close_simps:
  "close [] = Ok (Close None)"
  "close [a] = Err (Fail 1002 (str ''invalid close frame''))"
  "close (a # b # reason) =
     (if \<not> valid_close_code (word_of_nat (be_nat [a, b])) then Err (Fail 1002 (str ''invalid close code''))
      else if is_utf8 reason then Ok (Close (Some (word_of_nat (be_nat [a, b]), reason)))
      else Err (Fail 1007 (str ''invalid UTF-8 in close reason'')))"
  by (simp_all add: close_def Let_def from_utf8_def is_utf8_def split: sum.splits)

lemma payload_cases: obtains "p = []" | a where "p = [a]" | a b r where "p = a # b # r"
  by (metis neq_Nil_conv)

lemma close_ok: "\<lbrakk>close payload = Ok m; length payload \<le> 125\<rbrakk> \<Longrightarrow> message_ok mx m"
  by (rule payload_cases [of payload]) (auto simp: close_simps split: if_splits)

lemma close_fail: "close payload = Err e \<Longrightarrow> fail_code_ok e"
  by (rule payload_cases [of payload]) (auto simp: close_simps split: if_splits)

lemma frame_check_fail: "pred_option fail_code_ok (frame_check server part b0 b1)"
  by (simp add: frame_check_def Let_def)

lemma frame_limit_fail: "pred_option fail_code_ok (frame_limit mx part fin op len at)"
  by (simp add: frame_limit_def)

lemma frame_head_fail: "frame_head server mx part b = Err e \<Longrightarrow> fail_code_ok e"
  using frame_check_fail [of server part "b ! 0" "b ! 1"]
    frame_limit_fail [of mx part "b ! 0 AND 0x80 \<noteq> 0" "b ! 0 AND 0x0F"]
  unfolding frame_head_Err_iff by (metis option.pred_inject(2))

lemma assemble_data_fail: "assemble_data fin op payload part = (Err e, part') \<Longrightarrow> fail_code_ok e"
  by (auto simp: assemble_data_def Let_def close_fail split: if_splits option.splits sum.splits)

lemma is_opcode_data: "\<lbrakk>is_opcode op; op \<noteq> PING; op \<noteq> PONG; op \<noteq> CLOSE\<rbrakk> \<Longrightarrow> op < CLOSE"
  by (auto simp: is_opcode_def opcode_defs)

lemma is_opcode_control: "op = PING \<or> op = PONG \<or> op = CLOSE \<Longrightarrow> CLOSE \<le> op"
  by (auto simp: opcode_defs)

lemma assemble_data_inv:
  assumes "partial_inv mx part" "is_opcode op" "assemble_data fin op payload part = (Ok m, part')"
    and ctl: "CLOSE \<le> op \<Longrightarrow> fin \<and> length payload \<le> 125"
    and dat: "op < CLOSE \<Longrightarrow> length payload + pending part \<le> mx"
    and seq: "op < CLOSE \<Longrightarrow> (op = CONTINUATION) = (part \<noteq> None)"
  shows "partial_inv mx part' \<and> (\<forall>x. m = Some x \<longrightarrow> message_ok mx x)"
proof (cases "op < CLOSE")
  case False
  then have op: "op = PING \<or> op = PONG \<or> op = CLOSE" using assms(2) is_opcode_data by blast
  then have "length payload \<le> 125" using ctl is_opcode_control by simp
  with op assms(1,3) show ?thesis
    by (auto simp: assemble_data_def intro: close_ok split: sum.splits if_splits)
next
  case True
  define p where "p = (case part of
      Some p \<Rightarrow> p\<lparr>partial_data := partial_data p @ payload\<rparr>
    | None \<Rightarrow> \<lparr>partial_op = op, partial_data = payload, partial_checked = 0\<rparr>)"
  have op: "op \<noteq> PING" "op \<noteq> PONG" "op \<noteq> CLOSE" using True is_opcode_control [of op] by auto
  have len: "length (partial_data p) \<le> mx" and pop: "partial_op p = TEXT \<or> partial_op p = BINARY"
    using True assms(1,2) dat seq op
    by (auto simp: p_def pending_def partial_inv_def is_opcode_def split: option.splits)
  have check: "partial_op p = TEXT \<Longrightarrow>
      check_text fin (partial_data p) (partial_checked p) = check_text fin (partial_data p) 0"
    using assms(1) by (intro check_text_ok [OF _ p_def]) (auto simp: partial_inv_def split: option.splits)
  obtain checked where c: "(if partial_op p = TEXT then check_text fin (partial_data p) (partial_checked p)
      else Some (partial_checked p)) = Some checked"
    and res: "(m, part') = (if \<not> fin then (None, Some (p\<lparr>partial_checked := checked\<rparr>))
      else (Some (if partial_op p = TEXT then Text (partial_data p) else Binary (partial_data p)), None))"
    using assms(3) op unfolding assemble_data_def p_def [symmetric] Let_def
    by (auto split: option.splits if_splits)
  have "fin \<Longrightarrow> partial_op p = TEXT \<Longrightarrow> is_utf8 (partial_data p)"
    using c check by (auto simp: check_text_0 split: if_splits)
  moreover have "\<not> fin \<Longrightarrow> partial_op p = TEXT \<Longrightarrow> text_mark (partial_data p) checked"
    using c check by (auto intro: check_text_mark)
  ultimately show ?thesis
    using res len pop by (auto simp: partial_inv_def split: if_splits)
qed

lemma frame_step_inv:
  assumes "reader_inv mx part" "frame_step server mx part b = Step m part' n"
  shows "reader_inv mx part' \<and> (\<forall>x. m = Some x \<longrightarrow> message_ok mx x)"
proof -
  obtain fin op len at key where head: "frame_head server mx part b = Ok (Some (fin, op, len, at, key))"
    and a: "assemble_data fin op (mask_with key (take len (drop at b))) part = (Ok m, part')"
    using assms(2) by (auto simp: frame_step_Step)
  note h = frame_head_SomeD [OF head]
  have "op < CLOSE \<Longrightarrow> len + pending part \<le> mx"
    using h(6) assms(1) by (simp add: reader_inv_def saturating_add_le_iff)
  with assemble_data_inv [OF _ h(3) a] assms(1) h show ?thesis
    by (auto simp: reader_inv_def)
qed

lemma frame_step_fail: "frame_step server mx part b = Stop e \<Longrightarrow> fail_code_ok e"
  by (auto simp: frame_step_def dest: frame_head_fail assemble_data_fail
      split: sum.splits option.splits prod.splits)

interpretation crd: checked_parser "frame_step server mx" "drain_frames server mx"
    "reader_inv mx" "message_ok mx" fail_code_ok for server mx
  by unfold_locales (simp_all add: frame_step_inv frame_step_fail)

text \<open>
  C4: Whatever the peer sends and however it arrives, every message the reader delivers is
  within bounds: a text is UTF-8 and at most \<open>max\<close> bytes, a binary message is at most \<open>max\<close>
  bytes, ping and pong payloads are at most 125 bytes, and a close frame carries a valid code
  and a UTF-8 reason of at most 123 bytes.
\<close>

theorem decode_messages_ok:
  assumes "mx < usize_max" "decode server mx cs = Ok ms"
  shows "list_all (message_ok mx) ms"
proof -
  have "reader_inv mx None" using assms(1) by (simp add: reader_inv_def partial_inv_def)
  with assms(2) crd.drain_good [of mx None server "concat cs"] show ?thesis
    by (auto simp: decode_frames list_all_iff split: prod.splits sum.splits)
qed

theorem decode_messages_ok_witness:
  "decode False 100 [[0x81], [2, 104], [105]] = Ok [Text [104, 105]] \<and>
   list_all (message_ok 100) [Text [104, 105]]"
proof -
  have d: "decode False 100 [[0x81], [2, 104], [105]] = Ok [Text [104, 105]]" by code_simp
  have "(100 :: nat) < usize_max" by (simp add: usize_max_def)
  from d decode_messages_ok [OF this d] show ?thesis by simp
qed

subsection \<open>Frames on the wire\<close>

text \<open>A frame with any first byte; \<open>frame_encode\<close> produces those with the final bit set.\<close>

definition raw_frame :: "byte \<Rightarrow> bytes \<Rightarrow> mask_key option \<Rightarrow> bytes" where
  "raw_frame b0 payload msk = b0 # tl (frame_prefix 0 (length payload) msk) @ mask_with msk payload"

lemma frame_encode_raw: "frame_encode opc payload msk = raw_frame (0x80 OR opc) payload msk"
  by (simp add: frame_encode_shape raw_frame_def frame_prefix_def Let_def)

lemma low7: "n < 128 \<Longrightarrow>
    (0x80 OR word_of_nat n :: byte) AND 0x7F = word_of_nat n \<and> (word_of_nat n :: byte) AND 0x7F = word_of_nat n \<and>
    (0x80 OR word_of_nat n :: byte) AND 0x80 \<noteq> 0 \<and> (word_of_nat n :: byte) AND 0x80 = 0"
proof -
  have "list_all (\<lambda>n. (0x80 OR word_of_nat n :: byte) AND 0x7F = word_of_nat n \<and>
      (word_of_nat n :: byte) AND 0x7F = word_of_nat n \<and>
      (0x80 OR word_of_nat n :: byte) AND 0x80 \<noteq> 0 \<and> (word_of_nat n :: byte) AND 0x80 = 0) [0..<128]"
    by code_simp
  then show "n < 128 \<Longrightarrow> ?thesis" by (simp add: list_all_iff)
qed

text \<open>The two to ten bytes before the key: first byte, mask bit with short length, extended length.\<close>

definition length_bytes :: "bool \<Rightarrow> nat \<Rightarrow> bytes" where
  "length_bytes masked len =
     (let bit = (if masked then 0x80 else 0)
      in if len \<le> 125 then [bit OR word_of_nat len]
         else if len \<le> 0xFFFF then (bit OR word_of_nat 126) # be_bytes 2 len
         else (bit OR word_of_nat 127) # be_bytes 8 len)"

lemma raw_frame_shape:
  "raw_frame b0 payload msk =
     b0 # length_bytes (msk \<noteq> None) (length payload) @
     (case msk of None \<Rightarrow> [] | Some key \<Rightarrow> key_bytes key) @ mask_with msk payload"
  by (simp add: raw_frame_def frame_prefix_def length_bytes_def Let_def)

lemma frame_len_length_bytes:
  assumes "len < 2 ^ 63"
  shows "frame_len (b0 # length_bytes masked len @ rest) = Some (len, 1 + length (length_bytes masked len))"
proof -
  consider "len \<le> 125" | "125 < len" "len \<le> 0xFFFF" | "0xFFFF < len" by linarith
  then show ?thesis
  proof cases
    case 1
    then have "unat (word_of_nat len :: byte) = len" by (simp add: unat_byte_of_nat)
    with 1 low7 [of len] show ?thesis
      by (auto simp: frame_len_def length_bytes_def Let_def byte_eq_iff)
  next
    case 2
    obtain x y where be: "be_bytes 2 len = [x, y]" by (simp add: numeral_2_eq_2)
    have "be_nat [x, y] = len" using 2 be_nat_be_bytes_id [of len 2] by (simp add: be)
    with 2 low7 [of 126] show ?thesis by (simp add: frame_len_def length_bytes_def Let_def be)
  next
    case 3
    have "be_nat (be_bytes 8 len) = len" using assms be_nat_be_bytes_id [of len 8] by simp
    with 3 low7 [of 127] show ?thesis by (simp add: frame_len_def length_bytes_def Let_def)
  qed
qed

lemma length_bytes_limits:
  "length_bytes masked len \<noteq> []"
  "(hd (length_bytes masked len) AND 0x80 \<noteq> 0) = masked"
  "length (length_bytes masked len) = 3 \<Longrightarrow> 126 \<le> len"
  "length (length_bytes masked len) = 9 \<Longrightarrow> 65536 \<le> len"
proof -
  consider "len \<le> 125" | "125 < len" "len \<le> 0xFFFF" | "0xFFFF < len" by linarith
  then show "length_bytes masked len \<noteq> []"
    "(hd (length_bytes masked len) AND 0x80 \<noteq> 0) = masked"
    "length (length_bytes masked len) = 3 \<Longrightarrow> 126 \<le> len"
    "length (length_bytes masked len) = 9 \<Longrightarrow> 65536 \<le> len"
    using low7 [of len] low7 [of 126] low7 [of 127]
    by (cases; auto simp: length_bytes_def Let_def)+
qed

definition frame_allowed :: "nat \<Rightarrow> partial option \<Rightarrow> byte \<Rightarrow> nat \<Rightarrow> bool" where
  "frame_allowed mx part b0 len \<longleftrightarrow>
     (let fin = (b0 AND 0x80 \<noteq> 0); op = b0 AND 0x0F in
      b0 AND 0x70 = 0 \<and> is_opcode op \<and>
      (if CLOSE \<le> op then fin \<and> len \<le> 125
       else (op = CONTINUATION) = (part \<noteq> None) \<and> saturating_add len (pending part) \<le> mx))"

lemma frame_head_raw:
  assumes len: "length payload < 2 ^ 63" and msk: "(msk \<noteq> None) = server"
    and ok: "frame_allowed mx part b0 (length payload)"
  defines "at \<equiv> 1 + length (length_bytes server (length payload)) + (if server then 4 else 0)"
  shows "frame_head server mx part (raw_frame b0 payload msk @ rest) =
    Ok (Some (b0 AND 0x80 \<noteq> 0, b0 AND 0x0F, length payload, at, msk))"
proof -
  let ?lb = "length_bytes server (length payload)"
  let ?kb = "case msk of None \<Rightarrow> [] | Some key \<Rightarrow> key_bytes key"
  let ?b = "b0 # ?lb @ ?kb @ mask_with msk payload @ rest"
  obtain b1 lb where lb: "?lb = b1 # lb" using length_bytes_limits(1) by (meson neq_Nil_conv)
  have b1: "(b1 AND 0x80 \<noteq> 0) = server" using length_bytes_limits(2) [of server "length payload"] lb by simp
  have fl: "frame_len ?b = Some (length payload, 1 + length ?lb)" by (rule frame_len_length_bytes [OF len])
  have key: "?b ! (1 + length ?lb + i) = key_bytes k ! i" if "msk = Some k" "i < 4" for k i
    using that by (simp add: nth_append)
  have lim: "frame_limit mx part (b0 AND 0x80 \<noteq> 0) (b0 AND 0x0F) (length payload) (1 + length ?lb) = None"
    using ok len length_bytes_limits(3,4) [of server "length payload"]
    by (auto simp: frame_limit_None frame_allowed_def Let_def split: if_splits)
  have chk: "frame_check server part b0 b1 = None"
    using ok b1 by (auto simp: frame_check_None frame_allowed_def Let_def not_less split: if_splits)
  have keys: "msk = (if server then Some (?b ! (1 + length ?lb), ?b ! (1 + length ?lb + 1),
      ?b ! (1 + length ?lb + 2), ?b ! (3 + (1 + length ?lb))) else None)"
  proof (cases msk)
    case (Some k)
    then show ?thesis
      using msk key [OF Some, of 0] key [OF Some, of 1] key [OF Some, of 2] key [OF Some, of 3]
      by (cases k) (simp add: key_bytes_def add.commute)
  qed (use msk in simp)
  show ?thesis
    unfolding frame_head_Some_iff raw_frame_shape msk
    using fl lim chk keys lb msk by (auto simp: at_def split: option.splits)
qed

lemma length_raw_frame:
  "length (raw_frame b0 payload msk) =
     1 + length (length_bytes (msk \<noteq> None) (length payload)) + (if msk \<noteq> None then 4 else 0) + length payload"
  by (simp add: raw_frame_shape split: option.splits)

lemma mask_with_mask_with [simp]: "mask_with msk (mask_with msk payload) = payload"
  by (simp add: mask_with_def split: option.splits)

lemma frame_step_raw:
  assumes "length payload < 2 ^ 63" "(msk \<noteq> None) = server" "frame_allowed mx part b0 (length payload)"
  shows "frame_step server mx part (raw_frame b0 payload msk @ rest) =
    (case assemble_data (b0 AND 0x80 \<noteq> 0) (b0 AND 0x0F) payload part of
       (Err e, _) \<Rightarrow> Stop e
     | (Ok m, part') \<Rightarrow> Step m part' (length (raw_frame b0 payload msk)))"
proof -
  define at where "at = 1 + length (length_bytes server (length payload)) + (if server then 4 else 0)"
  have head: "frame_head server mx part (raw_frame b0 payload msk @ rest) =
      Ok (Some (b0 AND 0x80 \<noteq> 0, b0 AND 0x0F, length payload, at, msk))"
    using frame_head_raw [OF assms, of rest] by (simp add: at_def)
  have "length (raw_frame b0 payload msk) = at + length payload"
    unfolding length_raw_frame at_def assms(2) by simp
  moreover have "drop at (raw_frame b0 payload msk @ rest) = mask_with msk payload @ rest"
    using assms(2) by (auto simp: raw_frame_shape at_def split: option.splits)
  ultimately show ?thesis
    by (simp add: frame_step_def head split: sum.splits prod.splits)
qed

text \<open>A frame that completes a message, as both sides of a link write it.\<close>

fun encode_msg :: "msg \<Rightarrow> mask_key option \<Rightarrow> bytes" where
  "encode_msg (Text d) msk = frame_encode TEXT d msk"
| "encode_msg (Binary d) msk = frame_encode BINARY d msk"
| "encode_msg (Ping d) msk = frame_encode PING d msk"
| "encode_msg (Pong d) msk = frame_encode PONG d msk"
| "encode_msg (Close None) msk = frame_encode CLOSE [] msk"
| "encode_msg (Close (Some (code, reason))) msk = frame_encode CLOSE (close_payload code reason) msk"

lemma length_close_payload: "length (close_payload code reason) = 2 + length reason"
  by (simp add: close_payload_def)

lemma close_close_payload:
  assumes "valid_close_code code" "is_utf8 reason"
  shows "close (close_payload code reason) = Ok (Close (Some (code, reason)))"
proof -
  obtain x y where be: "be_bytes 2 (unat code) = [x, y]" by (simp add: numeral_2_eq_2)
  have "unat code < 256 ^ 2" using unsigned_less [of code, where ?'a = nat] by simp
  then have "be_nat [x, y] = unat code" using be_nat_be_bytes_id [of "unat code" 2] by (simp add: be)
  with assms show ?thesis by (simp add: close_payload_def be close_simps)
qed

lemma final_opcodes:
  "(0x80 OR TEXT) AND 0x80 \<noteq> 0" "(0x80 OR TEXT) AND 0x70 = 0" "(0x80 OR TEXT) AND 0x0F = TEXT"
  "(0x80 OR BINARY) AND 0x80 \<noteq> 0" "(0x80 OR BINARY) AND 0x70 = 0" "(0x80 OR BINARY) AND 0x0F = BINARY"
  "(0x80 OR PING) AND 0x80 \<noteq> 0" "(0x80 OR PING) AND 0x70 = 0" "(0x80 OR PING) AND 0x0F = PING"
  "(0x80 OR PONG) AND 0x80 \<noteq> 0" "(0x80 OR PONG) AND 0x70 = 0" "(0x80 OR PONG) AND 0x0F = PONG"
  "(0x80 OR CLOSE) AND 0x80 \<noteq> 0" "(0x80 OR CLOSE) AND 0x70 = 0" "(0x80 OR CLOSE) AND 0x0F = CLOSE"
  by (simp_all add: opcode_defs)

lemma opcode_order:
  "TEXT < CLOSE" "BINARY < CLOSE" "CONTINUATION < CLOSE" "CLOSE \<le> PING" "CLOSE \<le> PONG"
  "TEXT \<noteq> CONTINUATION" "BINARY \<noteq> CONTINUATION" "TEXT \<noteq> BINARY" "PING \<noteq> PONG" "PING \<noteq> CLOSE" "PONG \<noteq> CLOSE"
  "is_opcode TEXT" "is_opcode BINARY" "is_opcode CLOSE" "is_opcode PING" "is_opcode PONG" "is_opcode CONTINUATION"
  by (simp_all add: is_opcode_def opcode_defs)

lemma frame_step_final:
  assumes "(msk \<noteq> None) = server" "length payload < 2 ^ 63"
    and "op = TEXT \<or> op = BINARY \<or> op = PING \<or> op = PONG \<or> op = CLOSE"
    and "if op = TEXT \<or> op = BINARY then length payload \<le> mx else length payload \<le> 125"
    and "assemble_data True op payload None = (Ok (Some m), None)"
  shows "frame_step server mx None (frame_encode op payload msk @ rest) =
    Step (Some m) None (length (frame_encode op payload msk))"
proof -
  have op: "(0x80 OR op) AND 0x80 \<noteq> 0" "(0x80 OR op) AND 0x70 = 0" "(0x80 OR op) AND 0x0F = op"
    using assms(3) final_opcodes by metis+
  have "frame_allowed mx None (0x80 OR op) (length payload)"
    using assms(3,4) opcode_order
    by (auto simp: frame_allowed_def op pending_def saturating_add_def leD split: if_splits)
  from frame_step_raw [OF assms(2,1) this, of rest] assms(5) show ?thesis
    by (simp add: frame_encode_raw op)
qed

lemma frame_step_encode_msg:
  assumes ok: "message_ok mx m" and mx: "mx < 2 ^ 63" and msk: "(msk \<noteq> None) = server"
  shows "frame_step server mx None (encode_msg m msk @ rest) = Step (Some m) None (length (encode_msg m msk))"
proof (cases m)
  case (Text d)
  with ok mx opcode_order show ?thesis
    by (auto simp: assemble_data_def check_text_0 intro!: frame_step_final [OF msk])
next
  case (Binary d)
  with ok mx opcode_order show ?thesis
    by (auto simp: assemble_data_def intro!: frame_step_final [OF msk])
next
  case (Ping d)
  with ok opcode_order show ?thesis
    by (auto simp: assemble_data_def intro!: frame_step_final [OF msk])
next
  case (Pong d)
  with ok opcode_order show ?thesis
    by (auto simp: assemble_data_def intro!: frame_step_final [OF msk])
next
  case (Close x)
  show ?thesis
  proof (cases x)
    case None
    with Close opcode_order show ?thesis
      by (auto simp: assemble_data_def close_simps intro!: frame_step_final [OF msk])
  next
    case (Some y)
    obtain code reason where y: "y = (code, reason)" by fastforce
    with ok Close Some opcode_order show ?thesis
      by (auto simp: assemble_data_def close_close_payload length_close_payload
          intro!: frame_step_final [OF msk])
  qed
qed

text \<open>The frames of a list of messages, each with its masking key.\<close>

definition encode_all :: "(msg \<times> mask_key option) list \<Rightarrow> bytes" where
  "encode_all ms = concat (map (\<lambda>(m, msk). encode_msg m msk) ms)"

lemma drain_encode_all:
  "\<lbrakk>\<forall>(m, msk) \<in> set ms. message_ok mx m \<and> (msk \<noteq> None) = server; mx < 2 ^ 63\<rbrakk>
    \<Longrightarrow> drain_frames server mx None (encode_all ms) = (map fst ms, Ok (None, []))"
proof (induction ms)
  case Nil
  then show ?case by (simp add: encode_all_def rd.drain_cases frame_step_def frame_head_def)
next
  case (Cons x ms)
  obtain m msk where x: "x = (m, msk)" by fastforce
  from Cons.prems x have "frame_step server mx None (encode_all (x # ms)) = Step (Some m) None (length (encode_msg m msk))"
    by (auto simp: encode_all_def frame_step_encode_msg)
  with Cons x show ?case by (simp add: rd.drain_cases encode_all_def)
qed

text \<open>
  C2: Round trip of the codec: the frames of any list of well-formed messages, masked towards a
  server and unmasked towards a client, pushed into the peer's reader in any pieces, come out
  as exactly those messages in order.
\<close>

theorem decode_encode_all:
  assumes "\<forall>(m, msk) \<in> set ms. message_ok mx m \<and> (msk \<noteq> None) = server" "mx < 2 ^ 63"
    and "concat cs = encode_all ms"
  shows "decode server mx cs = Ok (map fst ms)"
  using drain_encode_all [OF assms(1,2)] by (simp add: decode_frames assms(3))

theorem decode_encode_all_witness:
  "decode True 100 [encode_all [(Text [104, 105], Some (1, 2, 3, 4)), (Close (Some (1000, [])), Some (9, 9, 9, 9))]]
     = Ok [Text [104, 105], Close (Some (1000, []))]"
proof -
  have ok: "\<forall>(m, msk) \<in> set [(Text [104, 105], Some (1, 2, 3, 4)), (Close (Some (1000, [])), Some (9, 9, 9, 9))].
      message_ok 100 m \<and> (msk \<noteq> None) = True"
    by code_simp
  have "(100 :: nat) < 2 ^ 63" by simp
  from decode_encode_all [OF ok this, of "[encode_all _]"] show ?thesis by simp
qed

end
