(* ===== verification/Fragments.thy ===== *)
theory Fragments
  imports Reader_Spec
begin

text \<open>
  Fragmented messages through the reader: whatever the fragments, the message is delivered
  whole, or the text is refused with 1007 when its concatenation is not UTF-8.
\<close>

subsection \<open>Fragmented messages\<close>

text \<open>
  A message cut into fragments: the first frame carries the opcode, the others are
  continuations, and only the last one has the final bit.
\<close>

fun continuation_frames :: "(bytes \<times> mask_key option) list \<Rightarrow> bytes" where
  "continuation_frames [] = []"
| "continuation_frames ((p, msk) # ps) =
     raw_frame ((if ps = [] then 0x80 else 0) OR CONTINUATION) p msk @ continuation_frames ps"

fun fragmented :: "byte \<Rightarrow> (bytes \<times> mask_key option) list \<Rightarrow> bytes" where
  "fragmented op [] = []"
| "fragmented op ((p, msk) # ps) =
     raw_frame ((if ps = [] then 0x80 else 0) OR op) p msk @ continuation_frames ps"

definition message_of :: "byte \<Rightarrow> bytes \<Rightarrow> msg" where
  "message_of op data = (if op = TEXT then Text data else Binary data)"

definition fragments_fit :: "bool \<Rightarrow> nat \<Rightarrow> (bytes \<times> mask_key option) list \<Rightarrow> bool" where
  "fragments_fit server n ps \<longleftrightarrow>
     length (concat (map fst ps)) \<le> n \<and> list_all (\<lambda>(p, msk). (msk \<noteq> None) = server) ps"

definition utf8_fail :: fail where
  "utf8_fail = Fail 1007 (str ''invalid UTF-8 in text message'')"

lemma fragment_bytes:
  "op = TEXT \<or> op = BINARY \<or> op = CONTINUATION \<Longrightarrow>
   (((if fin then 0x80 else 0) OR op :: byte) AND 0x80 \<noteq> 0) = fin \<and>
   ((if fin then 0x80 else 0) OR op :: byte) AND 0x70 = 0 \<and> ((if fin then 0x80 else 0) OR op :: byte) AND 0x0F = op"
  by (auto simp: opcode_defs)

text \<open>One fragment, in terms of the reference assembler.\<close>

lemma frame_step_fragment:
  assumes op: "op = TEXT \<or> op = BINARY \<or> op = CONTINUATION" and inv: "partial_inv mx part" and mx: "mx < 2 ^ 63"
    and seq: "(op = CONTINUATION) = (part \<noteq> None)" and msk: "(msk \<noteq> None) = server"
    and len: "length p + pending part \<le> mx"
  defines "st \<equiv> (case part of None \<Rightarrow> (op, p) | Some q \<Rightarrow> (partial_op q, partial_data q @ p))"
  shows "if fst st = TEXT \<and> \<not> text_ok fin (snd st)
    then frame_step server mx part (raw_frame ((if fin then 0x80 else 0) OR op) p msk @ rest) = Stop utf8_fail
    else \<exists>part'. frame_step server mx part (raw_frame ((if fin then 0x80 else 0) OR op) p msk @ rest)
      = Step (if fin then Some (message_of (fst st) (snd st)) else None) part'
          (length (raw_frame ((if fin then 0x80 else 0) OR op) p msk)) \<and>
      partial_inv mx part' \<and> map_option partial_abs part' = (if fin then None else Some st)"
proof -
  let ?b0 = "(if fin then 0x80 else 0) OR op"
  note b0 = fragment_bytes [OF op, of fin]
  have lt: "op < CLOSE" "is_opcode op" "op \<noteq> PING" "op \<noteq> PONG" "op \<noteq> CLOSE" "\<not> CLOSE \<le> op"
    using op by (auto simp: opcode_defs is_opcode_def not_le)
  have "frame_allowed mx part ?b0 (length p)"
    using b0 lt seq len mx by (auto simp: frame_allowed_def saturating_add_def)
  moreover have "length p < 2 ^ 63" using len mx by linarith
  ultimately have step: "frame_step server mx part (raw_frame ?b0 p msk @ rest) =
    (case assemble_data fin op p part of
       (Err e, _) \<Rightarrow> Stop e
     | (Ok m, part') \<Rightarrow> Step m part' (length (raw_frame ?b0 p msk)))"
    using frame_step_raw [OF _ msk, of p mx part ?b0 rest] b0 by simp
  obtain res part' where a: "assemble_data fin op p part = (res, part')" by fastforce
  have st: "(case map_option partial_abs part of None \<Rightarrow> (op, p) | Some (op0, data) \<Rightarrow> (op0, data @ p)) = st"
    by (simp add: st_def partial_abs_def split: option.splits)
  have "assemble_ref fin op p (map_option partial_abs part) =
      (if fst st = TEXT \<and> \<not> text_ok fin (snd st) then (Err utf8_fail, Some st)
       else if fin then (Ok (Some (message_of (fst st) (snd st))), None) else (Ok None, Some st))"
    using lt unfolding assemble_ref_def st by (cases st) (simp add: utf8_fail_def message_of_def case_prod_beta)
  with assemble_data_ref [OF inv, of fin op p] a
  have ref: "(if fst st = TEXT \<and> \<not> text_ok fin (snd st) then (Err utf8_fail, Some st)
      else if fin then (Ok (Some (message_of (fst st) (snd st))), None) else (Ok None, Some st))
      = (res, map_option partial_abs part')"
    by simp
  have "partial_inv mx part'" if "res = Ok m" for m
    using assemble_data_inv [OF inv lt(2), of fin p m part'] a that lt seq len by simp
  with ref [symmetric] step a show ?thesis by (auto split: if_splits)
qed

lemma text_ok_False_append: "\<not> text_ok False data \<Longrightarrow> \<not> is_utf8 (data @ cs)"
  by (auto simp: text_ok_def utf8_prefix_def)

lemma drain_continuation_frames:
  assumes "partial_inv mx (Some q)" "mx < 2 ^ 63" "ps \<noteq> []"
    and "length (partial_data q) \<le> n" "n + length (concat (map fst ps)) \<le> mx"
    and "list_all (\<lambda>(p, msk). (msk \<noteq> None) = server) ps"
  shows "drain_frames server mx (Some q) (continuation_frames ps @ rest) =
    (let data = partial_data q @ concat (map fst ps) in
     if partial_op q = TEXT \<and> \<not> is_utf8 data then ([], Err utf8_fail)
     else emit_msg (Some (message_of (partial_op q) data)) (drain_frames server mx None rest))"
  using assms
proof (induction ps arbitrary: q n)
  case (Cons x ps)
  obtain p msk where x: "x = (p, msk)" by fastforce
  let ?fin = "ps = []"
  let ?f = "raw_frame ((if ?fin then 0x80 else 0) OR CONTINUATION) p msk"
  let ?data = "partial_data q @ p"
  have len: "length p + pending (Some q) \<le> mx" and msk: "(msk \<noteq> None) = server"
    using Cons.prems x by (auto simp: pending_def)
  note step = frame_step_fragment [OF _ Cons.prems(1,2) _ msk len, of CONTINUATION ?fin "continuation_frames ps @ rest"]
  show ?case
  proof (cases "partial_op q = TEXT \<and> \<not> text_ok ?fin ?data")
    case True
    then have "\<not> is_utf8 (?data @ concat (map fst ps))"
      by (cases ps) (auto simp: text_ok_def utf8_prefix_def)
    with step True show ?thesis by (simp add: x rd.drain_cases Let_def)
  next
    case False
    then obtain part' where st: "frame_step server mx (Some q) (?f @ continuation_frames ps @ rest)
        = Step (if ?fin then Some (message_of (partial_op q) ?data) else None) part' (length ?f)"
      and inv: "partial_inv mx part'"
      and abs: "map_option partial_abs part' = (if ?fin then None else Some (partial_op q, ?data))"
      using step by auto
    show ?thesis
    proof (cases ?fin)
      case True
      with st abs False show ?thesis by (auto simp: x rd.drain_cases text_ok_def Let_def)
    next
      case not_fin: False
      with abs obtain q' where q': "part' = Some q'" "partial_op q' = partial_op q" "partial_data q' = ?data"
        by (auto simp: partial_abs_def)
      have "drain_frames server mx (Some q) (continuation_frames (x # ps) @ rest)
          = drain_frames server mx (Some q') (continuation_frames ps @ rest)"
        using st not_fin q' by (simp add: x rd.drain_cases)
      with Cons.IH [of q' "n + length p"] inv q' not_fin Cons.prems x show ?thesis
        by (simp add: Let_def)
    qed
  qed
qed simp

text \<open>
  C3: A text or binary message cut into any fragments with any keys, of at most \<open>max\<close> bytes in
  total, is delivered whole, followed by whatever comes after it; a text whose bytes are not
  UTF-8 as a whole is refused with close code 1007 and nothing is delivered.  Checking
  only the bytes after the \<open>checked\<close> mark loses nothing.
\<close>

theorem drain_fragmented:
  assumes "op = TEXT \<or> op = BINARY" "ps \<noteq> []" "mx < 2 ^ 63" "fragments_fit server mx ps"
  shows "drain_frames server mx None (fragmented op ps @ rest) =
    (if op = TEXT \<and> \<not> is_utf8 (concat (map fst ps)) then ([], Err utf8_fail)
     else emit_msg (Some (message_of op (concat (map fst ps)))) (drain_frames server mx None rest))"
proof -
  obtain p msk qs where ps: "ps = (p, msk) # qs" using assms(2) by (cases ps) auto
  let ?fin = "qs = []"
  let ?f = "raw_frame ((if ?fin then 0x80 else 0) OR op) p msk"
  have len: "length p + pending None \<le> mx" and msk: "(msk \<noteq> None) = server"
    using assms(4) ps by (auto simp: fragments_fit_def pending_def)
  have op: "op = TEXT \<or> op = BINARY \<or> op = CONTINUATION" "(op = CONTINUATION) = (None \<noteq> (None :: partial option))"
    using assms(1) opcode_order by auto
  have "partial_inv mx None" by (simp add: partial_inv_def)
  note step = frame_step_fragment [OF op(1) this assms(3) op(2) msk len, of ?fin "continuation_frames qs @ rest"]
  show ?thesis
  proof (cases "op = TEXT \<and> \<not> text_ok ?fin p")
    case True
    then have "\<not> is_utf8 (p @ concat (map fst qs))"
      by (cases qs) (auto simp: text_ok_def utf8_prefix_def)
    with step True show ?thesis by (simp add: ps rd.drain_cases)
  next
    case False
    then obtain part' where st: "frame_step server mx None (?f @ continuation_frames qs @ rest)
        = Step (if ?fin then Some (message_of op p) else None) part' (length ?f)"
      and inv: "partial_inv mx part'"
      and abs: "map_option partial_abs part' = (if ?fin then None else Some (op, p))"
      using step by auto
    show ?thesis
    proof (cases ?fin)
      case True
      with st abs False show ?thesis by (simp add: ps rd.drain_cases text_ok_def)
    next
      case not_fin: False
      with abs obtain q where q: "part' = Some q" "partial_op q = op" "partial_data q = p"
        by (auto simp: partial_abs_def)
      have "drain_frames server mx None (fragmented op ps @ rest)
          = drain_frames server mx (Some q) (continuation_frames qs @ rest)"
        using st not_fin q by (simp add: ps rd.drain_cases)
      with drain_continuation_frames [of mx q qs "length p"] inv q not_fin assms(3,4) ps show ?thesis
        by (simp add: fragments_fit_def Let_def)
    qed
  qed
qed

text \<open>The scalar \<open>E2 82 AC\<close> cut after its first byte.\<close>

theorem drain_fragmented_witness:
  "drain_frames True 100 None (fragmented TEXT [([0xE2], Some (1, 2, 3, 4)), ([0x82, 0xAC], Some (5, 6, 7, 8))])
     = ([Text [0xE2, 0x82, 0xAC]], Ok (None, []))"
proof -
  have fit: "fragments_fit True 100 [([0xE2], Some (1, 2, 3, 4)), ([0x82, 0xAC], Some (5, 6, 7, 8))]"
    by code_simp
  have utf8: "is_utf8 [0xE2, 0x82, 0xAC]" by code_simp
  have empty: "drain_frames True 100 None [] = ([], Ok (None, []))" by code_simp
  from drain_fragmented [OF _ _ _ fit, of TEXT "[]"] utf8 empty show ?thesis
    by (simp add: message_of_def)
qed

end
