(* ===== verification/Refine.thy ===== *)
theory Refine
  imports Ws_Prelude
begin

text \<open>
  The contract between an implementation and its specification, both deterministic machines that
  turn inputs into outputs until an output halts them: an abstraction function under which every step of
  the implementation is the step of the specification.  The client's lemma lifts this to runs.
\<close>

fun machine_run :: "('s \<Rightarrow> 'i \<Rightarrow> 'o \<times> 's) \<Rightarrow> ('o \<Rightarrow> bool) \<Rightarrow> 's \<Rightarrow> 'i list \<Rightarrow> 'o list \<times> 's" where
  "machine_run step halt s [] = ([], s)"
| "machine_run step halt s (i # inputs) =
     (case step s i of
        (r, s') \<Rightarrow>
          if halt r then ([r], s')
          else (case machine_run step halt s' inputs of (rs, s'') \<Rightarrow> (r # rs, s'')))"

locale machine_refinement =
  fixes cstep :: "'c \<Rightarrow> 'i \<Rightarrow> 'o \<times> 'c"
    and astep :: "'a \<Rightarrow> 'i \<Rightarrow> 'o \<times> 'a"
    and halt :: "'o \<Rightarrow> bool"
    and abs :: "'c \<Rightarrow> 'a"
    and inv :: "'c \<Rightarrow> bool"
  assumes step_commutes: "\<lbrakk>inv c; cstep c i = (r, c')\<rbrakk> \<Longrightarrow> astep (abs c) i = (r, abs c')"
    and step_keeps: "\<lbrakk>inv c; cstep c i = (r, c'); \<not> halt r\<rbrakk> \<Longrightarrow> inv c'"
begin

lemma run_commutes:
  "\<lbrakk>inv c; machine_run cstep halt c inputs = (rs, c')\<rbrakk> \<Longrightarrow> machine_run astep halt (abs c) inputs = (rs, abs c')"
proof (induction inputs arbitrary: c rs)
  case (Cons i inputs)
  obtain r c1 where c1: "cstep c i = (r, c1)" by fastforce
  note a1 = step_commutes [OF Cons.prems(1) c1]
  show ?case
  proof (cases "halt r")
    case True
    with Cons.prems c1 a1 show ?thesis by simp
  next
    case False
    obtain rs' where rs': "machine_run cstep halt c1 inputs = (rs', c')" "rs = r # rs'"
      using Cons.prems(2) c1 False by (auto split: prod.splits)
    from Cons.IH [OF step_keeps [OF Cons.prems(1) c1 False] rs'(1)] a1 False rs'(2) show ?thesis by simp
  qed
qed simp

end

end
