(* ===== verification/Reader_Refine.thy ===== *)
theory Reader_Refine
  imports Reader_Spec Refine
begin

text \<open>
  What the reader promises, without how it does it: a receiver that holds the bytes it was given
  and the message under assembly, cuts whole frames off the input, and looks at all of a text each
  time.  The reader, with its buffer and read position, unmasking in place and checking only the new bytes of a
  text, refines it.
\<close>

record receiver =
  rv_message :: "(byte \<times> bytes) option"
  rv_input :: bytes

definition receiver_new :: receiver where
  [ws_eval]: "receiver_new = \<lparr>rv_message = None, rv_input = []\<rparr>"

text \<open>A whole frame at the front of the input: its final flag, opcode, payload and size.\<close>

definition first_frame ::
  "bool \<Rightarrow> nat \<Rightarrow> (byte \<times> bytes) option \<Rightarrow> bytes \<Rightarrow> fail + (bool \<times> byte \<times> bytes \<times> nat) option" where
  "first_frame server mx st b =
     (case frame_head server mx (map_option (\<lambda>(op, data). \<lparr>partial_op = op, partial_data = data, partial_checked = 0\<rparr>) st) b of
        Err e \<Rightarrow> Err e
      | Ok None \<Rightarrow> Ok None
      | Ok (Some (fin, op, len, at, key)) \<Rightarrow> Ok (Some (fin, op, mask_with key (take len (drop at b)), at + len)))"

lemma frame_head_abs:
  "frame_head server mx (map_option (\<lambda>(op, data). \<lparr>partial_op = op, partial_data = data, partial_checked = 0\<rparr>)
     (map_option partial_abs part)) b = frame_head server mx part b"
proof -
  let ?p = "map_option (\<lambda>(op, data). \<lparr>partial_op = op, partial_data = data, partial_checked = 0\<rparr>) (map_option partial_abs part)"
  have "frame_check server ?p b0 b1 = frame_check server part b0 b1" for b0 b1
    by (cases part) (simp_all add: frame_check_def Let_def)
  moreover have "frame_limit mx ?p fin op len at = frame_limit mx part fin op len at" for fin op len at
  proof -
    have "pending ?p = pending part" by (cases part) (simp_all add: pending_def partial_abs_def)
    then show ?thesis by (simp only: frame_limit_def)
  qed
  ultimately show ?thesis by (simp only: frame_head_def)
qed

lemma first_frame_progress: "first_frame server mx st b = Ok (Some (fin, op, payload, n)) \<Longrightarrow> 0 < n \<and> n \<le> length b"
  by (auto simp: first_frame_def dest: frame_head_SomeD(1,2) split: sum.splits option.splits)

function receive :: "bool \<Rightarrow> nat \<Rightarrow> receiver \<Rightarrow> (fail + msg option) \<times> receiver" where
  "receive server mx st =
     (case first_frame server mx (rv_message st) (rv_input st) of
        Err e \<Rightarrow> (Err e, st)
      | Ok None \<Rightarrow> (Ok None, st)
      | Ok (Some (fin, op, payload, n)) \<Rightarrow>
          (case assemble_ref fin op payload (rv_message st) of
             (res, message) \<Rightarrow>
               let st' = \<lparr>rv_message = message, rv_input = drop n (rv_input st)\<rparr> in
               if res = Ok None then receive server mx st' else (res, st')))"
  by pat_completeness auto
termination
  by (relation "measure (\<lambda>(server, mx, st). length (rv_input st))") (auto dest!: first_frame_progress)

declare receive.simps [simp del]

text \<open>The two machines: input is pushed, or the next message asked for.\<close>

datatype reader_call = Push bytes | NextMessage

fun reader_step :: "reader \<Rightarrow> reader_call \<Rightarrow> (fail + msg option) \<times> reader" where
  "reader_step r (Push data) = (Ok None, reader_push r data)"
| "reader_step r NextMessage = reader_message r"

fun receiver_step :: "bool \<Rightarrow> nat \<Rightarrow> receiver \<Rightarrow> reader_call \<Rightarrow> (fail + msg option) \<times> receiver" where
  "receiver_step server mx st (Push data) = (Ok None, st\<lparr>rv_input := rv_input st @ data\<rparr>)"
| "receiver_step server mx st NextMessage = receive server mx st"

definition reader_abs :: "reader \<Rightarrow> receiver" where
  "reader_abs r = \<lparr>rv_message = map_option partial_abs (rd_partial r), rv_input = unread r\<rparr>"

definition reader_good :: "bool \<Rightarrow> nat \<Rightarrow> reader \<Rightarrow> bool" where
  "reader_good server mx r \<longleftrightarrow>
     rd_server r = server \<and> rd_max r = mx \<and> rd_pos r \<le> length (rd_buf r) \<and> (\<exists>n. partial_inv n (rd_partial r))"

lemma partial_inv_mono: "\<lbrakk>partial_inv n part; n \<le> n'\<rbrakk> \<Longrightarrow> partial_inv n' part"
  by (auto simp: partial_inv_def split: option.splits)

text \<open>One frame, as the reader handles it.\<close>

lemma reader_frame_abs:
  assumes good: "reader_good server mx r"
    and head: "frame_head server mx (rd_partial r) (unread r) = Ok (Some (fin, op, len, at, key))"
  obtains f r1 res r2 where "reader_frame r = (Ok (Some f), r1)" "reader_assemble r1 f = (res, r2)"
    "assemble_ref fin op (mask_with key (take len (drop at (unread r)))) (rv_message (reader_abs r)) =
       (res, rv_message (reader_abs r2))"
    "rv_input (reader_abs r2) = drop (at + len) (unread r)" "\<And>m. res = Ok m \<Longrightarrow> reader_good server mx r2"
proof -
  have rd: "reads server mx (rd_partial r) (unread r) r" using good by (simp add: reads_def reader_good_def)
  obtain f r1 where f: "reader_frame r = (Ok (Some f), r1)" "reads server mx (rd_partial r) (drop (at + len) (unread r)) r1"
    "reader_assemble r1 f =
       (case assemble_data fin op (mask_with key (take len (drop at (unread r)))) (rd_partial r) of
          (res, part') \<Rightarrow> (res, r1\<lparr>rd_partial := part'\<rparr>))"
    by (rule reader_frame_reads [OF rd head])
  obtain res part' where a: "assemble_data fin op (mask_with key (take len (drop at (unread r)))) (rd_partial r) = (res, part')"
    by fastforce
  obtain n where n: "partial_inv n (rd_partial r)" using good by (auto simp: reader_good_def)
  have good2: "reader_good server mx (r1\<lparr>rd_partial := part'\<rparr>)" if "res = Ok m" for m
  proof -
    let ?n = "n + length (mask_with key (take len (drop at (unread r)))) + pending (rd_partial r)"
    note h = frame_head_SomeD [OF head]
    have "length (mask_with key (take len (drop at (unread r)))) \<le> len" by (simp add: mask_with_def split: option.splits)
    then have ctl: "CLOSE \<le> op \<Longrightarrow> fin \<and> length (mask_with key (take len (drop at (unread r)))) \<le> 125" using h(5) by fastforce
    have "partial_inv ?n (rd_partial r)" using n by (rule partial_inv_mono) simp
    from assemble_data_inv [OF this h(3) a [unfolded that] ctl _ h(7)] have "partial_inv ?n part'" by simp
    with f(2) show ?thesis by (auto simp: reader_good_def reads_def unread_def)
  qed
  show thesis
  proof (rule that [OF f(1)])
    show "reader_assemble r1 f = (res, r1\<lparr>rd_partial := part'\<rparr>)" using f(3) a by simp
    show "assemble_ref fin op (mask_with key (take len (drop at (unread r)))) (rv_message (reader_abs r)) =
       (res, rv_message (reader_abs (r1\<lparr>rd_partial := part'\<rparr>)))"
      using assemble_data_ref [OF n, of fin op] a by (simp add: reader_abs_def)
    show "rv_input (reader_abs (r1\<lparr>rd_partial := part'\<rparr>)) = drop (at + len) (unread r)"
      using f(2) by (simp add: reader_abs_def reads_def unread_def)
    show "reader_good server mx (r1\<lparr>rd_partial := part'\<rparr>)" if "res = Ok m" for m using good2 that .
  qed
qed

lemma receiver_eq: "\<lparr>rv_message = rv_message st, rv_input = rv_input st\<rparr> = st"
  by (cases st) simp

lemma reader_message_abs:
  "\<lbrakk>reader_good server mx r; reader_message r = (res, r')\<rbrakk> \<Longrightarrow>
     receive server mx (reader_abs r) = (res, reader_abs r') \<and> (\<forall>m. res = Ok m \<longrightarrow> reader_good server mx r')"
proof (induction r rule: reader_message.induct)
  case (1 r)
  let ?head = "frame_head server mx (rd_partial r) (unread r)"
  have rd: "rd_server r = server" "rd_max r = mx" using 1(2) by (simp_all add: reader_good_def)
  have first: "first_frame server mx (rv_message (reader_abs r)) (rv_input (reader_abs r)) =
      (case ?head of Err e \<Rightarrow> Err e | Ok None \<Rightarrow> Ok None
       | Ok (Some (fin, op, len, at, key)) \<Rightarrow> Ok (Some (fin, op, mask_with key (take len (drop at (unread r))), at + len)))"
    by (simp add: first_frame_def reader_abs_def frame_head_abs)
  show ?case
  proof (cases ?head)
    case (Inl e)
    then have "reader_message r = (Err e, r)"
      by (simp add: reader_message.simps [of r] reader_frame_def rd unread_def)
    with 1(3) first Inl show ?thesis by (auto simp: receive.simps)
  next
    case (Inr h)
    show ?thesis
    proof (cases h)
      case None
      then have "reader_message r = (Ok None, r)"
        using Inr by (simp add: reader_message.simps [of r] reader_frame_def rd unread_def)
      with 1(2,3) first Inr None show ?thesis by (simp add: receive.simps)
    next
      case (Some x)
      obtain fin op len at key where x: "x = (fin, op, len, at, key)" by (cases x) auto
      obtain f r1 res1 r2 where f: "reader_frame r = (Ok (Some f), r1)" and a: "reader_assemble r1 f = (res1, r2)"
        and ref: "assemble_ref fin op (mask_with key (take len (drop at (unread r)))) (rv_message (reader_abs r)) =
          (res1, rv_message (reader_abs r2))" "rv_input (reader_abs r2) = drop (at + len) (unread r)"
        and good: "\<And>m. res1 = Ok m \<Longrightarrow> reader_good server mx r2"
        using reader_frame_abs [OF 1(2) Inr [unfolded Some x]] by metis
      have st': "\<lparr>rv_message = rv_message (reader_abs r2), rv_input = drop (at + len) (rv_input (reader_abs r))\<rparr> = reader_abs r2"
        using ref(2) receiver_eq [of "reader_abs r2"] by (simp add: reader_abs_def)
      have rec: "receive server mx (reader_abs r) =
          (if res1 = Ok None then receive server mx (reader_abs r2) else (res1, reader_abs r2))"
        using first Inr Some x ref(1) st' by (simp add: receive.simps [of _ _ "reader_abs r"])
      show ?thesis
      proof (cases "res1 = Ok None")
        case True
        then have "reader_message r2 = (res, r')" using 1(3) f a by (simp add: reader_message.simps [of r])
        from 1(1) [OF f [symmetric] refl refl a [symmetric] True refl good [OF True] this] rec True show ?thesis by simp
      next
        case False
        then have "(res, r') = (res1, r2)"
          using 1(3) f a by (cases res1) (auto simp: reader_message.simps [of r] split: option.splits)
        with rec False good show ?thesis by auto
      qed
    qed
  qed
qed

interpretation rr: machine_refinement reader_step "receiver_step server mx" "\<lambda>r. \<exists>e. r = Err e" reader_abs "reader_good server mx"
  for server mx
proof
  fix r i res r'
  assume good: "reader_good server mx r" and step: "reader_step r i = (res, r')"
  have both: "receiver_step server mx (reader_abs r) i = (res, reader_abs r') \<and> (\<forall>m. res = Ok m \<longrightarrow> reader_good server mx r')"
  proof (cases i)
    case (Push data)
    have "reads server mx (rd_partial r) (unread r) r" using good by (simp add: reads_def reader_good_def)
    from reads_push [OF this, of data] good step Push show ?thesis
      by (auto simp: reads_def reader_good_def reader_abs_def)
  next
    case NextMessage
    with reader_message_abs [OF good] step show ?thesis by simp
  qed
  then show "receiver_step server mx (reader_abs r) i = (res, reader_abs r')" by simp
  show "reader_good server mx r'" if "\<not> (\<exists>e. res = Err e)" using both that by (cases res) auto
qed

text \<open>
  C5: The reader implements its specification: for every sequence of pushed inputs and requested
  messages, up to the first failure, it returns exactly the messages, the requests for more input and
  the failure of the receiver, and in the end holds the same unread bytes and the same message under assembly.
\<close>

theorem reader_refines_receiver:
  "machine_run (receiver_step server mx) (\<lambda>r. \<exists>e. r = Err e) receiver_new calls =
     (case machine_run reader_step (\<lambda>r. \<exists>e. r = Err e) (reader_new server mx) calls of (rs, r) \<Rightarrow> (rs, reader_abs r))"
proof -
  have init: "reader_abs (reader_new server mx) = receiver_new"
    by (simp add: reader_abs_def reader_new_def unread_def receiver_new_def)
  obtain rs r where run: "machine_run reader_step (\<lambda>r. \<exists>e. r = Err e) (reader_new server mx) calls = (rs, r)" by fastforce
  have "reader_good server mx (reader_new server mx)" by (simp add: reader_good_def reader_new_def partial_inv_def)
  from rr.run_commutes [OF this run] run show ?thesis by (simp add: init)
qed

end
