(* ===== verification/Rust_Str.thy ===== *)
theory Rust_Str
  imports Utf8
begin

text \<open>
  The operations of Rust's \<open>str\<close> and \<open>u8\<close> that the parsers use, on the bytes of the string:
  searching, splitting, trimming, joining and ASCII case.  The patterns are ASCII
  throughout, so byte positions and character positions agree.
\<close>

subsection \<open>ASCII\<close>

definition is_ascii_digit :: "byte \<Rightarrow> bool" where
  [ws_eval]: "is_ascii_digit b \<longleftrightarrow> 0x30 \<le> b \<and> b \<le> 0x39"

definition is_ascii_upper :: "byte \<Rightarrow> bool" where
  [ws_eval]: "is_ascii_upper b \<longleftrightarrow> 0x41 \<le> b \<and> b \<le> 0x5A"

definition is_ascii_alphanumeric :: "byte \<Rightarrow> bool" where
  [ws_eval]: "is_ascii_alphanumeric b \<longleftrightarrow> is_ascii_digit b \<or> is_ascii_upper b \<or> 0x61 \<le> b \<and> b \<le> 0x7A"

definition lower_byte :: "byte \<Rightarrow> byte" where
  [ws_eval]: "lower_byte b = (if is_ascii_upper b then b + 0x20 else b)"

definition to_ascii_lowercase :: "bytes \<Rightarrow> bytes" where
  [ws_eval]: "to_ascii_lowercase s = map lower_byte s"

definition eq_ignore_ascii_case :: "bytes \<Rightarrow> bytes \<Rightarrow> bool" where
  [ws_eval]: "eq_ignore_ascii_case s t \<longleftrightarrow> to_ascii_lowercase s = to_ascii_lowercase t"

subsection \<open>Prefixes, suffixes, trimming\<close>

definition strip_prefix :: "bytes \<Rightarrow> bytes \<Rightarrow> bytes option" where
  [ws_eval]: "strip_prefix p s = (if take (length p) s = p then Some (drop (length p) s) else None)"

definition strip_suffix :: "bytes \<Rightarrow> bytes \<Rightarrow> bytes option" where
  [ws_eval]: "strip_suffix p s =
     (if length p \<le> length s \<and> drop (length s - length p) s = p then Some (take (length s - length p) s)
      else None)"

definition is_blank :: "byte \<Rightarrow> bool" where
  [ws_eval]: "is_blank b \<longleftrightarrow> b = 0x20 \<or> b = 0x09"

text \<open>\<open>trim_matches([' ', '\t'])\<close>.\<close>

definition trim_blanks :: "bytes \<Rightarrow> bytes" where
  [ws_eval]: "trim_blanks s = rev (dropWhile is_blank (rev (dropWhile is_blank s)))"

subsection \<open>Searching and splitting\<close>

fun find_sub :: "bytes \<Rightarrow> bytes \<Rightarrow> nat option" where
  "find_sub p [] = (if p = [] then Some 0 else None)"
| "find_sub p (c # s) = (if take (length p) (c # s) = p then Some 0 else map_option Suc (find_sub p s))"

definition split_once :: "bytes \<Rightarrow> bytes \<Rightarrow> (bytes \<times> bytes) option" where
  [ws_eval]: "split_once p s = map_option (\<lambda>i. (take i s, drop (i + length p) s)) (find_sub p s)"

lemma find_sub_le: "find_sub p s = Some i \<Longrightarrow> i + length p \<le> length s"
proof (induction s arbitrary: i)
  case (Cons c s)
  show ?case
  proof (cases "take (length p) (c # s) = p")
    case True
    then have "length p \<le> length (c # s)" by (metis length_take min.cobounded1 nat_le_linear take_all)
    with Cons True show ?thesis by simp
  qed (use Cons in auto)
qed (auto split: if_splits)

function split_str :: "bytes \<Rightarrow> bytes \<Rightarrow> bytes list" where
  "split_str p s =
     (if p = [] then [s]
      else case find_sub p s of None \<Rightarrow> [s] | Some i \<Rightarrow> take i s # split_str p (drop (i + length p) s))"
  by pat_completeness auto
termination
proof (relation "measure (\<lambda>(p, s). length s)", goal_cases)
  case (2 p s i)
  then show ?case using find_sub_le [of p s i] by (cases p) auto
qed simp

declare split_str.simps [simp del]

text \<open>\<open>splitn(n, p)\<close>: at most \<open>n\<close> pieces, the last one unsplit.\<close>

fun splitn :: "nat \<Rightarrow> bytes \<Rightarrow> bytes \<Rightarrow> bytes list" where
  "splitn 0 p s = []"
| "splitn (Suc 0) p s = [s]"
| "splitn (Suc (Suc n)) p s =
     (case split_once p s of None \<Rightarrow> [s] | Some (a, b) \<Rightarrow> a # splitn (Suc n) p b)"

fun join :: "bytes \<Rightarrow> bytes list \<Rightarrow> bytes" where
  "join sep [] = []"
| "join sep [x] = x"
| "join sep (x # y # xs) = x @ sep @ join sep (y # xs)"

subsection \<open>Finding the first occurrence\<close>

lemma find_sub_Nil [simp]: "find_sub [] s = Some 0"
  by (cases s) simp_all

lemma find_sub_absent: "\<lbrakk>c \<notin> set s\<rbrakk> \<Longrightarrow> find_sub (c # p) s = None"
  by (induction s) auto

lemma find_sub_first: "c \<notin> set s \<Longrightarrow> find_sub (c # p) (s @ (c # p) @ t) = Some (length s)"
proof (induction s)
  case Nil
  then show ?case by simp
qed auto

lemma find_sub_Some:
  "find_sub p s = Some i \<Longrightarrow> s = take i s @ p @ drop (i + length p) s"
proof (induction s arbitrary: i)
  case (Cons c s)
  show ?case
  proof (cases "take (length p) (c # s) = p")
    case True
    with Cons.prems show ?thesis by simp (metis append_take_drop_id)
  next
    case False
    with Cons.prems obtain j where "i = Suc j" "find_sub p s = Some j" by auto
    with Cons.IH show ?thesis by simp
  qed
qed (auto split: if_splits)

lemma find_sub_None: "find_sub p s = None \<Longrightarrow> s \<noteq> a @ p @ b"
proof (induction s arbitrary: a)
  case (Cons c s)
  then show ?case by (cases a) (auto split: if_splits)
qed (auto split: if_splits)

text \<open>The occurrence found is the first.\<close>

lemma find_sub_here [simp]: "find_sub p (p @ b) = Some 0"
  by (cases p) simp_all

lemma find_sub_minimal: "find_sub p (a @ p @ b) = Some i \<Longrightarrow> i \<le> length a"
  by (induction a arbitrary: i) (auto split: if_splits)

lemma split_once_first: "c \<notin> set s \<Longrightarrow> split_once (c # p) (s @ (c # p) @ t) = Some (s, t)"
  by (simp add: split_once_def find_sub_first del: append_Cons)

lemma split_once_single: "c \<notin> set s \<Longrightarrow> split_once [c] (s @ c # t) = Some (s, t)"
  using split_once_first [of c s "[]" t] by simp

lemma split_once_Some: "split_once p s = Some (a, b) \<Longrightarrow> s = a @ p @ b"
  using find_sub_Some by (auto simp: split_once_def)

lemma split_once_absent: "split_once [c] s = Some (a, b) \<Longrightarrow> c \<notin> set a"
proof -
  assume "split_once [c] s = Some (a, b)"
  then obtain i where i: "find_sub [c] s = Some i" "a = take i s" by (auto simp: split_once_def)
  show ?thesis
  proof
    assume "c \<in> set a"
    then obtain u v where a: "a = u @ c # v" by (auto simp: in_set_conv_decomp)
    have "s = u @ [c] @ v @ drop i s" using i(2) a by (metis append_Cons append_assoc append_take_drop_id self_append_conv2)
    then have "i \<le> length u" using find_sub_minimal i(1) by metis
    moreover have "length a \<le> i" using i(2) by simp
    ultimately show False using a find_sub_le [OF i(1)] i(2) by simp
  qed
qed

subsection \<open>Splitting what was joined\<close>

lemma split_str_absent: "c \<notin> set s \<Longrightarrow> split_str (c # p) s = [s]"
  by (simp add: split_str.simps find_sub_absent)

lemma split_str_first: "c \<notin> set s \<Longrightarrow> split_str (c # p) (s @ (c # p) @ t) = s # split_str (c # p) t"
  using find_sub_first [of c s p t] by (simp add: split_str.simps [of _ "s @ _"])

lemma split_str_join:
  "\<lbrakk>xs \<noteq> []; \<forall>x \<in> set xs. c \<notin> set x\<rbrakk> \<Longrightarrow> split_str (c # p) (join (c # p) xs) = xs"
proof (induction "c # p" xs rule: join.induct)
  case (3 x y xs)
  then show ?case using split_str_first [of c x p "join (c # p) (y # xs)"] by simp
qed (simp_all add: split_str_absent)

lemma split_str_nonempty [simp]: "split_str p s \<noteq> []"
  by (simp add: split_str.simps [of p s] split: option.splits)

lemma join_split_str: "join p (split_str p s) = s"
proof (induction p s rule: split_str.induct)
  case (1 p s)
  show ?case
  proof (cases "p = [] \<or> find_sub p s = None")
    case True
    then show ?thesis by (auto simp: split_str.simps [of p s])
  next
    case False
    then obtain i where i: "p \<noteq> []" "find_sub p s = Some i" by auto
    let ?t = "drop (i + length p) s"
    have "join p (split_str p s) = take i s @ p @ join p (split_str p ?t)"
      using i by (cases "split_str p ?t") (auto simp: split_str.simps [of p s])
    with 1 i find_sub_Some [OF i(2)] show ?thesis by simp
  qed
qed

lemma split_str_pieces: "t \<in> set (split_str [c] s) \<Longrightarrow> c \<notin> set t"
proof (induction "[c]" s rule: split_str.induct)
  case (1 s)
  show ?case
  proof (cases "find_sub [c] s")
    case None
    then have "c \<notin> set s" using find_sub_None [of "[c]" s] by (auto simp: in_set_conv_decomp)
    with None 1 show ?thesis by (simp add: split_str.simps [of _ s])
  next
    case (Some i)
    then have "split_once [c] s = Some (take i s, drop (Suc i) s)" by (simp add: split_once_def)
    from split_once_absent [OF this] Some 1 show ?thesis by (auto simp: split_str.simps [of _ s])
  qed
qed

subsection \<open>Trimming\<close>

lemma trim_blanks_id:
  "\<lbrakk>s \<noteq> [] \<Longrightarrow> \<not> is_blank (hd s); s \<noteq> [] \<Longrightarrow> \<not> is_blank (last s)\<rbrakk> \<Longrightarrow> trim_blanks s = s"
proof -
  assume "s \<noteq> [] \<Longrightarrow> \<not> is_blank (hd s)" "s \<noteq> [] \<Longrightarrow> \<not> is_blank (last s)"
  then have "dropWhile is_blank s = s" "dropWhile is_blank (rev s) = rev s"
    by (auto simp: dropWhile_eq_self_iff hd_rev)
  then show ?thesis by (simp add: trim_blanks_def)
qed

lemma trim_blanks_none: "\<forall>b \<in> set s. \<not> is_blank b \<Longrightarrow> trim_blanks s = s"
  by (rule trim_blanks_id) auto

lemma trim_blanks_Cons: "is_blank b \<Longrightarrow> trim_blanks (b # s) = trim_blanks s"
  by (simp add: trim_blanks_def)

lemma set_trim_blanks: "set (trim_blanks s) \<subseteq> set s"
  unfolding trim_blanks_def by (auto dest!: set_dropWhileD)

subsection \<open>ASCII facts\<close>

lemma is_ascii_upper_nat: "is_ascii_upper b \<longleftrightarrow> 0x41 \<le> unat b \<and> unat b \<le> 0x5A"
  by (simp add: is_ascii_upper_def word_le_nat_alt)

lemma is_ascii_digit_nat: "is_ascii_digit b \<longleftrightarrow> 0x30 \<le> unat b \<and> unat b \<le> 0x39"
  by (simp add: is_ascii_digit_def word_le_nat_alt)

lemma is_ascii_alphanumeric_nat:
  "is_ascii_alphanumeric b \<longleftrightarrow>
     0x30 \<le> unat b \<and> unat b \<le> 0x39 \<or> 0x41 \<le> unat b \<and> unat b \<le> 0x5A \<or> 0x61 \<le> unat b \<and> unat b \<le> 0x7A"
  by (simp add: is_ascii_alphanumeric_def is_ascii_upper_nat is_ascii_digit_nat word_le_nat_alt)

lemma unat_lower_byte: "unat (lower_byte b) = (if 0x41 \<le> unat b \<and> unat b \<le> 0x5A then unat b + 32 else unat b)"
  by (simp add: lower_byte_def is_ascii_upper_nat unat_word_ariths)

lemma lower_byte_idem [simp]: "lower_byte (lower_byte b) = lower_byte b"
  by (simp add: byte_eq_iff unat_lower_byte)

lemma to_ascii_lowercase_idem [simp]: "to_ascii_lowercase (to_ascii_lowercase s) = to_ascii_lowercase s"
  by (simp add: to_ascii_lowercase_def comp_def)

lemma length_to_ascii_lowercase [simp]: "length (to_ascii_lowercase s) = length s"
  by (simp add: to_ascii_lowercase_def)

text \<open>ASCII text is UTF-8.\<close>

lemma is_utf8_ascii: "\<forall>b \<in> set s. b < 0x80 \<Longrightarrow> is_utf8 s"
proof (induction s)
  case (Cons b s)
  then have "b \<le> 0x7F" by (simp add: word_less_nat_alt word_le_nat_alt)
  then have "is_utf8 [b]" by (simp add: is_utf8_def run_utf8_validation.simps utf8_step.simps utf8_char_width_def)
  with Cons show ?case using is_utf8_append [of "[b]" s] by simp
qed simp

lemma is_utf8_appendI: "\<lbrakk>is_utf8 s; is_utf8 t\<rbrakk> \<Longrightarrow> is_utf8 (s @ t)"
  by (simp add: is_utf8_append)

lemma is_utf8_join: "\<lbrakk>is_utf8 sep; \<forall>x \<in> set xs. is_utf8 x\<rbrakk> \<Longrightarrow> is_utf8 (join sep xs)"
  by (induction sep xs rule: join.induct) (auto intro!: is_utf8_appendI)

end
