(* ===== verification/Http.thy ===== *)
theory Http
  imports Rust_Str
begin

text \<open>
  \<open>core/src/proto/http.rs\<close>: the strict, bounded HTTP head parser and the header helpers.

  \<open>http_parse_sound\<close> says what a parsed head guarantees, \<open>http_parse_print\<close> that every
  well-formed head that fits the bounds is parsed back, and \<open>http_end_Some\<close> that the end of
  a head is the first blank line.
\<close>

subsection \<open>Constants\<close>

definition MAX_HEAD :: nat where [ws_eval]: "MAX_HEAD = 16 * 1024"
definition MAX_HEADERS :: nat where [ws_eval]: "MAX_HEADERS = 64"

definition RESERVED :: "bytes list" where
  [ws_eval]: "RESERVED =
     [str ''host'', str ''upgrade'', str ''connection'', str ''content-length'', str ''transfer-encoding'',
      str ''sec-websocket-key'', str ''sec-websocket-version'', str ''sec-websocket-protocol'',
      str ''sec-websocket-extensions'', str ''sec-websocket-accept'']"

type_synonym headers = "(bytes \<times> bytes) list"

definition CRLF :: bytes where [ws_eval]: "CRLF = [0x0D, 0x0A]"

subsection \<open>The end of a head\<close>

definition windows :: "nat \<Rightarrow> 'a list \<Rightarrow> 'a list list" where
  [ws_eval]: "windows n xs = map (\<lambda>i. take n (drop i xs)) [0..<Suc (length xs) - n]"

definition http_end :: "bytes \<Rightarrow> nat option" where
  [ws_eval]: "http_end buf = map_option (\<lambda>i. i + 4) (position (\<lambda>w. w = CRLF @ CRLF) (windows 4 buf))"

subsection \<open>Validation\<close>

definition is_token :: "bytes \<Rightarrow> bool" where
  [ws_eval]: "is_token s \<longleftrightarrow>
     s \<noteq> [] \<and> list_all (\<lambda>b. is_ascii_alphanumeric b \<or> b \<in> set (str ''!#$%&'*+-.^_`|~'')) s"

definition is_value :: "bytes \<Rightarrow> bool" where
  [ws_eval]: "is_value s \<longleftrightarrow> list_all (\<lambda>b. b = 0x09 \<or> b \<ge> 0x20 \<and> b \<noteq> 0x7F) s"

definition check_header :: "bytes \<Rightarrow> bytes \<Rightarrow> bytes + unit" where
  [ws_eval]: "check_header name value =
     (if \<not> is_token name \<or> \<not> is_value value then Err (str ''invalid header: '' @ name)
      else if to_ascii_lowercase name \<in> set RESERVED then Err (str ''header is managed by ws: '' @ name)
      else Ok ())"

subsection \<open>Parsing\<close>

fun parse_lines :: "bytes list \<Rightarrow> headers \<Rightarrow> headers option" where
  "parse_lines [] headers = Some headers"
| "parse_lines (line # lines) headers =
     (case split_once [0x3A] line of None \<Rightarrow> None | Some (name, value) \<Rightarrow>
      let value = trim_blanks value in
      if \<not> is_token name \<or> \<not> is_value value \<or> length headers = MAX_HEADERS then None
      else parse_lines lines (headers @ [(to_ascii_lowercase name, value)]))"

definition http_parse :: "bytes \<Rightarrow> (bytes \<times> headers) option" where
  [ws_eval]: "http_parse head =
     (if length head > MAX_HEAD then None
      else case from_utf8 head of Err _ \<Rightarrow> None | Ok text \<Rightarrow>
      case strip_suffix (CRLF @ CRLF) text of None \<Rightarrow> None | Some text \<Rightarrow>
      case split_str CRLF text of [] \<Rightarrow> None | start # lines \<Rightarrow>
      case parse_lines lines [] of None \<Rightarrow> None | Some headers \<Rightarrow>
      if is_value start then Some (start, headers) else None)"

definition http_all :: "headers \<Rightarrow> bytes \<Rightarrow> bytes list" where
  [ws_eval]: "http_all headers name = map snd (filter (\<lambda>(n, _). n = name) headers)"

definition http_one :: "headers \<Rightarrow> bytes \<Rightarrow> bytes option" where
  [ws_eval]: "http_one headers name =
     (case http_all headers name of [] \<Rightarrow> None | v # rest \<Rightarrow> if rest = [] then Some v else None)"

definition has_token :: "headers \<Rightarrow> bytes \<Rightarrow> bytes \<Rightarrow> bool" where
  [ws_eval]: "has_token headers name token \<longleftrightarrow>
     list_ex (\<lambda>t. eq_ignore_ascii_case (trim_blanks t) token)
       (concat (map (split_str [0x2C]) (http_all headers name)))"

fun tokens_loop :: "bytes list \<Rightarrow> bytes set \<Rightarrow> bytes list \<Rightarrow> bytes list option" where
  "tokens_loop [] seen out = Some out"
| "tokens_loop (item # items) seen out =
     (let item = trim_blanks item in
      if \<not> is_token item \<or> item \<in> seen then None
      else tokens_loop items (insert item seen) (out @ [item]))"

definition tokens :: "headers \<Rightarrow> bytes \<Rightarrow> bytes list option" where
  [ws_eval]: "tokens headers name =
     tokens_loop (concat (map (split_str [0x2C]) (http_all headers name))) {} []"

subsection \<open>The end of a head is the first blank line\<close>

lemma position_windows: "position (\<lambda>w. w = p) (windows (length p) xs) = find_sub p xs"
proof (induction xs)
  case Nil
  then show ?case by (cases p) (simp_all add: windows_def)
next
  case (Cons x xs)
  show ?case
  proof (cases "length p \<le> length (x # xs)")
    case True
    then have "windows (length p) (x # xs) = take (length p) (x # xs) # windows (length p) xs"
      by (simp add: windows_def upt_conv_Cons Suc_diff_le map_Suc_upt [symmetric] comp_def del: upt_Suc map_Suc_upt)
    with Cons show ?thesis by simp
  next
    case False
    then have "windows (length p) (x # xs) = []" "take (length p) (x # xs) \<noteq> p" "windows (length p) xs = []"
      by (auto simp: windows_def dest: arg_cong [of _ _ length])
    with Cons show ?thesis by simp
  qed
qed

lemma http_end_find: "http_end buf = map_option (\<lambda>i. i + 4) (find_sub (CRLF @ CRLF) buf)"
  using position_windows [of "CRLF @ CRLF" buf] by (simp add: http_end_def CRLF_def numeral_eq_Suc)

lemma http_end_Some:
  assumes "http_end buf = Some n"
  shows "4 \<le> n" "n \<le> length buf" "drop (n - 4) (take n buf) = CRLF @ CRLF"
    and "\<And>a b. buf = a @ (CRLF @ CRLF) @ b \<Longrightarrow> n \<le> length a + 4"
proof -
  obtain i where i: "find_sub (CRLF @ CRLF) buf = Some i" "n = i + 4"
    using assms by (auto simp: http_end_find)
  have len: "length (CRLF @ CRLF) = 4" by (simp add: CRLF_def)
  show "4 \<le> n" using i by simp
  show "n \<le> length buf" using find_sub_le [OF i(1)] len i(2) by simp
  show "drop (n - 4) (take n buf) = CRLF @ CRLF"
    using find_sub_Some [OF i(1)] find_sub_le [OF i(1)] i(2) len
    by (metis add_diff_cancel_right' append_eq_conv_conj diff_add_inverse drop_take length_take min.absorb2 add_leD1)
  show "n \<le> length a + 4" if "buf = a @ (CRLF @ CRLF) @ b" for a b
    using find_sub_minimal [of "CRLF @ CRLF" a b i] i that by simp
qed

subsection \<open>What a parsed head guarantees\<close>

definition header_ok :: "bytes \<times> bytes \<Rightarrow> bool" where
  "header_ok h \<longleftrightarrow> is_token (fst h) \<and> to_ascii_lowercase (fst h) = fst h \<and> is_value (snd h)"

lemma token_byte_lower:
  "is_ascii_alphanumeric b \<or> b \<in> set (str ''!#$%&'*+-.^_`|~'') \<Longrightarrow>
   is_ascii_alphanumeric (lower_byte b) \<or> lower_byte b \<in> set (str ''!#$%&'*+-.^_`|~'')"
proof (cases "is_ascii_upper b")
  case True
  then have "is_ascii_alphanumeric (lower_byte b)"
    by (simp add: is_ascii_alphanumeric_nat unat_lower_byte is_ascii_upper_nat)
  then show ?thesis ..
qed (simp add: lower_byte_def)

lemma is_token_lower: "is_token s \<Longrightarrow> is_token (to_ascii_lowercase s)"
  using token_byte_lower by (auto simp: is_token_def to_ascii_lowercase_def list_all_iff)

lemma parse_lines_sound:
  "\<lbrakk>parse_lines lines hs = Some hs'; list_all header_ok hs; length hs \<le> MAX_HEADERS\<rbrakk>
    \<Longrightarrow> list_all header_ok hs' \<and> length hs' \<le> MAX_HEADERS \<and> length hs' = length hs + length lines"
proof (induction lines arbitrary: hs)
  case (Cons line lines)
  then obtain name v where "split_once [0x3A] line = Some (name, v)" "is_token name" "is_value (trim_blanks v)"
    "length hs \<noteq> MAX_HEADERS"
    "parse_lines lines (hs @ [(to_ascii_lowercase name, trim_blanks v)]) = Some hs'"
    by (auto simp: Let_def split: option.splits if_splits)
  with Cons.IH [of "hs @ [(to_ascii_lowercase name, trim_blanks v)]"] Cons.prems show ?case
    by (simp add: header_ok_def is_token_lower)
qed simp

lemma from_utf8_Ok_iff: "from_utf8 s = Ok t \<longleftrightarrow> is_utf8 s \<and> t = s"
  by (cases "run_utf8_validation 0 s") (auto simp: from_utf8_def is_utf8_def)

lemma http_parse_Some_iff:
  "http_parse head = Some (start, hs) \<longleftrightarrow>
     length head \<le> MAX_HEAD \<and> is_utf8 head \<and> is_value start \<and>
     (\<exists>text lines. head = text @ CRLF @ CRLF \<and> split_str CRLF text = start # lines \<and>
        parse_lines lines [] = Some hs)"
proof -
  have suffix: "strip_suffix (CRLF @ CRLF) head = Some t \<longleftrightarrow> head = t @ CRLF @ CRLF" for t
    by (auto simp: strip_suffix_def) (metis append_take_drop_id append_assoc)+
  have self: "strip_suffix (CRLF @ CRLF) (t @ CRLF @ CRLF) = Some t" for t
    by (simp add: strip_suffix_def)
  show ?thesis
  proof (cases "is_utf8 head")
    case True
    then have "from_utf8 head = Ok head" by (simp add: from_utf8_Ok_iff)
    with True show ?thesis by (auto simp: http_parse_def suffix self split: option.splits list.splits)
  next
    case False
    then obtain e where "from_utf8 head = Err e" by (metis from_utf8_Ok_iff sum.exhaust)
    with False show ?thesis by (simp add: http_parse_def)
  qed
qed

lemma http_parse_checks:
  assumes "http_parse head = Some (start, hs)"
  shows "length head \<le> MAX_HEAD \<and> is_utf8 head \<and> is_value start \<and> list_all header_ok hs \<and> length hs \<le> MAX_HEADERS"
  using assms parse_lines_sound [of _ "[]" hs] by (auto simp: http_parse_Some_iff)

text \<open>
  A head the parser accepts is bounded and clean: at most 16 KiB of UTF-8, at most 64
  headers, every name a lower-cased token, and no control character, hence no line
  break, in the start line or in any value.
\<close>

lemma http_parse_sound:
  assumes "http_parse head = Some (start, hs)"
  shows "length head \<le> MAX_HEAD \<and> is_utf8 head \<and> is_value start \<and> list_all header_ok hs \<and> length hs \<le> MAX_HEADERS"
  using assms by (rule http_parse_checks)

subsection \<open>Printing and parsing\<close>

definition print_header :: "bytes \<times> bytes \<Rightarrow> bytes" where
  "print_header h = fst h @ str '': '' @ snd h @ CRLF"

definition print_head :: "bytes \<Rightarrow> headers \<Rightarrow> bytes" where
  "print_head start hs = start @ CRLF @ concat (map print_header hs) @ CRLF"

definition parsed_header :: "bytes \<times> bytes \<Rightarrow> bytes \<times> bytes" where
  "parsed_header h = (to_ascii_lowercase (fst h), trim_blanks (snd h))"

lemma is_value_trim: "is_value s \<Longrightarrow> is_value (trim_blanks s)"
  using set_trim_blanks [of s] by (auto simp: is_value_def list_all_iff)

lemma is_value_no_CR: "is_value s \<Longrightarrow> 0x0D \<notin> set s"
  by (auto simp: is_value_def list_all_iff)

lemma is_token_chars:
  assumes "is_token s"
  shows "0x3A \<notin> set s" "0x0D \<notin> set s" "0x2C \<notin> set s" "\<forall>b \<in> set s. \<not> is_blank b" "\<forall>b \<in> set s. b < 0x80"
proof -
  have ok: "unat b \<noteq> 0x3A \<and> unat b \<noteq> 0x0D \<and> unat b \<noteq> 0x2C \<and> unat b \<noteq> 0x20 \<and> unat b \<noteq> 0x09 \<and> unat b < 0x80"
    if "b \<in> set s" for b
  proof -
    have "is_ascii_alphanumeric b \<or> b \<in> set (str ''!#$%&'*+-.^_`|~'')"
      using assms that by (auto simp: is_token_def list_all_iff)
    then show ?thesis by (auto simp: is_ascii_alphanumeric_nat str_def)
  qed
  show "0x3A \<notin> set s" "0x0D \<notin> set s" "0x2C \<notin> set s" using ok by fastforce+
  show "\<forall>b \<in> set s. \<not> is_blank b" "\<forall>b \<in> set s. b < 0x80"
    using ok by (fastforce simp: is_blank_def word_less_nat_alt)+
qed

lemma parse_lines_print:
  "\<lbrakk>\<forall>h \<in> set hs. is_token (fst h) \<and> is_value (snd h); length out + length hs \<le> MAX_HEADERS\<rbrakk>
    \<Longrightarrow> parse_lines (map (\<lambda>h. fst h @ str '': '' @ snd h) hs) out = Some (out @ map parsed_header hs)"
proof (induction hs arbitrary: out)
  case (Cons h hs)
  have "str '': '' = [0x3A, 0x20]" by (simp add: str_def)
  then have "split_once [0x3A] (fst h @ str '': '' @ snd h) = Some (fst h, 0x20 # snd h)"
    using Cons.prems split_once_single [of "0x3A" "fst h" "0x20 # snd h"] by (simp add: is_token_chars)
  with Cons show ?case
    by (simp add: trim_blanks_Cons is_blank_def is_value_trim parsed_header_def)
qed simp

lemma join_CRLF: "join CRLF (x # xs) = x @ concat (map (\<lambda>y. CRLF @ y) xs)"
  by (induction xs arbitrary: x) simp_all

lemma print_head_join:
  "print_head start hs = join CRLF (start # map (\<lambda>h. fst h @ str '': '' @ snd h) hs) @ CRLF @ CRLF"
proof -
  have "CRLF @ concat (map print_header hs) = concat (map (\<lambda>y. CRLF @ y) (map (\<lambda>h. fst h @ str '': '' @ snd h) hs)) @ CRLF"
    by (induction hs) (simp_all add: print_header_def)
  then show ?thesis unfolding print_head_def join_CRLF by simp
qed

lemma http_parse_print:
  assumes "is_value start" "is_utf8 start"
    and hs: "\<forall>h \<in> set hs. is_token (fst h) \<and> is_value (snd h) \<and> is_utf8 (snd h)"
    and "length (print_head start hs) \<le> MAX_HEAD" "length hs \<le> MAX_HEADERS"
  shows "http_parse (print_head start hs) = Some (start, map parsed_header hs)"
proof -
  let ?lines = "map (\<lambda>h. fst h @ str '': '' @ snd h) hs"
  have CR: "CRLF = 0x0D # [0x0A]" by (simp add: CRLF_def)
  have sep: "is_utf8 (str '': '')" by (rule is_utf8_ascii) (simp add: str_def)
  have line: "0x0D \<notin> set x \<and> is_utf8 x" if x: "x \<in> set ?lines" for x
  proof -
    obtain h where h: "h \<in> set hs" "x = fst h @ str '': '' @ snd h" using x by auto
    then have "is_token (fst h)" "is_value (snd h)" "is_utf8 (snd h)" using hs by auto
    moreover from this have "is_utf8 (fst h)" by (intro is_utf8_ascii is_token_chars(5))
    moreover have "0x0D \<notin> set (str '': '')" by (simp add: str_def)
    ultimately show ?thesis
      using h sep by (auto intro!: is_utf8_appendI dest: is_token_chars(2) is_value_no_CR)
  qed
  have split: "split_str CRLF (join CRLF (start # ?lines)) = start # ?lines"
    unfolding CR using assms(1) line by (intro split_str_join) (auto dest: is_value_no_CR)
  have crlf: "is_utf8 CRLF" by (rule is_utf8_ascii) (simp add: CRLF_def)
  then have "is_utf8 (print_head start hs)"
    unfolding print_head_join using assms(2) line
    by (intro is_utf8_appendI is_utf8_join) auto
  with assms split show ?thesis
    unfolding http_parse_Some_iff print_head_join
    using parse_lines_print [of hs "[]"] by (auto simp: print_head_join)
qed

text \<open>The end found in a stream that starts with a printed head is the end of that head.\<close>

lemma find_sub_skip:
  assumes "c \<notin> set x"
  shows "find_sub (c # p) (x @ s) = map_option (\<lambda>i. length x + i) (find_sub (c # p) s)"
  using assms by (cases "find_sub (c # p) s"; induction x) auto

lemma find_blank_line:
  assumes "ls \<noteq> []" "\<forall>l \<in> set ls. l \<noteq> [] \<and> 0x0D \<notin> set l"
  shows "find_sub (CRLF @ CRLF) (join CRLF ls @ CRLF @ CRLF @ t) = Some (length (join CRLF ls))"
  using assms
proof (induction CRLF ls rule: join.induct)
  case (2 l)
  then show ?case using find_sub_first [of "0x0D" l "0x0A # CRLF" t] by (simp add: CRLF_def)
next
  case (3 l m ls)
  let ?rest = "join CRLF (m # ls) @ CRLF @ CRLF @ t"
  obtain b m' where m: "m = b # m'" "b \<noteq> 0x0D" using 3 by (cases m) auto
  then obtain r where r: "?rest = b # r" by (cases ls) auto
  have "find_sub (CRLF @ CRLF) (CRLF @ ?rest) = map_option (\<lambda>i. Suc (Suc i)) (find_sub (CRLF @ CRLF) ?rest)"
    unfolding r using m(2) by (auto simp: CRLF_def option.map_comp comp_def)
  with 3 find_sub_skip [of "0x0D" l "0x0A # CRLF" "CRLF @ ?rest"] show ?case by (simp add: CRLF_def)
qed simp

lemma http_end_print:
  assumes "start \<noteq> []" "is_value start" "\<forall>h \<in> set hs. is_token (fst h) \<and> is_value (snd h)"
  shows "http_end (print_head start hs @ t) = Some (length (print_head start hs))"
proof -
  let ?ls = "start # map (\<lambda>h. fst h @ str '': '' @ snd h) hs"
  have "\<forall>l \<in> set ?ls. l \<noteq> [] \<and> 0x0D \<notin> set l"
    using assms by (auto simp: str_def dest: is_value_no_CR is_token_chars(2))
  from find_blank_line [OF _ this, of t] show ?thesis
    unfolding http_end_find print_head_join by (simp add: CRLF_def)
qed

end
