(* ===== verification/Sync.thy ===== *)
theory Sync
  imports Http
begin

text \<open>
  The shared objects between the application and the connection tasks: the event type
  (\<open>core/src/event.rs\<close>), the event queue with its admission permits (\<open>core/src/queue.rs\<close>),
  the one-shot upgrade decision (\<open>core/src/reply.rs\<close>) and the cancellation signal
  (\<open>core/src/signal.rs\<close>).

  A connection, a reply sender and a permit are shared references in the source; here they
  are their numbers.
\<close>

type_synonym id = nat
type_synonym permit = nat

subsection \<open>Events\<close>

record upgrade =
  up_path :: bytes
  up_headers :: headers
  up_protocols :: "bytes list"
  up_addr :: bytes

datatype reply = Accept "bytes option" | Reject nat

datatype event =
    EvOpen id
  | EvRequest id upgrade nat
  | EvConnection id id upgrade
  | EvMessage id bytes bool
  | EvPing id bytes
  | EvPong id bytes
  | EvError id bytes
  | EvDrain id
  | EvClose id u16 bytes

fun is_close_event :: "event \<Rightarrow> bool" where
  "is_close_event (EvClose _ _ _) = True"
| "is_close_event _ = False"

subsection \<open>The event queue\<close>

record queued =
  qd_event :: event
  qd_permit :: "permit option"
  qd_pending :: "permit option"

text \<open>
  One sender of the hub's channel: what it has put there, whether the receiving end still
  exists, its admission slot, and the hub's closed flag.
\<close>

record events =
  ev_tx :: "queued list"
  ev_rx :: bool
  ev_permit :: "permit option"
  ev_closed :: bool

definition events_admitted :: "events \<Rightarrow> permit \<Rightarrow> events" where
  [ws_eval]: "events_admitted ev p = ev\<lparr>ev_permit := Some p\<rparr>"

definition events_close :: "events \<Rightarrow> events" where
  [ws_eval]: "events_close ev = ev\<lparr>ev_closed := True\<rparr>"

definition events_send_pending :: "event \<Rightarrow> permit option \<Rightarrow> events \<Rightarrow> bool \<times> events" where
  [ws_eval]: "events_send_pending event pending ev =
     (let slot = ev_permit ev;
          ev = (if is_close_event event then ev\<lparr>ev_permit := None\<rparr> else ev)
      in if ev_closed ev then (False, ev)
         else if ev_rx ev
         then (True, ev\<lparr>ev_tx := ev_tx ev @ [\<lparr>qd_event = event, qd_permit = slot, qd_pending = pending\<rparr>]\<rparr>)
         else (False, ev))"

definition events_send :: "event \<Rightarrow> events \<Rightarrow> bool \<times> events" where
  [ws_eval]: "events_send event ev = events_send_pending event None ev"

subsection \<open>Permits\<close>

text \<open>
  \<open>Permit::acquire\<close> is a compare-and-exchange loop on a shared counter.  Its rounds interleave
  with those of other threads and with dropped permits, so the model has one function per
  atomic access and an arbitrary schedule of them.  \<open>permit_try\<close> is one round of the loop by a
  thread that last saw the value \<open>n\<close>; the weak exchange may fail for no reason.
\<close>

datatype attempt = Won | Full | Retry nat

definition permit_try :: "nat \<Rightarrow> nat \<Rightarrow> bool \<Rightarrow> nat \<Rightarrow> nat \<times> attempt" where
  [ws_eval]: "permit_try limit n spurious count =
     (if n < limit then
        (if count = n \<and> \<not> spurious then (n + 1, Won) else (count, Retry count))
      else (count, Full))"

text \<open>\<open>Drop for Permit\<close>: an atomic subtraction on a \<open>usize\<close>, which wraps.\<close>

definition permit_drop :: "nat \<Rightarrow> nat" where
  [ws_eval]: "permit_drop count = (if count = 0 then usize_max else count - 1)"

datatype permit_action = Load nat | Try nat bool | Drop

record permits =
  pm_count :: nat
  pm_live :: nat
  pm_seen :: "nat \<Rightarrow> nat option"

definition permits_new :: permits where
  [ws_eval]: "permits_new = \<lparr>pm_count = 0, pm_live = 0, pm_seen = Map.empty\<rparr>"

text \<open>
  One atomic access: a thread loads the counter, a thread that has seen it tries the exchange,
  or the last reference to a live permit is dropped.
\<close>

fun permit_act :: "nat \<Rightarrow> permit_action \<Rightarrow> permits \<Rightarrow> permits" where
  "permit_act limit (Load t) s = s\<lparr>pm_seen := (pm_seen s)(t \<mapsto> pm_count s)\<rparr>"
| "permit_act limit (Try t spurious) s =
     (case pm_seen s t of
        None \<Rightarrow> s
      | Some n \<Rightarrow>
          (case permit_try limit n spurious (pm_count s) of
             (c, Won) \<Rightarrow> s\<lparr>pm_count := c, pm_live := pm_live s + 1, pm_seen := (pm_seen s)(t := None)\<rparr>
           | (c, Full) \<Rightarrow> s\<lparr>pm_count := c, pm_seen := (pm_seen s)(t := None)\<rparr>
           | (c, Retry m) \<Rightarrow> s\<lparr>pm_count := c, pm_seen := (pm_seen s)(t \<mapsto> m)\<rparr>))"
| "permit_act limit Drop s =
     (if 0 < pm_live s then s\<lparr>pm_count := permit_drop (pm_count s), pm_live := pm_live s - 1\<rparr> else s)"

declare permit_act.simps [ws_eval]

definition permits_ok :: "nat \<Rightarrow> permits \<Rightarrow> bool" where
  "permits_ok limit s \<longleftrightarrow> pm_count s = pm_live s \<and> pm_live s \<le> limit"

lemma permit_act_ok: "permits_ok limit s \<Longrightarrow> permits_ok limit (permit_act limit a s)"
  by (cases a)
    (auto simp: permits_ok_def permit_try_def permit_drop_def split: option.splits)

lemma permit_acts_ok: "permits_ok limit s \<Longrightarrow> permits_ok limit (fold (permit_act limit) acts s)"
  by (induction acts arbitrary: s) (simp_all add: permit_act_ok)

text \<open>
  Under every interleaving of loads, weak compare-and-exchange rounds with spurious
  failures, and drops, the shared counter equals the number of live permits and never exceeds
  the limit; in particular the subtraction of a drop never wraps.
\<close>

lemma permits_bounded:
  "pm_count (fold (permit_act limit) acts permits_new) = pm_live (fold (permit_act limit) acts permits_new)
   \<and> pm_live (fold (permit_act limit) acts permits_new) \<le> limit"
  using permit_acts_ok [of limit permits_new acts] by (simp add: permits_ok_def permits_new_def)

subsection \<open>Replies\<close>

text \<open>
  \<open>ReplySender\<close>: the slot holds the channel's sender until the first answer takes it.  Whether
  the channel accepts the value (its receiver still waits) is the argument \<open>delivered\<close>.
\<close>

definition reply_send :: "bool \<Rightarrow> bool \<Rightarrow> reply \<Rightarrow> bool \<times> (reply + unit)" where
  [ws_eval]: "reply_send sender delivered reply =
     (False, if sender then (if delivered then Ok () else Err reply) else Err reply)"

fun reply_sends :: "bool \<Rightarrow> (bool \<times> reply) list \<Rightarrow> (reply + unit) list" where
  "reply_sends sender [] = []"
| "reply_sends sender ((delivered, r) # rs) =
     (let (sender, result) = reply_send sender delivered r in result # reply_sends sender rs)"

lemma reply_sends_taken: "reply_sends False rs = map (\<lambda>(_, r). Err r) rs"
  by (induction rs) (auto simp: reply_send_def)

text \<open>
  However many decisions are sent and whichever of them the channel would take, only the
  first can be delivered; every other one comes back to its sender unchanged.
\<close>

lemma reply_at_most_once:
  "reply_sends True ((delivered, r) # rs) =
     (if delivered then Ok () else Err r) # map (\<lambda>(_, r). Err r) rs"
  by (simp add: reply_send_def reply_sends_taken)

subsection \<open>Signals\<close>

text \<open>\<open>Signal::set\<close> swaps the flag and notifies the waiters the first time only.\<close>

definition signal_set :: "bool \<Rightarrow> bool \<times> bool \<times> bool" where
  [ws_eval]: "signal_set flag = (True, \<not> flag, flag)"

text \<open>
  One poll of \<open>Signal::wait\<close> by the waker \<open>cx\<close>.  The flag is loaded twice, and another thread
  may set it in between (\<open>first\<close>, \<open>second\<close>); \<open>notified\<close> is what polling the notification
  future of tokio yields.  The result tells whether the poll is ready, whether it polled
  the notification, and the waker now registered.
\<close>

definition wait_poll :: "nat \<Rightarrow> bool \<Rightarrow> bool \<Rightarrow> bool \<Rightarrow> nat option \<Rightarrow> bool \<times> bool \<times> nat option" where
  [ws_eval]: "wait_poll cx first notified second registered =
     (if first then (True, False, registered)
      else if registered = Some cx then (False, False, registered)
      else let registered = (if notified then registered else Some cx)
           in (second \<or> notified, True, registered))"

text \<open>A pending poll always leaves its own waker registered.\<close>

lemma wait_poll_pending:
  "wait_poll cx first notified second registered = (False, p, r) \<Longrightarrow>
     r = Some cx \<and> \<not> first \<and> (p \<longrightarrow> \<not> second \<and> \<not> notified)"
  by (auto simp: wait_poll_def Let_def split: if_splits)

end
