(* ===== verification/Link.thy ===== *)
theory Link
  imports Sync Reader
begin

text \<open>
  One connection (\<open>core/src/net/link\<close>): its lifecycle flags, the bounded outbound queue, event
  emission, the reaction to decoded messages and the closing handshake.

  The source guards \<open>flags\<close> and \<open>queue\<close> by mutexes and keeps counters in atomics.  Every
  operation here is one critical section (or the sequence of sections the method runs), as a
  function from the connection's state to its next state.  A pending \<open>Notify\<close> permit is a flag
  that \<open>notify_one\<close> sets.  Random mask keys come from the stream \<open>lk_random\<close>, drawn in order;
  the current time is an argument, in nanoseconds.  Completion times of heartbeats are shared
  cells in the source; here they are the entries of \<open>lk_sent\<close>, and a reference is an index.
\<close>

subsection \<open>State\<close>

definition CLOSE_TIMEOUT :: nat where [ws_eval]: "CLOSE_TIMEOUT = 5 * 1000000000"
definition EVENT_COST :: nat where [ws_eval]: "EVENT_COST = 64"
definition JOIN :: nat where [ws_eval]: "JOIN = 16 * 1024"
definition INBOX_LIMIT :: nat where [ws_eval]: "INBOX_LIMIT = 1048576"
definition PONG_LIMIT :: nat where [ws_eval]: "PONG_LIMIT = 1048576"

record config =
  cf_message :: nat
  cf_buffer :: nat
  cf_heartbeat :: "nat option"

datatype state = Connecting | Open | Closing | Closed

record flags =
  fl_state :: state
  fl_sent_close :: bool
  fl_received :: "(u16 \<times> bytes) option"
  fl_failed :: "u16 option"
  fl_deadline :: "nat option"

datatype item = ItemData bytes | ItemHeartbeat bytes nat | ItemShutdown

record queue =
  qu_items :: "item list"
  qu_done :: bool
  qu_shutdown :: bool
  qu_drain :: "nat option"
  qu_pong :: "bytes option"

text \<open>\<open>lk_io\<close> is unset before the transport exists; then it holds the descriptor until shutdown.\<close>

record link =
  lk_id :: id
  lk_server :: bool
  lk_max :: nat
  lk_buffer :: nat
  lk_heartbeat :: "nat option"
  lk_token :: bytes
  lk_events :: events
  lk_flags :: flags
  lk_queue :: queue
  lk_ready :: bool
  lk_buffered :: nat
  lk_inbox :: nat
  lk_consumed :: bool
  lk_drained :: bool
  lk_changed :: bool
  lk_stopped :: bool
  lk_born :: nat
  lk_written :: nat
  lk_received :: nat
  lk_io :: "bool option"
  lk_protocol :: "bytes option option"
  lk_sent :: "nat option list"
  lk_random :: "nat \<Rightarrow> mask_key"
  lk_drawn :: nat

definition link_new :: "id \<Rightarrow> bool \<Rightarrow> config \<Rightarrow> events \<Rightarrow> bytes \<Rightarrow> nat \<Rightarrow> (nat \<Rightarrow> mask_key) \<Rightarrow> link" where
  [ws_eval]: "link_new i server config events token now rnd =
     \<lparr>lk_id = i, lk_server = server, lk_max = cf_message config, lk_buffer = cf_buffer config,
      lk_heartbeat = cf_heartbeat config, lk_token = token, lk_events = events,
      lk_flags = \<lparr>fl_state = Connecting, fl_sent_close = False, fl_received = None, fl_failed = None,
                  fl_deadline = None\<rparr>,
      lk_queue = \<lparr>qu_items = [], qu_done = False, qu_shutdown = False, qu_drain = None, qu_pong = None\<rparr>,
      lk_ready = False, lk_buffered = 0, lk_inbox = 0, lk_consumed = False, lk_drained = False,
      lk_changed = False, lk_stopped = False, lk_born = now, lk_written = 0, lk_received = 0,
      lk_io = None, lk_protocol = None, lk_sent = [], lk_random = rnd, lk_drawn = 0\<rparr>"

abbreviation link_state :: "link \<Rightarrow> state" where
  "link_state l \<equiv> fl_state (lk_flags l)"

text \<open>\<open>Link::buffered\<close> and \<open>Link::protocol\<close>, as the application sees them.\<close>

definition link_buffered :: "link \<Rightarrow> nat" where
  [ws_eval]: "link_buffered l = (if link_state l = Closed then 0 else lk_buffered l)"

definition link_protocol :: "link \<Rightarrow> bytes option" where
  [ws_eval]: "link_protocol l = (case lk_protocol l of None \<Rightarrow> None | Some p \<Rightarrow> p)"

subsection \<open>The outbound queue\<close>

definition fits :: "link \<Rightarrow> nat \<Rightarrow> bool" where
  [ws_eval]: "fits l len \<longleftrightarrow> lk_buffered l = 0 \<or> saturating_add (lk_buffered l) len \<le> lk_buffer l"

text \<open>\<open>(!self.server).then(random)\<close>: only a client masks.\<close>

definition draw_mask :: "link \<Rightarrow> mask_key option \<times> link" where
  [ws_eval]: "draw_mask l =
     (if lk_server l then (None, l)
      else (Some (lk_random l (lk_drawn l)), l\<lparr>lk_drawn := lk_drawn l + 1\<rparr>))"

definition link_frame :: "byte \<Rightarrow> bytes \<Rightarrow> link \<Rightarrow> bytes \<times> link" where
  [ws_eval]: "link_frame op payload l = (let (msk, l) = draw_mask l in (frame_encode op payload msk, l))"

text \<open>\<open>fetch_add\<close> and \<open>fetch_sub\<close> on a \<open>usize\<close> wrap around.\<close>

definition usize_modulus :: nat where [ws_eval]: "usize_modulus = usize_max + 1"

definition wrapping_add :: "nat \<Rightarrow> nat \<Rightarrow> nat" where
  [ws_eval]: "wrapping_add a b = (a + b) mod usize_modulus"

definition wrapping_sub :: "nat \<Rightarrow> nat \<Rightarrow> nat" where
  [ws_eval]: "wrapping_sub a b = (a + (usize_modulus - b mod usize_modulus)) mod usize_modulus"

text \<open>The arms for data of \<open>enqueue\<close>: small neighbours are joined into one buffer.\<close>

definition enqueue_data :: "bytes \<Rightarrow> item list \<Rightarrow> item list" where
  [ws_eval]: "enqueue_data data items =
     (if items = [] then [ItemData data]
      else case last items of
             ItemData prev \<Rightarrow>
               if length data < JOIN \<and> length prev < JOIN then butlast items @ [ItemData (prev @ data)]
               else items @ [ItemData data]
           | _ \<Rightarrow> items @ [ItemData data])"

definition enqueue :: "item \<Rightarrow> link \<Rightarrow> link" where
  [ws_eval]: "enqueue item l =
     (let q = lk_queue l in
      if qu_done q then l
      else case item of
        ItemData data \<Rightarrow>
          if data = [] then l
          else l\<lparr>lk_buffered := wrapping_add (lk_buffered l) (length data),
                 lk_queue := q\<lparr>qu_items := enqueue_data data (qu_items q)\<rparr>, lk_ready := True\<rparr>
      | ItemHeartbeat data sent \<Rightarrow>
          l\<lparr>lk_buffered := wrapping_add (lk_buffered l) (length data),
            lk_queue := q\<lparr>qu_items := qu_items q @ [ItemHeartbeat data sent]\<rparr>, lk_ready := True\<rparr>
      | ItemShutdown \<Rightarrow>
          l\<lparr>lk_queue := q\<lparr>qu_pong := None, qu_shutdown := True, qu_items := qu_items q @ [ItemShutdown]\<rparr>,
            lk_ready := True\<rparr>)"

definition push :: "bytes \<Rightarrow> link \<Rightarrow> link" where
  [ws_eval]: "push data l = (if lk_io l \<noteq> None then enqueue (ItemData data) l else l)"

text \<open>The arms of \<open>push_frame\<close>: a small frame is encoded into the last small buffer.\<close>

definition append_frame :: "byte \<Rightarrow> bytes \<Rightarrow> mask_key option \<Rightarrow> item list \<Rightarrow> item list" where
  [ws_eval]: "append_frame op payload msk items =
     (if items = [] then [ItemData (frame_encode op payload msk)]
      else case last items of
             ItemData prev \<Rightarrow>
               if length prev < JOIN then butlast items @ [ItemData (frame_encode_into prev op payload msk)]
               else items @ [ItemData (frame_encode op payload msk)]
           | _ \<Rightarrow> items @ [ItemData (frame_encode op payload msk)])"

definition push_frame :: "byte \<Rightarrow> bytes \<Rightarrow> link \<Rightarrow> link" where
  [ws_eval]: "push_frame op payload l =
     (let len = encoded_len (length payload) (\<not> lk_server l) in
      if len \<ge> JOIN then (let (data, l) = link_frame op payload l in push data l)
      else if lk_io l = None then l
      else
        let (msk, l) = draw_mask l; q = lk_queue l in
        if qu_done q then l
        else l\<lparr>lk_queue := q\<lparr>qu_items := append_frame op payload msk (qu_items q)\<rparr>,
               lk_buffered := wrapping_add (lk_buffered l) len, lk_ready := True\<rparr>)"

definition push_heartbeat :: "nat \<Rightarrow> link \<Rightarrow> link" where
  [ws_eval]: "push_heartbeat sent l =
     (if lk_io l \<noteq> None then (let (data, l) = link_frame PING (lk_token l) l in enqueue (ItemHeartbeat data sent) l)
      else l)"

definition flush_pong :: "link \<Rightarrow> link" where
  [ws_eval]: "flush_pong l =
     (let f = lk_flags l; pong = qu_pong (lk_queue l); l = l\<lparr>lk_queue := (lk_queue l)\<lparr>qu_pong := None\<rparr>\<rparr> in
      if fl_state f \<noteq> Closed \<and> fl_received f = None \<and> fl_failed f = None
      then (case pong of Some data \<Rightarrow> push_frame PONG data l | None \<Rightarrow> l)
      else l)"

definition push_shutdown :: "link \<Rightarrow> link" where
  [ws_eval]: "push_shutdown l = (if lk_io l \<noteq> None then enqueue ItemShutdown l else l)"

definition stop_writer :: "link \<Rightarrow> link" where
  [ws_eval]: "stop_writer l =
     l\<lparr>lk_queue := (lk_queue l)\<lparr>qu_done := True, qu_items := [], qu_pong := None, qu_shutdown := False\<rparr>,
       lk_ready := True\<rparr>"

definition link_send :: "byte \<Rightarrow> bytes \<Rightarrow> link \<Rightarrow> (bytes + unit) \<times> link" where
  [ws_eval]: "link_send op payload l =
     (let f = lk_flags l in
      if fl_state f \<noteq> Open \<or> fl_sent_close f
      then (Err (if fl_state f = Connecting then str ''not open yet'' else str ''closed''), l)
      else
        let len = encoded_len (length payload) (\<not> lk_server l) in
        if \<not> fits l len
        then (Err (str ''send buffer is full''), l\<lparr>lk_queue := (lk_queue l)\<lparr>qu_drain := Some len\<rparr>\<rparr>)
        else (Ok (), push_frame op payload l))"

subsection \<open>Ending and events\<close>

definition io_shutdown :: "bool option \<Rightarrow> bool option" where
  [ws_eval]: "io_shutdown io = map_option (\<lambda>_. False) io"

definition finish :: "u16 \<Rightarrow> bytes \<Rightarrow> link \<Rightarrow> link" where
  [ws_eval]: "finish code why l =
     (if link_state l = Closed then l
      else
        let l = l\<lparr>lk_flags := (lk_flags l)\<lparr>fl_state := Closed\<rparr>\<rparr>;
            l = l\<lparr>lk_events := snd (events_send (EvClose (lk_id l) code why) (lk_events l))\<rparr>;
            l = stop_writer l
        in l\<lparr>lk_stopped := True, lk_drained := True, lk_io := io_shutdown (lk_io l)\<rparr>)"

definition link_terminate :: "link \<Rightarrow> link" where
  [ws_eval]: "link_terminate l = finish 1006 [] l"

definition emit :: "event \<Rightarrow> link \<Rightarrow> link" where
  [ws_eval]: "emit event l =
     (let (sent, l) =
        (if link_state l = Closed then (True, l)
         else (let (ok, ev) = events_send event (lk_events l) in (ok, l\<lparr>lk_events := ev\<rparr>)))
      in if \<not> sent \<or> ev_closed (lk_events l) then link_terminate l else l)"

definition link_fail :: "bytes \<Rightarrow> link \<Rightarrow> link" where
  [ws_eval]: "link_fail error l = finish 1006 [] (emit (EvError (lk_id l) error) l)"

definition link_close :: "nat \<Rightarrow> u16 \<Rightarrow> bytes \<Rightarrow> link \<Rightarrow> link" where
  [ws_eval]: "link_close now code why l =
     (case link_state l of
        Connecting \<Rightarrow> link_fail (str ''connection closed before it was established'') l
      | Open \<Rightarrow>
          push_frame CLOSE (close_payload code why)
            (l\<lparr>lk_flags := (lk_flags l)\<lparr>fl_sent_close := True, fl_state := Closing,
                                      fl_deadline := Some (now + CLOSE_TIMEOUT)\<rparr>\<rparr>)
      | _ \<Rightarrow> l)\<lparr>lk_changed := True\<rparr>"

text \<open>\<open>end\<close>: the peer's close code, ours after a violation, or 1006.\<close>

definition end_status :: "flags \<Rightarrow> u16 \<times> bytes" where
  [ws_eval]: "end_status f =
     (case (fl_received f, fl_failed f) of
        (Some (code, why), _) \<Rightarrow> (code, why)
      | (None, Some code) \<Rightarrow> (code, [])
      | (None, None) \<Rightarrow> (1006, []))"

definition link_end :: "link \<Rightarrow> link" where
  [ws_eval]: "link_end l = (let (code, why) = end_status (lk_flags l) in finish code why l)"

text \<open>
  \<open>flush_close\<close> waits for the writer only while a close reply is owed and bytes or the shutdown
  are still queued.
\<close>

definition flush_close_pending :: "link \<Rightarrow> bool" where
  [ws_eval]: "flush_close_pending l \<longleftrightarrow>
     (fl_received (lk_flags l) \<noteq> None \<or> fl_failed (lk_flags l) \<noteq> None) \<and> fl_deadline (lk_flags l) \<noteq> None \<and>
     \<not> qu_done (lk_queue l) \<and> (0 < lk_buffered l \<or> qu_shutdown (lk_queue l))"

subsection \<open>Decoded messages\<close>

definition ours :: "bytes \<Rightarrow> link \<Rightarrow> bool" where
  [ws_eval]: "ours data l \<longleftrightarrow> data = lk_token l"

definition deliver :: "nat \<Rightarrow> event \<Rightarrow> link \<Rightarrow> link" where
  [ws_eval]: "deliver n event l =
     (if lk_inbox l \<ge> INBOX_LIMIT \<and> link_state l \<noteq> Open then l
      else emit event (l\<lparr>lk_inbox := wrapping_add (lk_inbox l) (n + EVENT_COST)\<rparr>))"

definition consumed :: "nat \<Rightarrow> link \<Rightarrow> link" where
  [ws_eval]: "consumed n l = l\<lparr>lk_inbox := wrapping_sub (lk_inbox l) (n + EVENT_COST), lk_consumed := True\<rparr>"

definition wait_inbox :: "state \<Rightarrow> link \<Rightarrow> bool" where
  [ws_eval]: "wait_inbox st l \<longleftrightarrow> (if st \<noteq> Open then True else if lk_inbox l < INBOX_LIMIT then True else False)"

definition get_or_insert :: "'a option \<Rightarrow> 'a \<Rightarrow> 'a option" where
  [ws_eval]: "get_or_insert x d = (case x of None \<Rightarrow> Some d | Some y \<Rightarrow> Some y)"

definition violation :: "nat \<Rightarrow> fail \<Rightarrow> link \<Rightarrow> link" where
  [ws_eval]: "violation now fl l =
     (case fl of Fail code why \<Rightarrow>
      let l = emit (EvError (lk_id l) why) l; f = lk_flags l in
      if fl_state f = Closed then l
      else
        let sent_close = fl_sent_close f;
            l = l\<lparr>lk_flags := f\<lparr>fl_failed := Some code, fl_state := Closing,
                               fl_deadline := get_or_insert (fl_deadline f) (now + CLOSE_TIMEOUT),
                               fl_sent_close := True\<rparr>\<rparr>;
            l = (if sent_close then l else push_frame CLOSE (close_payload code []) l)
        in push_shutdown l)"

definition closing :: "nat \<Rightarrow> (u16 \<times> bytes) option \<Rightarrow> link \<Rightarrow> link" where
  [ws_eval]: "closing now status l =
     (let f = lk_flags l in
      if fl_state f = Closed \<or> fl_received f \<noteq> None then l
      else
        let sent_close = fl_sent_close f;
            l = l\<lparr>lk_flags := f\<lparr>fl_received := Some (case status of None \<Rightarrow> (1005, []) | Some s \<Rightarrow> s),
                               fl_state := Closing,
                               fl_deadline := get_or_insert (fl_deadline f) (now + CLOSE_TIMEOUT),
                               fl_sent_close := True\<rparr>\<rparr>;
            echo = (case status of None \<Rightarrow> [] | Some (code, _) \<Rightarrow> close_payload code []);
            l = (if sent_close then l else push_frame CLOSE echo l)
        in if lk_server l then push_shutdown l else l)"

text \<open>The reply to a ping: at once, or remembered while writes are far behind.\<close>

definition reply_pong :: "bytes \<Rightarrow> link \<Rightarrow> link" where
  [ws_eval]: "reply_pong data l =
     (let f = lk_flags l in
      if fl_state f \<noteq> Closed \<and> fl_received f = None \<and> fl_failed f = None then
        if lk_buffered l < PONG_LIMIT
        then push_frame PONG data (l\<lparr>lk_queue := (lk_queue l)\<lparr>qu_pong := None\<rparr>\<rparr>)
        else l\<lparr>lk_queue := (lk_queue l)\<lparr>qu_pong := Some data\<rparr>, lk_ready := True\<rparr>
      else l)"

fun handle :: "nat \<Rightarrow> msg \<Rightarrow> link \<Rightarrow> link" where
  "handle now (Text data) l =
     (if fl_received (lk_flags l) \<noteq> None then l
      else deliver (length data) (EvMessage (lk_id l) data False) l)"
| "handle now (Binary data) l =
     (if fl_received (lk_flags l) \<noteq> None then l
      else deliver (length data) (EvMessage (lk_id l) data True) l)"
| "handle now (Ping data) l = deliver (length data) (EvPing (lk_id l) data) (reply_pong data l)"
| "handle now (Pong data) l =
     (if ours data l then l else deliver (length data) (EvPong (lk_id l) data) l)"
| "handle now (Close status) l = closing now status l"

declare handle.simps [ws_eval]

fun is_close_msg :: "msg \<Rightarrow> bool" where
  "is_close_msg (Close _) = True"
| "is_close_msg _ = False"

function dispatch :: "nat \<Rightarrow> reader \<Rightarrow> link \<Rightarrow> bool \<times> reader \<times> link" where
  "dispatch now r l =
     (case reader_message r of
        (Ok None, r) \<Rightarrow> (True, r, l)
      | (Ok (Some m), r) \<Rightarrow>
          let l = handle now m l in
          if is_close_msg m \<or> link_state l = Closed then (False, r, l) else dispatch now r l
      | (Err e, r) \<Rightarrow> (False, r, violation now e l))"
  by pat_completeness auto
termination
  by (relation "measure (\<lambda>(now, r, l). length (rd_buf r) - rd_pos r)")
    (auto dest!: sym [of "(_, _)"] reader_message_progress)

declare dispatch.simps [simp del]

end
