(* ===== verification/Link_Io.thy ===== *)
theory Link_Io
  imports Link
begin

text \<open>
  The two futures of a connection's task: the reader with its heartbeat
  (\<open>core/src/net/link/read.rs\<close>, \<open>heartbeat.rs\<close>, \<open>heartbeat/clock.rs\<close>) and the writer
  (\<open>write.rs\<close>), with the work budget (\<open>budget.rs\<close>) and the lease (\<open>lease.rs\<close>).

  An \<open>await\<close> is a boundary between two functions: what the awaited future yields (a read or
  write result, a wake-up) is an argument of the second one.
\<close>

subsection \<open>Budget and lease\<close>

definition CHUNK :: nat where [ws_eval]: "CHUNK = 64 * 1024"

text \<open>The new balance, and whether the task yields.\<close>

definition budget_progress :: "nat \<Rightarrow> nat \<Rightarrow> nat \<times> bool" where
  [ws_eval]: "budget_progress budget n =
     (let b = saturating_add budget n in if b \<ge> CHUNK then (0, True) else (b, False))"

definition lease_drop :: "link \<Rightarrow> link" where
  [ws_eval]: "lease_drop l = link_terminate l"

subsection \<open>Heartbeat\<close>

datatype action = ActWait | ActPing | ActDead

definition decide :: "nat \<Rightarrow> nat \<Rightarrow> nat \<Rightarrow> nat option \<Rightarrow> action" where
  [ws_eval]: "decide interval now seen ping =
     (let quiet = (if now - seen \<ge> interval then ActPing else ActWait) in
      case ping of
        Some sent \<Rightarrow>
          if seen \<le> sent then (if now - sent \<ge> interval then ActDead else ActWait) else quiet
      | None \<Rightarrow> quiet)"

record probe =
  pr_queued :: nat
  pr_sent :: nat

record alive =
  al_seen :: nat
  al_ping :: "probe option"

definition alive_new :: "nat \<Rightarrow> alive" where
  [ws_eval]: "alive_new now = \<lparr>al_seen = now, al_ping = None\<rparr>"

text \<open>The transport's clocks count from \<open>born\<close>; \<open>received\<close> is 0 before the first byte.\<close>

definition link_seen :: "link \<Rightarrow> nat \<Rightarrow> nat" where
  [ws_eval]: "link_seen l seen = (if lk_received l = 0 then seen else max seen (lk_born l + (lk_received l - 1)))"

definition link_written :: "link \<Rightarrow> nat" where
  [ws_eval]: "link_written l = lk_born l + lk_written l"

definition heartbeat :: "nat \<Rightarrow> alive \<Rightarrow> link \<Rightarrow> bool \<times> alive \<times> link" where
  [ws_eval]: "heartbeat now alive l =
     (case lk_heartbeat l of None \<Rightarrow> (True, alive, l) | Some interval \<Rightarrow>
      if link_state l \<noteq> Open then (True, alive, l)
      else
        let alive = alive\<lparr>al_seen := link_seen l (al_seen alive)\<rparr>;
            timed_out = (False, alive, link_fail (str ''heartbeat timed out'') l);
            sent = (case al_ping alive of None \<Rightarrow> None | Some p \<Rightarrow> lk_sent l ! pr_sent p);
            ask = (\<lambda>sent.
              (case decide interval now (al_seen alive) sent of
                 ActWait \<Rightarrow> (True, alive, l)
               | ActPing \<Rightarrow>
                   (let cell = length (lk_sent l);
                        l = push_heartbeat cell (l\<lparr>lk_sent := lk_sent l @ [None]\<rparr>)
                    in (True, alive\<lparr>al_ping := Some \<lparr>pr_queued = now, pr_sent = cell\<rparr>\<rparr>, l))
               | ActDead \<Rightarrow> timed_out))
        in case al_ping alive of
             Some p \<Rightarrow>
               (case sent of
                  None \<Rightarrow>
                    if now - max (max (al_seen alive) (link_written l)) (pr_queued p) < interval
                    then (True, alive, l)
                    else timed_out
                | Some _ \<Rightarrow> ask sent)
           | None \<Rightarrow> ask sent)"

text \<open>\<open>Instant::checked_add\<close>: a clock value is a 64-bit count of seconds.\<close>

definition instant_checked_add :: "nat \<Rightarrow> nat \<Rightarrow> nat option" where
  [ws_eval]: "instant_checked_add t d = (if t + d < 9223372036854775808 * 1000000000 then Some (t + d) else None)"

definition heartbeat_deadline :: "alive \<Rightarrow> link \<Rightarrow> nat option" where
  [ws_eval]: "heartbeat_deadline alive l =
     (case lk_heartbeat l of None \<Rightarrow> None | Some interval \<Rightarrow>
      let seen = link_seen l (al_seen alive);
          from = (case al_ping alive of
                    None \<Rightarrow> seen
                  | Some p \<Rightarrow>
                      (case lk_sent l ! pr_sent p of
                         Some sent \<Rightarrow> if seen \<le> sent then sent else seen
                       | None \<Rightarrow> max (max seen (link_written l)) (pr_queued p)))
      in instant_checked_add from interval)"

subsection \<open>The reader\<close>

definition READ_CHUNK :: nat where [ws_eval]: "READ_CHUNK = 16 * 1024"

text \<open>
  \<open>start\<close>: the transport is attached, and the connection opens unless it was aborted before.
  The result tells whether the two loops run.
\<close>

definition link_start :: "bytes option \<Rightarrow> event \<Rightarrow> link \<Rightarrow> bool \<times> link" where
  [ws_eval]: "link_start protocol opened l =
     (let l = l\<lparr>lk_io := get_or_insert (lk_io l) True\<rparr>;
          l = l\<lparr>lk_protocol := get_or_insert (lk_protocol l) protocol\<rparr>
      in if link_state l \<noteq> Connecting then (False, lease_drop (l\<lparr>lk_io := io_shutdown (lk_io l)\<rparr>))
         else
           let l = l\<lparr>lk_flags := (lk_flags l)\<lparr>fl_state := Open\<rparr>\<rparr>;
               (sent, ev) = events_send opened (lk_events l);
               l = l\<lparr>lk_events := ev\<rparr>
           in if \<not> sent \<or> ev_closed ev then (False, lease_drop (link_terminate l)) else (True, l))"

record reading =
  rg_reader :: reader
  rg_ok :: bool
  rg_alive :: alive
  rg_budget :: nat

definition reading_new :: "nat \<Rightarrow> bytes \<Rightarrow> link \<Rightarrow> reading" where
  [ws_eval]: "reading_new now rest l =
     \<lparr>rg_reader = reader_push (reader_new (lk_server l) (lk_max l)) rest, rg_ok = True,
      rg_alive = alive_new now, rg_budget = 0\<rparr>"

text \<open>What the loop waits for: room in the inbox, or a read bounded by a timer.\<close>

datatype awaiting = AwaitInbox | AwaitRead "nat option"

definition read_dispatch :: "nat \<Rightarrow> reading \<Rightarrow> link \<Rightarrow> reading \<times> link" where
  [ws_eval]: "read_dispatch now rg l =
     (if rg_ok rg
      then (let (ok, r, l) = dispatch now (rg_reader rg) l in (rg\<lparr>rg_reader := r, rg_ok := ok\<rparr>, l))
      else (rg, l))"

text \<open>One round of \<open>read_loop\<close> up to its \<open>select!\<close>; \<open>None\<close> leaves the loop.\<close>

definition read_top :: "nat \<Rightarrow> reading \<Rightarrow> link \<Rightarrow> awaiting option \<times> reading \<times> link" where
  [ws_eval]: "read_top now rg l =
     (if ev_closed (lk_events l) then (None, rg, link_terminate l)
      else
        let (rg, l) = read_dispatch now rg l; deadline = fl_deadline (lk_flags l) in
        if link_state l = Closed \<or> (case deadline of None \<Rightarrow> False | Some at \<Rightarrow> at \<le> now) then (None, rg, l)
        else if \<not> wait_inbox (link_state l) l then (Some AwaitInbox, rg, l)
        else (Some (AwaitRead (case deadline of Some at \<Rightarrow> Some at | None \<Rightarrow> heartbeat_deadline (rg_alive rg) l)),
              if rg_ok rg then rg\<lparr>rg_reader := reader_input (rg_reader rg)\<rparr> else rg, l))"

datatype wake =
    WakeStopped
  | WakeHubClosed
  | WakeChanged
  | WakeConsumed
  | WakeRead bytes
  | WakeReadError "bytes option"
  | WakeTimer

text \<open>
  The rest of the round, for the branch of the \<open>select!\<close> that completed.  A failed read carries
  the text of a TLS error when it is one.  The result tells whether the loop goes on.
\<close>

fun read_wake :: "nat \<Rightarrow> wake \<Rightarrow> reading \<Rightarrow> link \<Rightarrow> bool \<times> reading \<times> link" where
  "read_wake now WakeStopped rg l = (False, rg, l)"
| "read_wake now WakeHubClosed rg l = (False, rg, link_terminate l)"
| "read_wake now WakeChanged rg l = (True, rg, l\<lparr>lk_changed := False\<rparr>)"
| "read_wake now WakeConsumed rg l = (True, rg, l\<lparr>lk_consumed := False\<rparr>)"
| "read_wake now (WakeRead bs) rg l =
     (if bs = [] then (False, rg, l)
      else
        let r = rg_reader rg;
            rg = (if rg_ok rg then rg\<lparr>rg_reader := r\<lparr>rd_buf := rd_buf r @ bs\<rparr>\<rparr> else rg)
        in (True, rg\<lparr>rg_alive := (rg_alive rg)\<lparr>al_seen := now\<rparr>,
                     rg_budget := fst (budget_progress (rg_budget rg) (length bs))\<rparr>, l))"
| "read_wake now (WakeReadError tls) rg l =
     (False, rg, case tls of None \<Rightarrow> l | Some e \<Rightarrow> link_fail (str ''TLS error: '' @ e) l)"
| "read_wake now WakeTimer rg l =
     (let (go_on, alive, l) = heartbeat now (rg_alive rg) l in (go_on, rg\<lparr>rg_alive := alive\<rparr>, l))"

declare read_wake.simps [ws_eval]

subsection \<open>The writer\<close>

text \<open>
  \<open>write_pending\<close> between two awaits: its own batch of items, and the data being written with
  its position and heartbeat cell.  \<open>wr_wire\<close> records the bytes the transport has taken.
\<close>

record writer =
  wr_items :: "item list"
  wr_out :: "(bytes \<times> nat \<times> nat option) option"
  wr_budget :: nat
  wr_wire :: bytes

definition writer_new :: writer where
  [ws_eval]: "writer_new = \<lparr>wr_items = [], wr_out = None, wr_budget = 0, wr_wire = []\<rparr>"

text \<open>\<open>progress\<close>: the buffered bytes shrink, and a refused send may now fit.\<close>

definition progress :: "nat \<Rightarrow> link \<Rightarrow> link" where
  [ws_eval]: "progress n l =
     (let q = lk_queue l;
          left = wrapping_sub (lk_buffered l) n;
          drain = (case qu_drain q of None \<Rightarrow> False | Some len \<Rightarrow> left = 0 \<or> saturating_add left len \<le> lk_buffer l);
          l = l\<lparr>lk_buffered := left, lk_drained := True,
                lk_queue := (if drain then q\<lparr>qu_drain := None\<rparr> else q)\<rparr>
      in if drain then emit (EvDrain (lk_id l)) l else l)"

datatype writing = Going | Idle | Returned | Failed

text \<open>The head of the loop of \<open>write_pending\<close>, when the batch is empty.\<close>

definition write_take :: "writer \<Rightarrow> link \<Rightarrow> writing \<times> writer \<times> link" where
  [ws_eval]: "write_take w l =
     (let q = lk_queue l in
      if qu_done q then (Returned, w, l)
      else
        let items = qu_items q; pong = qu_pong q \<noteq> None;
            l = l\<lparr>lk_queue := q\<lparr>qu_items := wr_items w\<rparr>\<rparr>;
            w = w\<lparr>wr_items := items\<rparr>
        in if items = [] \<and> \<not> pong then (Idle, w, l)
           else (Going, w, if pong then flush_pong l else l))"

text \<open>
  Waiting for work: new items were announced, or the transport asked for a flush, which
  succeeds or not.
\<close>

datatype work = WorkReady | WorkFlush bool

fun write_idle :: "work \<Rightarrow> writer \<Rightarrow> link \<Rightarrow> writing \<times> writer \<times> link" where
  "write_idle WorkReady w l = (Going, w, l\<lparr>lk_ready := False\<rparr>)"
| "write_idle (WorkFlush flushed) w l = (if flushed then Going else Failed, w, l)"

declare write_idle.simps [ws_eval]

text \<open>The next item of the batch; \<open>shut\<close> is whether \<open>stream.shutdown()\<close> succeeds.\<close>

definition write_next :: "bool \<Rightarrow> writer \<Rightarrow> link \<Rightarrow> writing \<times> writer \<times> link" where
  [ws_eval]: "write_next shut w l =
     (case wr_items w of
        [] \<Rightarrow> write_take w l
      | ItemData data # items \<Rightarrow> (Going, w\<lparr>wr_items := items, wr_out := Some (data, 0, None)\<rparr>, l)
      | ItemHeartbeat data sent # items \<Rightarrow> (Going, w\<lparr>wr_items := items, wr_out := Some (data, 0, Some sent)\<rparr>, l)
      | ItemShutdown # items \<Rightarrow>
          if shut
          then (Going, w\<lparr>wr_items := items\<rparr>,
                l\<lparr>lk_queue := (lk_queue l)\<lparr>qu_shutdown := False\<rparr>, lk_drained := True\<rparr>)
          else (Failed, w\<lparr>wr_items := items\<rparr>, l))"

datatype io_write = Wrote nat | WriteError

text \<open>
  One round of \<open>write_out\<close>: the transport takes some bytes of the next chunk and flushes them,
  or fails; \<open>flushed\<close> is whether the flush succeeds.
\<close>

definition write_out :: "nat \<Rightarrow> io_write \<Rightarrow> bool \<Rightarrow> writer \<Rightarrow> link \<Rightarrow> writing \<times> writer \<times> link" where
  [ws_eval]: "write_out chunk res flushed w l =
     (case wr_out w of
        None \<Rightarrow> (Going, w, l)
      | Some (data, at, sent) \<Rightarrow>
          if at < length data then
            (case res of
               WriteError \<Rightarrow> (Failed, w, l)
             | Wrote n \<Rightarrow>
                 let n = min n (min (length data) (at + chunk) - at) in
                 if n = 0 then (Failed, w, l)
                 else
                   let w = w\<lparr>wr_wire := wr_wire w @ take n (drop at data)\<rparr> in
                   if \<not> flushed then (Failed, w, l)
                   else
                     let transmitted = link_written l;
                         l = progress n l;
                         l = (case sent of
                                Some cell \<Rightarrow>
                                  if at + n = length data
                                  then l\<lparr>lk_sent := (lk_sent l)[cell := Some transmitted], lk_changed := True\<rparr>
                                  else l
                              | None \<Rightarrow> l)
                     in (Going, w\<lparr>wr_out := Some (data, at + n, sent),
                                   wr_budget := fst (budget_progress (wr_budget w) n)\<rparr>, l))
          else (Going, w\<lparr>wr_out := None\<rparr>, l))"

text \<open>\<open>write_loop\<close> ends the connection when writing failed.\<close>

definition write_loop_end :: "writing \<Rightarrow> link \<Rightarrow> link" where
  [ws_eval]: "write_loop_end r l = (if r = Failed then link_end l else l)"

end
