(* ===== verification/Link_Inv.thy ===== *)
theory Link_Inv
  imports Link_Io Reader_Spec "HOL-Library.Sublist"
begin

text \<open>
  The invariant of a connection and that every operation of it keeps it: the lifecycle only
  moves forward, the outbound bytes are whole frames in order, the byte counter is the size of
  the backlog, and events stop with the single close event.
\<close>

subsection \<open>Joining buffers keeps the byte stream\<close>

fun item_bytes :: "item \<Rightarrow> bytes" where
  "item_bytes (ItemData data) = data"
| "item_bytes (ItemHeartbeat data _) = data"
| "item_bytes ItemShutdown = []"

definition items_bytes :: "item list \<Rightarrow> bytes" where
  "items_bytes items = concat (map item_bytes items)"

lemma items_bytes_simps [simp]:
  "items_bytes [] = []"
  "items_bytes (i # is) = item_bytes i @ items_bytes is"
  "items_bytes (is @ js) = items_bytes is @ items_bytes js"
  by (simp_all add: items_bytes_def)

text \<open>
  What the writer relies on: however a producer arranges its buffers, the bytes leave in the
  order in which they were pushed.
\<close>

locale ordered_outbox =
  fixes put :: "'a \<Rightarrow> item list \<Rightarrow> item list"
    and bytes_of :: "'a \<Rightarrow> bytes"
  assumes put_bytes: "items_bytes (put x items) = items_bytes items @ bytes_of x"
begin

lemma puts_bytes: "items_bytes (fold put xs items) = items_bytes items @ concat (map bytes_of xs)"
  by (induction xs arbitrary: items) (simp_all add: put_bytes)

lemma put_length: "length (items_bytes (put x items)) = length (items_bytes items) + length (bytes_of x)"
  by (simp add: put_bytes)

end

lemma items_bytes_last:
  "items \<noteq> [] \<Longrightarrow> items_bytes items = items_bytes (butlast items) @ item_bytes (last items)"
  by (metis append_butlast_last_id append_Nil2 items_bytes_simps)

interpretation data_outbox: ordered_outbox enqueue_data "\<lambda>data. data"
proof
  fix data items
  show "items_bytes (enqueue_data data items) = items_bytes items @ data"
    by (cases "items = []"; cases "last items")
      (simp_all add: enqueue_data_def items_bytes_last [of items])
qed

interpretation frame_outbox:
  ordered_outbox "\<lambda>(op, payload, msk). append_frame op payload msk" "\<lambda>(op, payload, msk). frame_encode op payload msk"
proof
  fix x :: "byte \<times> bytes \<times> mask_key option" and items
  obtain op payload msk where x: "x = (op, payload, msk)" by (cases x) auto
  show "items_bytes ((case x of (op, payload, msk) \<Rightarrow> append_frame op payload msk) items) =
      items_bytes items @ (case x of (op, payload, msk) \<Rightarrow> frame_encode op payload msk)"
    by (cases "items = []"; cases "last items")
      (simp_all add: x append_frame_def frame_encode_into_append items_bytes_last [of items])
qed

lemma append_frame_bytes [simp]:
  "items_bytes (append_frame op payload msk items) = items_bytes items @ frame_encode op payload msk"
  using frame_outbox.put_bytes [of "(op, payload, msk)"] by simp

lemma enqueue_data_bytes [simp]: "items_bytes (enqueue_data data items) = items_bytes items @ data"
  by (rule data_outbox.put_bytes)

subsection \<open>Counters\<close>

lemma wrapping_add_mod: "wrapping_add (a mod usize_modulus) b = (a + b) mod usize_modulus"
  by (simp add: wrapping_add_def mod_simps)

lemma wrapping_sub_mod:
  assumes "b \<le> a"
  shows "wrapping_sub (a mod usize_modulus) b = (a - b) mod usize_modulus"
proof -
  define m where "m = usize_modulus"
  have "b mod m \<le> m" by (simp add: m_def usize_modulus_def less_imp_le)
  obtain k where k: "b = k * m + b mod m" by (metis div_mult_mod_eq)
  have "(a mod m + (m - b mod m)) mod m = (a + (m - b mod m)) mod m" by (simp add: mod_simps)
  also have "a + (m - b mod m) = (a - b) + (k * m + m)"
    using assms k \<open>b mod m \<le> m\<close> by linarith
  also have "(a - b + (k * m + m)) mod m = (a - b) mod m"
    by (metis mod_mult_self2 mult.commute mult_Suc_right add.commute)
  finally show ?thesis by (simp add: wrapping_sub_def m_def)
qed

lemma wrapping_sub_le: "\<lbrakk>b \<le> a; a \<le> usize_max\<rbrakk> \<Longrightarrow> wrapping_sub a b = a - b"
  using wrapping_sub_mod [of b a] by (simp add: usize_modulus_def)

subsection \<open>Frames on the wire\<close>

type_synonym sent_frame = "byte \<times> bytes \<times> mask_key option"

definition wire_of :: "sent_frame list \<Rightarrow> bytes" where
  "wire_of fs = concat (map (\<lambda>(op, payload, msk). frame_encode op payload msk) fs)"

lemma wire_of_simps [simp]:
  "wire_of [] = []"
  "wire_of (fs @ gs) = wire_of fs @ wire_of gs"
  "wire_of ((op, payload, msk) # fs) = frame_encode op payload msk @ wire_of fs"
  by (simp_all add: wire_of_def)

text \<open>What a peer's reader accepts, apart from its limit on data.\<close>

definition sendable :: "byte \<Rightarrow> bytes \<Rightarrow> bool" where
  "sendable op p \<longleftrightarrow>
     op = TEXT \<and> is_utf8 p \<or> op = BINARY \<or> (op = PING \<or> op = PONG) \<and> length p \<le> 125 \<or>
     op = CLOSE \<and> (p = [] \<or> (\<exists>code why. p = close_payload code why \<and> message_ok 0 (Close (Some (code, why)))))"

lemma sendable_intros:
  "is_utf8 p \<Longrightarrow> sendable TEXT p" "sendable BINARY p"
  "length p \<le> 125 \<Longrightarrow> sendable PING p" "length p \<le> 125 \<Longrightarrow> sendable PONG p" "sendable CLOSE []"
  "message_ok 0 (Close (Some (code, why))) \<Longrightarrow> sendable CLOSE (close_payload code why)"
  by (auto simp: sendable_def)

text \<open>After the close frame only pongs may follow; in particular it is the only one.\<close>

definition closes_once :: "sent_frame list \<Rightarrow> bool" where
  "closes_once fs \<longleftrightarrow> (\<forall>xs ys. map fst fs = xs @ CLOSE # ys \<longrightarrow> set ys \<subseteq> {PONG})"

lemma closes_once_Nil [simp]: "closes_once []"
  by (simp add: closes_once_def)

lemma closes_once_snoc:
  assumes "closes_once fs" "CLOSE \<notin> fst ` set fs \<or> op = PONG"
  shows "closes_once (fs @ [(op, payload, msk)])"
  unfolding closes_once_def
proof (intro allI impI)
  fix xs ys
  assume *: "map fst (fs @ [(op, payload, msk)]) = xs @ CLOSE # ys"
  show "set ys \<subseteq> {PONG}"
  proof (cases ys rule: rev_cases)
    case (snoc zs z)
    with * have "map fst fs = xs @ CLOSE # zs" "z = op" by auto
    moreover from this(1) have "CLOSE \<in> fst ` set fs" by (metis in_set_conv_decomp image_set)
    ultimately show ?thesis using assms snoc by (auto simp: closes_once_def)
  qed simp
qed

text \<open>The bytes accepted but not yet taken by the transport.\<close>

definition out_rest :: "writer \<Rightarrow> bytes" where
  "out_rest w = (case wr_out w of None \<Rightarrow> [] | Some (data, at, _) \<Rightarrow> drop at data)"

definition taken :: "writer \<Rightarrow> bytes" where
  "taken w = out_rest w @ items_bytes (wr_items w)"

definition backlog :: "writer \<Rightarrow> link \<Rightarrow> bytes" where
  "backlog w l = taken w @ items_bytes (qu_items (lk_queue l))"

lemma backlog_frame [simp]:
  "backlog w (lk_io_update f_io l) = backlog w l"
  "backlog w (lk_protocol_update f_protocol l) = backlog w l"
  "backlog w (lk_flags_update f_flags l) = backlog w l"
  "backlog w (lk_events_update f_events l) = backlog w l"
  "backlog w (lk_sent_update f_sent l) = backlog w l"
  "backlog w (lk_ready_update f_ready l) = backlog w l"
  "backlog w (lk_buffered_update f_buffered l) = backlog w l"
  "backlog w (lk_inbox_update f_inbox l) = backlog w l"
  "backlog w (lk_consumed_update f_consumed l) = backlog w l"
  "backlog w (lk_drained_update f_drained l) = backlog w l"
  "backlog w (lk_changed_update f_changed l) = backlog w l"
  "backlog w (lk_stopped_update f_stopped l) = backlog w l"
  "backlog w (lk_drawn_update f_drawn l) = backlog w l"
  by (simp_all add: backlog_def)

subsection \<open>The invariant\<close>

abbreviation event_log :: "link \<Rightarrow> event list" where
  "event_log l \<equiv> map qd_event (ev_tx (lk_events l))"

fun state_rank :: "state \<Rightarrow> nat" where
  "state_rank Connecting = 0"
| "state_rank Open = 1"
| "state_rank Closing = 2"
| "state_rank Closed = 3"

definition flags_ok :: "flags \<Rightarrow> bool option \<Rightarrow> bool" where
  "flags_ok f io \<longleftrightarrow>
     (case fl_state f of
        Connecting \<Rightarrow>
          \<not> fl_sent_close f \<and> fl_received f = None \<and> fl_failed f = None \<and> fl_deadline f = None \<and> io = None
      | Open \<Rightarrow>
          \<not> fl_sent_close f \<and> fl_received f = None \<and> fl_failed f = None \<and> fl_deadline f = None \<and> io \<noteq> None
      | Closing \<Rightarrow> fl_sent_close f \<and> fl_deadline f \<noteq> None \<and> io \<noteq> None
      | Closed \<Rightarrow> io \<noteq> Some True)"

definition queue_ok :: "state \<Rightarrow> bool \<Rightarrow> queue \<Rightarrow> bool" where
  "queue_ok st stopped q \<longleftrightarrow>
     (qu_done q \<longleftrightarrow> st = Closed) \<and> (stopped \<longleftrightarrow> st = Closed) \<and>
     (qu_done q \<longrightarrow> qu_items q = [] \<and> qu_pong q = None \<and> \<not> qu_shutdown q)"

text \<open>What the application was told last is true of the connection.\<close>

definition close_code_ok :: "flags \<Rightarrow> u16 \<Rightarrow> bytes \<Rightarrow> bool" where
  "close_code_ok f code why \<longleftrightarrow> code = 1006 \<and> why = [] \<or> (code, why) = end_status f"

definition events_ok :: "id \<Rightarrow> flags \<Rightarrow> event list \<Rightarrow> bool" where
  "events_ok i f log \<longleftrightarrow>
     (fl_state f \<noteq> Closed \<longrightarrow> list_all (\<lambda>e. \<not> is_close_event e) log) \<and>
     list_all (\<lambda>e. \<not> is_close_event e) (butlast log) \<and>
     (\<forall>j code why. EvClose j code why \<in> set log \<longrightarrow> j = i \<and> close_code_ok f code why)"

definition out_inv :: "writer \<Rightarrow> link \<Rightarrow> sent_frame list \<Rightarrow> bool" where
  "out_inv w l fs \<longleftrightarrow>
     (if qu_done (lk_queue l) then prefix (wr_wire w @ taken w) (wire_of fs)
      else wr_wire w @ backlog w l = wire_of fs \<and>
        lk_buffered l = length (backlog w l) mod usize_modulus \<and>
        (\<forall>len. qu_drain (lk_queue l) = Some len \<longrightarrow>
           backlog w l \<noteq> [] \<and> lk_buffer l < saturating_add (length (backlog w l)) len)) \<and>
     (\<forall>(op, payload, msk) \<in> set fs. (msk = None) = lk_server l \<and> sendable op payload) \<and>
     length (lk_token l) \<le> 125 \<and> (\<forall>d. qu_pong (lk_queue l) = Some d \<longrightarrow> length d \<le> 125) \<and>
     closes_once fs \<and> (CLOSE \<in> fst ` set fs \<longrightarrow> fl_sent_close (lk_flags l))"

definition link_inv :: "writer \<Rightarrow> link \<Rightarrow> sent_frame list \<Rightarrow> bool" where
  "link_inv w l fs \<longleftrightarrow>
     flags_ok (lk_flags l) (lk_io l) \<and> queue_ok (link_state l) (lk_stopped l) (lk_queue l) \<and>
     events_ok (lk_id l) (lk_flags l) (event_log l) \<and> out_inv w l fs \<and>
     (link_state l = Closed \<longrightarrow> ev_permit (lk_events l) = None)"

text \<open>How a connection may change: forward, with its events only growing.\<close>

definition sends :: "events \<Rightarrow> events \<Rightarrow> bool" where
  "sends ev ev' \<longleftrightarrow>
     (\<exists>qs. ev_tx ev' = ev_tx ev @ qs \<and> list_all (\<lambda>q. qd_pending q = None \<and> qd_permit q = ev_permit ev) qs)"

lemma sends_same [simp]: "ev_tx ev' = ev_tx ev \<Longrightarrow> sends ev ev'"
  by (simp add: sends_def)

lemma sends_trans:
  assumes "sends ev ev'" "sends ev' ev''" "ev_permit ev' = ev_permit ev \<or> ev_tx ev'' = ev_tx ev'"
  shows "sends ev ev''"
proof -
  obtain qs rs where "ev_tx ev' = ev_tx ev @ qs" "list_all (\<lambda>q. qd_pending q = None \<and> qd_permit q = ev_permit ev) qs"
    "ev_tx ev'' = ev_tx ev' @ rs" "list_all (\<lambda>q. qd_pending q = None \<and> qd_permit q = ev_permit ev') rs"
    using assms by (auto simp: sends_def)
  with assms(3) show ?thesis unfolding sends_def by (intro exI [of _ "qs @ rs"]) auto
qed

lemma sends_log: "sends ev ev' \<Longrightarrow> prefix (map qd_event (ev_tx ev)) (map qd_event (ev_tx ev'))"
  by (auto simp: sends_def)

lemma events_send_sends [simp]: "sends ev (snd (events_send e ev))"
  by (simp add: sends_def events_send_def events_send_pending_def Let_def)

lemma events_send_permit: "\<not> is_close_event e \<Longrightarrow> ev_permit (snd (events_send e ev)) = ev_permit ev"
  by (simp add: events_send_def events_send_pending_def Let_def)

definition evolves :: "link \<Rightarrow> link \<Rightarrow> bool" where
  "evolves l l' \<longleftrightarrow>
     state_rank (link_state l) \<le> state_rank (link_state l') \<and>
     lk_id l' = lk_id l \<and> lk_server l' = lk_server l \<and> lk_buffer l' = lk_buffer l \<and>
     sends (lk_events l) (lk_events l') \<and>
     (ev_permit (lk_events l') = ev_permit (lk_events l) \<or> ev_permit (lk_events l') = None \<and> link_state l' = Closed) \<and>
     (link_state l = Closed \<longrightarrow> ev_tx (lk_events l') = ev_tx (lk_events l) \<and> lk_flags l' = lk_flags l)"

definition moves :: "link \<Rightarrow> link \<Rightarrow> bool" where
  "moves l l' \<longleftrightarrow>
     (\<forall>w fs. link_inv w l fs \<longrightarrow> evolves l l' \<and> (\<exists>gs. link_inv w l' (fs @ gs)))"

named_theorems moves_intros \<open>operations that keep the invariant\<close>

lemma evolves_refl [simp]: "evolves l l"
  by (simp add: evolves_def)

lemma state_rank_3: "3 \<le> state_rank s \<longleftrightarrow> s = Closed"
  by (cases s) simp_all

lemma evolves_trans: "\<lbrakk>evolves l l'; evolves l' l''\<rbrakk> \<Longrightarrow> evolves l l''"
  using state_rank_3 [of "link_state l'"] state_rank_3 [of "link_state l''"] by (auto simp: evolves_def intro: sends_trans)

lemma evolves_log:
  assumes "evolves l l'"
  shows "prefix (event_log l) (event_log l')" "link_state l = Closed \<Longrightarrow> event_log l' = event_log l"
  using assms by (auto simp: evolves_def sends_log)

lemma movesI:
  assumes "\<And>w fs. link_inv w l fs \<Longrightarrow> evolves l l'"
    and "\<And>w fs. link_inv w l fs \<Longrightarrow> \<exists>gs. link_inv w l' (fs @ gs)"
  shows "moves l l'"
  using assms by (simp add: moves_def)

lemma movesD:
  assumes "moves l l'" "link_inv w l fs"
  obtains gs where "evolves l l'" "link_inv w l' (fs @ gs)"
  using assms by (auto simp: moves_def)

lemma moves_inv: "(\<And>w fs. link_inv w l fs \<Longrightarrow> moves l l') \<Longrightarrow> moves l l'"
  by (simp add: moves_def)

lemma moves_refl [moves_intros, simp]: "moves l l"
  by (rule movesI) (auto intro: exI [of _ "[]"])

lemma moves_trans:
  assumes "moves l l'" "moves l' l''"
  shows "moves l l''"
proof (rule movesI)
  fix w fs
  assume "link_inv w l fs"
  with assms(1) obtain gs where 1: "evolves l l'" "link_inv w l' (fs @ gs)" by (rule movesD)
  from assms(2) 1(2) obtain hs where 2: "evolves l' l''" "link_inv w l'' ((fs @ gs) @ hs)" by (rule movesD)
  from 1 2 show "evolves l l''" by (blast intro: evolves_trans)
  from 2 show "\<exists>gs. link_inv w l'' (fs @ gs)" by (intro exI [of _ "gs @ hs"]) simp
qed

lemma moves_if [moves_intros]: "\<lbrakk>c \<Longrightarrow> moves l a; \<not> c \<Longrightarrow> moves l b\<rbrakk> \<Longrightarrow> moves l (if c then a else b)"
  by simp

subsection \<open>The queue operations\<close>

lemma saturating_add_small: "saturating_add a b < JOIN \<Longrightarrow> saturating_add a b = a + b"
  by (auto simp: saturating_add_def JOIN_def usize_max_def min_def split: if_splits)

lemma length_small_frame:
  assumes "encoded_len (length payload) m < JOIN" "m \<longleftrightarrow> msk \<noteq> None"
  shows "length (frame_encode op payload msk) = encoded_len (length payload) m"
  using assms(2) saturating_add_small [OF assms(1) [unfolded encoded_len_def Let_def]]
  by (cases msk) (simp_all add: frame_encode_shape frame_prefix_def encoded_len_def Let_def)

lemma drawn_same: "l\<lparr>lk_drawn := lk_drawn l\<rparr> = l"
  by (cases l) simp

lemma draw_mask_effect:
  obtains d msk where "draw_mask l = (msk, l\<lparr>lk_drawn := d\<rparr>)" "(msk = None) = lk_server l"
proof (cases "lk_server l")
  case True
  then show ?thesis by (intro that [of None "lk_drawn l"]) (simp_all add: draw_mask_def drawn_same)
next
  case False
  then show ?thesis
    by (intro that [of "Some (lk_random l (lk_drawn l))" "lk_drawn l + 1"]) (simp_all add: draw_mask_def)
qed

lemma frame_encode_not_Nil [simp]: "frame_encode op payload msk \<noteq> []"
  by (simp add: frame_encode_shape frame_prefix_def Let_def)

definition queued_frame :: "link \<Rightarrow> nat \<Rightarrow> item list \<Rightarrow> nat \<Rightarrow> link" where
  "queued_frame l d items n =
     l\<lparr>lk_drawn := d, lk_queue := (lk_queue l)\<lparr>qu_items := items\<rparr>,
       lk_buffered := wrapping_add (lk_buffered l) n, lk_ready := True\<rparr>"

lemma queued_frame_simps [simp]:
  "lk_flags (queued_frame l d items n) = lk_flags l" "lk_io (queued_frame l d items n) = lk_io l"
  "lk_id (queued_frame l d items n) = lk_id l" "lk_server (queued_frame l d items n) = lk_server l"
  "lk_buffer (queued_frame l d items n) = lk_buffer l" "lk_events (queued_frame l d items n) = lk_events l"
  "lk_stopped (queued_frame l d items n) = lk_stopped l" "lk_token (queued_frame l d items n) = lk_token l" "lk_inbox (queued_frame l d items n) = lk_inbox l"
  "lk_queue (queued_frame l d items n) = (lk_queue l)\<lparr>qu_items := items\<rparr>"
  "lk_buffered (queued_frame l d items n) = wrapping_add (lk_buffered l) n"
  by (simp_all add: queued_frame_def)

lemma push_frame_effect:
  obtains (skipped) d where "push_frame op payload l = l\<lparr>lk_drawn := d\<rparr>" "lk_io l = None \<or> qu_done (lk_queue l)"
  | (queued) d msk items where
      "push_frame op payload l = queued_frame l d items (length (frame_encode op payload msk))"
      "(msk = None) = lk_server l" "lk_io l \<noteq> None" "\<not> qu_done (lk_queue l)"
      "items_bytes items = items_bytes (qu_items (lk_queue l)) @ frame_encode op payload msk"
proof -
  obtain d msk where d: "draw_mask l = (msk, l\<lparr>lk_drawn := d\<rparr>)" "(msk = None) = lk_server l"
    by (rule draw_mask_effect)
  let ?len = "encoded_len (length payload) (\<not> lk_server l)"
  show thesis
  proof (cases "lk_io l = None \<or> qu_done (lk_queue l)")
    case True
    have "push_frame op payload l = l\<lparr>lk_drawn := if JOIN \<le> ?len \<or> lk_io l \<noteq> None then d else lk_drawn l\<rparr>"
      using True d(1)
      by (elim disjE) (simp_all add: push_frame_def link_frame_def push_def enqueue_def Let_def drawn_same)
    with True show thesis using skipped by blast
  next
    case False
    then obtain io where io: "lk_io l = Some io" "\<not> qu_done (lk_queue l)" by auto
    show thesis
    proof (cases "JOIN \<le> ?len")
      case True
      with io d(1) show thesis
        by (intro queued [of d "enqueue_data (frame_encode op payload msk) (qu_items (lk_queue l))" msk])
          (simp_all add: push_frame_def link_frame_def push_def enqueue_def Let_def d(2) queued_frame_def)
    next
      case small: False
      then have "length (frame_encode op payload msk) = ?len"
        using d(2) by (intro length_small_frame) auto
      with io small d(1) show thesis
        by (intro queued [of d "append_frame op payload msk (qu_items (lk_queue l))" msk])
          (simp_all add: push_frame_def Let_def d(2) queued_frame_def)
    qed
  qed
qed

lemma saturating_add_mono: "\<lbrakk>m < saturating_add a b; a \<le> a'\<rbrakk> \<Longrightarrow> m < saturating_add a' b"
  by (auto simp: saturating_add_def)

lemma queued_frame_inv:
  assumes inv: "link_inv w l fs" and "\<not> qu_done (lk_queue l)"
    and frame: "items_bytes items = items_bytes (qu_items (lk_queue l)) @ frame_encode op payload msk"
    and "(msk = None) = lk_server l" "sendable op payload"
    and order: "CLOSE \<notin> fst ` set fs \<or> op = PONG" "op = CLOSE \<Longrightarrow> fl_sent_close (lk_flags l)"
  shows "link_inv w (queued_frame l d items (length (frame_encode op payload msk))) (fs @ [(op, payload, msk)])"
proof -
  let ?f = "frame_encode op payload msk" and ?l = "queued_frame l d items (length (frame_encode op payload msk))"
  have b: "backlog w ?l = backlog w l @ ?f" by (simp add: backlog_def frame)
  have "out_inv w ?l (fs @ [(op, payload, msk)])"
    using inv assms(2,4,5) order closes_once_snoc [of fs op payload msk]
    by (auto simp: link_inv_def out_inv_def b wrapping_add_mod intro: saturating_add_mono)
  with inv assms(2) show ?thesis
    by (simp add: link_inv_def queue_ok_def)
qed

lemma link_inv_cong:
  assumes "link_inv w l fs"
    and "lk_flags l' = lk_flags l" "lk_queue l' = lk_queue l" "lk_buffered l' = lk_buffered l" "lk_io l' = lk_io l"
    and "lk_id l' = lk_id l" "lk_server l' = lk_server l" "lk_buffer l' = lk_buffer l"
    and "lk_events l' = lk_events l" "lk_stopped l' = lk_stopped l" "lk_token l' = lk_token l"
  shows "link_inv w l' fs"
proof -
  have "backlog w l' = backlog w l" using assms by (simp add: backlog_def)
  with assms show ?thesis by (simp add: link_inv_def out_inv_def)
qed

lemma moves_cong [moves_intros]:
  assumes "lk_flags l' = lk_flags l" "lk_queue l' = lk_queue l" "lk_buffered l' = lk_buffered l" "lk_io l' = lk_io l"
    and "lk_id l' = lk_id l" "lk_server l' = lk_server l" "lk_buffer l' = lk_buffer l"
    and "lk_events l' = lk_events l" "lk_stopped l' = lk_stopped l" "lk_token l' = lk_token l"
  shows "moves l l'"
proof (rule movesI)
  fix w fs assume "link_inv w l fs"
  with assms have "link_inv w l' (fs @ [])" by (simp add: link_inv_cong [of w l fs l'])
  then show "\<exists>gs. link_inv w l' (fs @ gs)" ..
  from assms show "evolves l l'" by (simp add: evolves_def)
qed

lemma push_frame_inv:
  assumes inv: "link_inv w l fs" and "sendable op payload"
    and order: "CLOSE \<notin> fst ` set fs \<or> op = PONG" "op = CLOSE \<Longrightarrow> fl_sent_close (lk_flags l)"
  shows "\<exists>gs. link_inv w (push_frame op payload l) (fs @ gs)"
proof (cases rule: push_frame_effect [of op payload l])
  case (skipped d)
  with inv have "link_inv w (push_frame op payload l) (fs @ [])" by (simp add: link_inv_cong [of w l fs])
  then show ?thesis ..
next
  case (queued d msk items)
  with queued_frame_inv [OF inv queued(4,5,2) assms(2) order] show ?thesis by auto
qed

lemma push_frame_keeps [simp]:
  "lk_flags (push_frame op payload l) = lk_flags l" "lk_io (push_frame op payload l) = lk_io l"
  "lk_id (push_frame op payload l) = lk_id l" "lk_server (push_frame op payload l) = lk_server l"
  "lk_buffer (push_frame op payload l) = lk_buffer l" "lk_events (push_frame op payload l) = lk_events l"
  "lk_stopped (push_frame op payload l) = lk_stopped l" "lk_inbox (push_frame op payload l) = lk_inbox l"
  "qu_done (lk_queue (push_frame op payload l)) = qu_done (lk_queue l)"
  "qu_drain (lk_queue (push_frame op payload l)) = qu_drain (lk_queue l)"
  by (cases rule: push_frame_effect [of op payload l]; simp)+

lemma push_frame_evolves [simp]: "evolves l (push_frame op payload l)"
  by (simp add: evolves_def)

lemma moves_push_frame [moves_intros]:
  assumes "sendable op payload" "op = PONG \<or> link_state l = Open \<and> op \<noteq> CLOSE"
  shows "moves l (push_frame op payload l)"
proof (rule movesI)
  fix w fs
  assume inv: "link_inv w l fs"
  with assms have "CLOSE \<notin> fst ` set fs \<or> op = PONG"
    by (auto simp: link_inv_def out_inv_def flags_ok_def)
  moreover have "op \<noteq> CLOSE" using assms by (auto simp: opcode_defs)
  ultimately show "\<exists>gs. link_inv w (push_frame op payload l) (fs @ gs)"
    by (intro push_frame_inv [OF inv assms(1)]) auto
qed simp

text \<open>Setting aside, superseding or forgetting a pong, or noting a drain request.\<close>

lemma moves_queue:
  assumes q: "lk_queue l' = q" and "lk_flags l' = lk_flags l" "lk_buffered l' = lk_buffered l" "lk_io l' = lk_io l"
    and "lk_id l' = lk_id l" "lk_server l' = lk_server l" "lk_buffer l' = lk_buffer l"
    and "lk_events l' = lk_events l" "lk_stopped l' = lk_stopped l" "lk_token l' = lk_token l"
    and "qu_done q = qu_done (lk_queue l)" "items_bytes (qu_items q) = items_bytes (qu_items (lk_queue l))"
    and "qu_drain q = qu_drain (lk_queue l)" "qu_pong q = qu_pong (lk_queue l) \<or> qu_pong q = None"
    and "qu_done q \<Longrightarrow> qu_items q = [] \<and> qu_pong q = None \<and> \<not> qu_shutdown q"
  shows "moves l l'"
proof (rule movesI)
  fix w fs
  assume inv: "link_inv w l fs"
  have "backlog w l' = backlog w l" using assms by (simp add: backlog_def)
  with inv assms have "link_inv w l' (fs @ [])" by (auto simp: link_inv_def out_inv_def queue_ok_def)
  then show "\<exists>gs. link_inv w l' (fs @ gs)" ..
  from assms show "evolves l l'" by (simp add: evolves_def)
qed

lemma moves_push_shutdown [moves_intros]: "moves l (push_shutdown l)"
  unfolding push_shutdown_def
  by (rule moves_if) (auto simp: enqueue_def Let_def intro!: moves_queue)

lemma moves_push_heartbeat [moves_intros]:
  assumes "link_state l = Open"
  shows "moves l (push_heartbeat cell l)"
proof (cases "lk_io l = None \<or> qu_done (lk_queue l)")
  case True
  obtain d msk where d: "draw_mask l = (msk, l\<lparr>lk_drawn := d\<rparr>)" by (rule draw_mask_effect)
  from True have "push_heartbeat cell l = l \<or> push_heartbeat cell l = l\<lparr>lk_drawn := d\<rparr>"
    by (auto simp: push_heartbeat_def link_frame_def d enqueue_def Let_def)
  then show ?thesis by (auto intro: moves_cong)
next
  case False
  obtain d msk where d: "draw_mask l = (msk, l\<lparr>lk_drawn := d\<rparr>)" "(msk = None) = lk_server l" by (rule draw_mask_effect)
  let ?f = "frame_encode PING (lk_token l) msk"
  have eq: "push_heartbeat cell l = queued_frame l d (qu_items (lk_queue l) @ [ItemHeartbeat ?f cell]) (length ?f)"
    using False by (auto simp: push_heartbeat_def link_frame_def d enqueue_def Let_def queued_frame_def)
  show ?thesis
  proof (rule movesI)
    fix w fs
    assume inv: "link_inv w l fs"
    with assms have "CLOSE \<notin> fst ` set fs" "sendable PING (lk_token l)"
      by (auto simp: link_inv_def out_inv_def flags_ok_def intro: sendable_intros)
    with queued_frame_inv [OF inv, of "qu_items (lk_queue l) @ [ItemHeartbeat ?f cell]" PING "lk_token l" msk d]
    show "\<exists>gs. link_inv w (push_heartbeat cell l) (fs @ gs)"
      using False d(2) by (auto simp: eq opcode_defs)
  qed (simp add: eq evolves_def)
qed

lemma moves_forget_pong [moves_intros]: "moves l (l\<lparr>lk_queue := (lk_queue l)\<lparr>qu_pong := None\<rparr>\<rparr>)"
proof (rule movesI)
  fix w fs
  assume inv: "link_inv w l fs"
  have "backlog w (l\<lparr>lk_queue := (lk_queue l)\<lparr>qu_pong := None\<rparr>\<rparr>) = backlog w l" by (simp add: backlog_def)
  with inv have "link_inv w (l\<lparr>lk_queue := (lk_queue l)\<lparr>qu_pong := None\<rparr>\<rparr>) (fs @ [])"
    by (simp add: link_inv_def out_inv_def queue_ok_def)
  then show "\<exists>gs. link_inv w (l\<lparr>lk_queue := (lk_queue l)\<lparr>qu_pong := None\<rparr>\<rparr>) (fs @ gs)" ..
qed (simp add: evolves_def)

lemma moves_flush_pong [moves_intros]: "moves l (flush_pong l)"
  unfolding flush_pong_def Let_def
  by (rule moves_inv)
    (auto split: option.splits intro!: moves_forget_pong moves_trans [OF moves_forget_pong moves_push_frame]
      sendable_intros simp: link_inv_def out_inv_def)

lemma moves_link_send [moves_intros]:
  assumes "op \<noteq> CLOSE" "sendable op payload"
  shows "moves l (snd (link_send op payload l))"
proof (cases "link_state l \<noteq> Open \<or> fl_sent_close (lk_flags l)")
  case True
  then show ?thesis by (simp add: link_send_def Let_def)
next
  case False
  let ?len = "encoded_len (length payload) (\<not> lk_server l)" and ?q = "lk_queue l"
  show ?thesis
  proof (cases "fits l ?len")
    case True
    with False assms show ?thesis by (auto simp: link_send_def Let_def intro: moves_push_frame)
  next
    case full: False
    let ?l = "l\<lparr>lk_queue := ?q\<lparr>qu_drain := Some ?len\<rparr>\<rparr>"
    have "moves l ?l"
    proof (rule movesI)
      fix w fs
      assume inv: "link_inv w l fs"
      have b: "backlog w ?l = backlog w l" by (simp add: backlog_def)
      from inv False have "lk_buffered l \<le> length (backlog w l)" "backlog w l = [] \<Longrightarrow> lk_buffered l = 0"
        by (auto simp: link_inv_def out_inv_def queue_ok_def)
      with inv False full have "link_inv w ?l (fs @ [])"
        by (auto simp: link_inv_def out_inv_def queue_ok_def b fits_def not_le intro: saturating_add_mono)
      then show "\<exists>gs. link_inv w ?l (fs @ gs)" ..
    qed (simp add: evolves_def)
    with False full show ?thesis by (simp add: link_send_def Let_def)
  qed
qed

subsection \<open>Events and the end\<close>

lemma events_send_log:
  "ev_tx (snd (events_send e ev)) = ev_tx ev \<or>
   (\<exists>q. qd_event q = e \<and> ev_tx (snd (events_send e ev)) = ev_tx ev @ [q])"
  by (simp add: events_send_def events_send_pending_def Let_def)

lemma events_send_close_permit [simp]: "ev_permit (snd (events_send (EvClose i code why) ev)) = None"
  by (simp add: events_send_def events_send_pending_def Let_def)

lemma events_ok_snoc:
  "\<lbrakk>events_ok i f log; fl_state f \<noteq> Closed; \<not> is_close_event e\<rbrakk> \<Longrightarrow> events_ok i f (log @ [e])"
  by (auto simp: events_ok_def)

lemma events_ok_live: "\<lbrakk>events_ok i f log; fl_state f \<noteq> Closed\<rbrakk> \<Longrightarrow> events_ok i g log"
  by (fastforce simp: events_ok_def list_all_iff dest: in_set_butlastD)

lemma event_log_send:
  obtains "map qd_event (ev_tx (snd (events_send e ev))) = map qd_event (ev_tx ev)"
  | "map qd_event (ev_tx (snd (events_send e ev))) = map qd_event (ev_tx ev) @ [e]"
  using events_send_log [of e ev] by auto

lemma moves_send_event:
  assumes "link_state l \<noteq> Closed" "\<not> is_close_event e"
  shows "moves l (l\<lparr>lk_events := snd (events_send e (lk_events l))\<rparr>)" (is "moves l ?l")
proof (rule movesI)
  fix w fs
  assume inv: "link_inv w l fs"
  have b: "backlog w ?l = backlog w l" by (simp add: backlog_def)
  have "events_ok (lk_id l) (lk_flags l) (event_log ?l)"
    using inv assms by (cases rule: event_log_send [of e "lk_events l"])
      (simp_all add: link_inv_def events_ok_snoc)
  with inv assms(1) have "link_inv w ?l (fs @ [])" by (simp add: link_inv_def out_inv_def b)
  then show "\<exists>gs. link_inv w ?l (fs @ gs)" ..
  show "evolves l ?l"
    using assms by (simp add: evolves_def events_send_permit)
qed

lemma wire_prefix: "out_inv w l fs \<Longrightarrow> prefix (wr_wire w @ taken w) (wire_of fs)"
  by (metis append_assoc backlog_def out_inv_def prefixI)

definition finished :: "u16 \<Rightarrow> bytes \<Rightarrow> link \<Rightarrow> link" where
  "finished code why l =
     l\<lparr>lk_flags := (lk_flags l)\<lparr>fl_state := Closed\<rparr>,
       lk_events := snd (events_send (EvClose (lk_id l) code why) (lk_events l)),
       lk_queue := (lk_queue l)\<lparr>qu_done := True, qu_items := [], qu_pong := None, qu_shutdown := False\<rparr>,
       lk_ready := True, lk_stopped := True, lk_drained := True, lk_io := io_shutdown (lk_io l)\<rparr>"

lemma finish_eq: "finish code why l = (if link_state l = Closed then l else finished code why l)"
  by (simp add: finish_def finished_def stop_writer_def Let_def)

lemma finished_simps [simp]:
  "lk_flags (finished code why l) = (lk_flags l)\<lparr>fl_state := Closed\<rparr>"
  "lk_id (finished code why l) = lk_id l" "lk_server (finished code why l) = lk_server l"
  "lk_buffer (finished code why l) = lk_buffer l" "lk_token (finished code why l) = lk_token l"
  "lk_stopped (finished code why l)"
  "lk_io (finished code why l) = io_shutdown (lk_io l)"
  "lk_queue (finished code why l) =
     (lk_queue l)\<lparr>qu_done := True, qu_items := [], qu_pong := None, qu_shutdown := False\<rparr>"
  "lk_events (finished code why l) = snd (events_send (EvClose (lk_id l) code why) (lk_events l))"
  by (simp_all add: finished_def)

lemma finish_closed [simp]: "link_state (finish code why l) = Closed"
  by (simp add: finish_eq)

lemma end_status_state [simp]: "end_status (f\<lparr>fl_state := s\<rparr>) = end_status f"
  by (simp add: end_status_def)

lemma events_ok_close:
  assumes "events_ok i f log" "fl_state f \<noteq> Closed" "close_code_ok f code why"
  shows "events_ok i (f\<lparr>fl_state := Closed\<rparr>) (log @ [EvClose i code why])" "events_ok i (f\<lparr>fl_state := Closed\<rparr>) log"
  using assms by (auto simp: events_ok_def close_code_ok_def list_all_iff dest: in_set_butlastD)

lemma moves_finish:
  assumes code: "close_code_ok (lk_flags l) code why"
  shows "moves l (finish code why l)"
proof (cases "link_state l = Closed")
  case True
  then show ?thesis by (simp add: finish_eq)
next
  case False
  have log: "events_ok (lk_id l) ((lk_flags l)\<lparr>fl_state := Closed\<rparr>) (event_log (finished code why l))"
    if "link_inv w l fs" for w fs
    using that False events_ok_close [OF _ _ code, of "lk_id l" "event_log l"]
    by (cases rule: event_log_send [of "EvClose (lk_id l) code why" "lk_events l"]) (simp_all add: link_inv_def)
  have "moves l (finished code why l)"
  proof (rule movesI)
    fix w fs
    assume inv: "link_inv w l fs"
    then have "prefix (wr_wire w @ taken w) (wire_of fs)" by (auto simp: link_inv_def intro: wire_prefix)
    with inv log [OF inv] have "link_inv w (finished code why l) (fs @ [])"
      by (auto simp: link_inv_def out_inv_def flags_ok_def queue_ok_def io_shutdown_def)
    then show "\<exists>gs. link_inv w (finished code why l) (fs @ gs)" ..
    show "evolves l (finished code why l)"
      using False by (cases "link_state l") (simp_all add: evolves_def)
  qed
  with False show ?thesis by (simp add: finish_eq)
qed

lemma moves_terminate [moves_intros]: "moves l (link_terminate l)"
  by (simp add: link_terminate_def moves_finish close_code_ok_def)

lemma moves_end [moves_intros]: "moves l (link_end l)"
  by (simp add: link_end_def close_code_ok_def moves_finish split: prod.splits)

lemma emit_closed: "link_state l = Closed \<Longrightarrow> emit e l = l"
  by (simp add: emit_def link_terminate_def finish_def)

lemma emit_live:
  assumes "link_state l \<noteq> Closed"
  shows "emit e l =
    (let l' = l\<lparr>lk_events := snd (events_send e (lk_events l))\<rparr> in
     if fst (events_send e (lk_events l)) \<and> \<not> ev_closed (lk_events l') then l' else link_terminate l')"
  using assms by (simp add: emit_def case_prod_beta Let_def)

lemma moves_emit [moves_intros]:
  assumes "\<not> is_close_event e"
  shows "moves l (emit e l)"
proof (cases "link_state l = Closed")
  case False
  with assms have "moves l (l\<lparr>lk_events := snd (events_send e (lk_events l))\<rparr>)" by (rule moves_send_event [rotated])
  with False show ?thesis by (auto simp: emit_live Let_def intro: moves_trans moves_terminate)
qed (simp add: emit_closed)

lemma moves_fail [moves_intros]: "moves l (link_fail error l)"
  unfolding link_fail_def by (rule moves_trans [OF moves_emit moves_finish]) (simp_all add: close_code_ok_def)

subsection \<open>Closing\<close>

text \<open>The closing handshake starts, or is answered: the flags change, then the frame is queued.\<close>

lemma moves_start_closing:
  assumes live: "link_state l = Open \<or> link_state l = Closing"
    and f: "fl_state f = Closing" "fl_sent_close f" "fl_deadline f \<noteq> None" and "sendable CLOSE payload"
  shows "moves l (if fl_sent_close (lk_flags l) then l\<lparr>lk_flags := f\<rparr> else push_frame CLOSE payload (l\<lparr>lk_flags := f\<rparr>))"
    (is "moves l ?l")
proof (rule movesI)
  fix w fs
  assume inv: "link_inv w l fs"
  let ?m = "l\<lparr>lk_flags := f\<rparr>"
  have b: "backlog w ?m = backlog w l" by (simp add: backlog_def)
  have "link_state l \<noteq> Closed" using live by auto
  moreover have "events_ok (lk_id l) (lk_flags l) (event_log l)" using inv unfolding link_inv_def by blast
  ultimately have "events_ok (lk_id l) f (event_log l)" using events_ok_live by blast
  with inv live f have inv': "link_inv w ?m fs"
    by (auto simp: link_inv_def out_inv_def flags_ok_def queue_ok_def b)
  show "\<exists>gs. link_inv w ?l (fs @ gs)"
  proof (cases "fl_sent_close (lk_flags l)")
    case True
    with inv' show ?thesis by (auto intro: exI [of _ "[]"])
  next
    case False
    with inv have "CLOSE \<notin> fst ` set fs" by (auto simp: link_inv_def out_inv_def)
    then show ?thesis using False f by (auto intro: push_frame_inv [OF inv' assms(5)])
  qed
  show "evolves l ?l" using live f by (auto simp: evolves_def)
qed

lemma moves_close [moves_intros]:
  assumes "message_ok 0 (Close (Some (code, why)))"
  shows "moves l (link_close now code why l)"
proof -
  have flag: "moves m (m\<lparr>lk_changed := True\<rparr>)" for m by (rule moves_cong) simp_all
  show ?thesis
  proof (cases "link_state l")
    case Connecting
    then show ?thesis by (simp add: link_close_def moves_trans [OF moves_fail flag])
  next
    case Open
    let ?f = "(lk_flags l)\<lparr>fl_sent_close := True, fl_state := Closing, fl_deadline := Some (now + CLOSE_TIMEOUT)\<rparr>"
    let ?l = "push_frame CLOSE (close_payload code why) (l\<lparr>lk_flags := ?f\<rparr>)"
    have "moves l ?l"
    proof (rule movesI)
      fix w fs
      assume inv: "link_inv w l fs"
      with Open have "\<not> fl_sent_close (lk_flags l)" by (simp add: link_inv_def flags_ok_def)
      moreover obtain gs where "evolves l (if fl_sent_close (lk_flags l) then l\<lparr>lk_flags := ?f\<rparr> else ?l)"
        "link_inv w (if fl_sent_close (lk_flags l) then l\<lparr>lk_flags := ?f\<rparr> else ?l) (fs @ gs)"
        using Open sendable_intros(6) [OF assms] by (rule_tac movesD [OF moves_start_closing inv, of ?f "close_payload code why"]) simp_all
      ultimately show "evolves l ?l" "\<exists>gs. link_inv w ?l (fs @ gs)" by auto
    qed
    with Open show ?thesis by (simp add: link_close_def moves_trans [OF _ flag])
  qed (simp_all add: link_close_def flag)
qed

end
