(* ===== verification/Link_Run.thy ===== *)
theory Link_Run
  imports Link_Inv
begin

text \<open>
  The reader's and the writer's steps keep the connection's invariant.
\<close>

subsection \<open>Decoded messages\<close>

abbreviation started :: "link \<Rightarrow> bool" where
  "started l \<equiv> link_state l \<noteq> Connecting"

lemma terminate_state [simp]: "link_state (link_terminate l) = Closed"
  by (simp add: link_terminate_def)

lemma emit_state: "link_state (emit e l) = link_state l \<or> link_state (emit e l) = Closed"
  by (cases "link_state l = Closed") (auto simp: emit_closed emit_live Let_def)

lemma emit_started: "started l \<Longrightarrow> started (emit e l)"
  using emit_state [of e l] by auto

lemma push_shutdown_flags [simp]: "lk_flags (push_shutdown l) = lk_flags l"
  by (simp add: push_shutdown_def enqueue_def Let_def)

text \<open>What the reader guarantees of the messages that need an answer, whatever its limit.\<close>

fun control_ok :: "msg \<Rightarrow> bool" where
  "control_ok (Text d) = True"
| "control_ok (Binary d) = True"
| "control_ok m = message_ok 0 m"

lemma assemble_control:
  assumes "assemble_data fin op payload part = (Ok (Some m), part')"
    and "op = PING \<or> op = PONG \<or> op = CLOSE \<Longrightarrow> length payload \<le> 125"
  shows "control_ok m"
proof (cases "op = PING \<or> op = PONG \<or> op = CLOSE")
  case True
  then consider "op = PING" | "op = PONG" | "op = CLOSE" by blast
  then show ?thesis
  proof cases
    case 3
    then have "close payload = Ok m" using assms(1) opcode_order by (auto simp: assemble_data_def split: sum.splits)
    with close_ok [OF this, of 0] assms(2) True show ?thesis by (cases m) auto
  qed (use assms opcode_order in \<open>auto simp: assemble_data_def\<close>)
next
  case False
  then have "(\<exists>d. m = Text d) \<or> (\<exists>d. m = Binary d)"
    using assms(1) unfolding assemble_data_def Let_def
    by (simp split: option.splits if_splits) blast+
  then show ?thesis by auto
qed

lemma frame_step_control:
  assumes "frame_step server mx part b = Step (Some m) part' n"
  shows "control_ok m"
proof -
  obtain fin op len at key where head: "frame_head server mx part b = Ok (Some (fin, op, len, at, key))"
    and a: "assemble_data fin op (mask_with key (take len (drop at b))) part = (Ok (Some m), part')"
    using assms by (auto simp: frame_step_Step)
  have "op = PING \<or> op = PONG \<or> op = CLOSE \<Longrightarrow> CLOSE \<le> op" by (rule is_opcode_control)
  with frame_head_SomeD(5) [OF head] show ?thesis by (intro assemble_control [OF a]) auto
qed

lemma moves_closing:
  assumes "started l" "control_ok (Close status)"
  shows "moves l (closing now status l)" "started (closing now status l)"
proof -
  let ?f = "(lk_flags l)\<lparr>fl_received := Some (case status of None \<Rightarrow> (1005, []) | Some s \<Rightarrow> s), fl_state := Closing,
    fl_deadline := get_or_insert (fl_deadline (lk_flags l)) (now + CLOSE_TIMEOUT), fl_sent_close := True\<rparr>"
  have deadline: "get_or_insert d t \<noteq> None" for d :: "nat option" and t
    by (simp add: get_or_insert_def split: option.splits)
  have echo: "sendable CLOSE (case status of None \<Rightarrow> [] | Some (code, _) \<Rightarrow> close_payload code [])"
    using assms(2) by (auto intro: sendable_intros split: option.splits)
  show "moves l (closing now status l)"
  proof (cases "link_state l = Closed \<or> fl_received (lk_flags l) \<noteq> None")
    case False
    with assms have live: "link_state l = Open \<or> link_state l = Closing" by (cases "link_state l") auto
    show ?thesis
      unfolding closing_def Let_def if_not_P [OF False]
      by (rule moves_if; (rule moves_trans [OF _ moves_push_shutdown])?; rule moves_start_closing [OF live])
        (simp_all add: deadline echo)
  qed (auto simp: closing_def Let_def)
  show "started (closing now status l)"
    using assms by (simp add: closing_def Let_def)
qed

lemma moves_violation:
  assumes "started l" "fail_code_ok e"
  shows "moves l (violation now e l)" "started (violation now e l)"
proof -
  obtain code why where e: "e = Fail code why" by (cases e)
  let ?m = "emit (EvError (lk_id l) why) l"
  have deadline: "get_or_insert d t \<noteq> None" for d :: "nat option" and t
    by (simp add: get_or_insert_def split: option.splits)
  have m: "moves l ?m" by (rule moves_emit) simp
  have st: "started ?m" using assms(1) by (rule emit_started)
  have code: "sendable CLOSE (close_payload code [])"
    using assms(2) e by (auto simp: valid_close_code_def intro!: sendable_intros)
  show "moves l (violation now e l)"
  proof (cases "link_state ?m = Closed")
    case False
    with st have live: "link_state ?m = Open \<or> link_state ?m = Closing" by (cases "link_state ?m") auto
    show ?thesis
      unfolding violation_def Let_def e fail.case if_not_P [OF False]
      by (rule moves_trans [OF moves_trans [OF m moves_start_closing [OF live]] moves_push_shutdown])
        (simp_all add: deadline code)
  qed (auto simp: violation_def Let_def e m)
  show "started (violation now e l)"
    using st by (simp add: violation_def Let_def e)
qed

lemma moves_deliver:
  assumes "\<not> is_close_event e"
  shows "moves l (deliver n e l)"
proof -
  have "moves l (l\<lparr>lk_inbox := x\<rparr>)" for x by (rule moves_cong) simp_all
  then show ?thesis
    unfolding deliver_def by (intro moves_if moves_refl moves_trans [OF _ moves_emit [OF assms]])
qed

lemma deliver_started: "started l \<Longrightarrow> started (deliver n e l)"
  by (simp add: deliver_def emit_started)

lemma moves_reply_pong:
  assumes "length data \<le> 125"
  shows "moves l (reply_pong data l)"
proof (cases "link_state l \<noteq> Closed \<and> fl_received (lk_flags l) = None \<and> fl_failed (lk_flags l) = None")
  case True
  let ?l = "l\<lparr>lk_queue := (lk_queue l)\<lparr>qu_pong := Some data\<rparr>, lk_ready := True\<rparr>"
  have "moves l ?l"
  proof (rule movesI)
    fix w fs
    assume inv: "link_inv w l fs"
    have b: "backlog w ?l = backlog w l" by (simp add: backlog_def)
    with inv True assms have "link_inv w ?l (fs @ [])" by (simp add: link_inv_def out_inv_def queue_ok_def)
    then show "\<exists>gs. link_inv w ?l (fs @ gs)" ..
  qed (simp add: evolves_def)
  with True assms show ?thesis
    by (auto simp: reply_pong_def Let_def intro!: moves_trans [OF moves_forget_pong moves_push_frame] sendable_intros)
qed (auto simp: reply_pong_def Let_def)

lemma reply_pong_keeps [simp]: "lk_flags (reply_pong data l) = lk_flags l" "lk_id (reply_pong data l) = lk_id l"
  by (simp_all add: reply_pong_def Let_def)

lemma moves_handle:
  assumes "started l" "control_ok m"
  shows "moves l (handle now m l)" "started (handle now m l)"
proof -
  show "moves l (handle now m l)"
    using assms
    by (cases m) (auto intro: moves_deliver moves_closing(1) moves_trans [OF moves_reply_pong moves_deliver])
  show "started (handle now m l)"
    using assms by (cases m) (simp_all add: deliver_started moves_closing(2))
qed

lemma reader_message_reads_ok:
  "\<lbrakk>reads server mx part b r; reader_message r = (res, r')\<rbrakk> \<Longrightarrow>
     case res of
       Err e \<Rightarrow> fail_code_ok e
     | Ok None \<Rightarrow> rd_pos r' \<le> length (rd_buf r')
     | Ok (Some m) \<Rightarrow> control_ok m \<and> rd_pos r' \<le> length (rd_buf r')"
proof (induction part b arbitrary: r rule: rd.drain_induct [of server mx])
  case (More part b)
  with reader_message_reads(1) [OF More(2,1)] show ?case by (auto simp: reads_def)
next
  case (Stop part b e)
  with reader_message_reads(2) [OF Stop(2,1)] show ?case by (auto dest: frame_step_fail)
next
  case (Step part b m part' n)
  show ?case
  proof (cases m)
    case None
    with Step reader_message_reads(4) [OF Step(3)] obtain r1 where
      "reader_message r = reader_message r1" "reads server mx part' (drop n b) r1" by blast
    with Step(2) [of r1] Step(4) show ?thesis by simp
  next
    case (Some x)
    with Step(1) reader_message_reads(3) [OF Step(3)] obtain r1 where
      "reader_message r = (Ok (Some x), r1)" "reads server mx part' (drop n b) r1" by blast
    with Step(4) frame_step_control [OF Step(1) [unfolded Some]] show ?thesis by (auto simp: reads_def)
  qed
qed

lemma reader_message_ok:
  assumes "rd_pos r \<le> length (rd_buf r)" "reader_message r = (res, r')"
  shows "case res of
      Err e \<Rightarrow> fail_code_ok e
    | Ok None \<Rightarrow> rd_pos r' \<le> length (rd_buf r')
    | Ok (Some m) \<Rightarrow> control_ok m \<and> rd_pos r' \<le> length (rd_buf r')"
  using assms by (intro reader_message_reads_ok [of "rd_server r" "rd_max r" "rd_partial r" "unread r" r])
    (simp_all add: reads_def)

lemma moves_dispatch:
  "\<lbrakk>started l; rd_pos r \<le> length (rd_buf r); dispatch now r l = (ok, r', l')\<rbrakk>
    \<Longrightarrow> moves l l' \<and> started l' \<and> (ok \<longrightarrow> rd_pos r' \<le> length (rd_buf r'))"
proof (induction now r l arbitrary: ok r' l' rule: dispatch.induct)
  case (1 now r l)
  note IH = 1(1) and st = 1(2) and pos = 1(3) and run = 1(4) [unfolded dispatch.simps [of now r l]]
  obtain res r1 where m: "reader_message r = (res, r1)" by fastforce
  note r = reader_message_ok [OF pos m]
  consider e where "res = Err e" | "res = Ok None" | x where "res = Ok (Some x)" by (cases res) auto
  then show ?case
  proof cases
    case (1 e)
    with r st run m moves_violation [OF st, of e now] show ?thesis by auto
  next
    case 2
    with r st run m show ?thesis by auto
  next
    case (3 x)
    with r have x: "control_ok x" "rd_pos r1 \<le> length (rd_buf r1)" by simp_all
    note h = moves_handle [OF st x(1), of now]
    show ?thesis
    proof (cases "is_close_msg x \<or> link_state (handle now x l) = Closed")
      case True
      with run m 3 x h show ?thesis by (auto simp: Let_def)
    next
      case False
      with run m 3 have "dispatch now r1 (handle now x l) = (ok, r', l')"
        by simp
      from IH [OF m [symmetric] 3 refl refl False h(2) x(2) this] h(1) show ?thesis by (blast intro: moves_trans)
    qed
  qed
qed

subsection \<open>The reader's steps\<close>

lemma moves_heartbeat:
  assumes "heartbeat now alive l = (go_on, alive', l')"
  shows "moves l l' \<and> (started l \<longrightarrow> started l')"
proof -
  have cell: "moves l (l\<lparr>lk_sent := x\<rparr>)" for x by (rule moves_cong) simp_all
  have ping: "moves l (push_heartbeat c (l\<lparr>lk_sent := x\<rparr>))" if "link_state l = Open" for c x
    using that by (intro moves_trans [OF cell moves_push_heartbeat]) simp
  have flags: "lk_flags (push_heartbeat c m) = lk_flags m" for c m
    by (auto simp: push_heartbeat_def link_frame_def draw_mask_def enqueue_def Let_def)
  have failed: "link_state (link_fail e l) = Closed" for e by (simp add: link_fail_def)
  have "l' = l \<or> l' = link_fail (str ''heartbeat timed out'') l \<or>
    link_state l = Open \<and> (\<exists>c x. l' = push_heartbeat c (l\<lparr>lk_sent := x\<rparr>))"
    using assms unfolding heartbeat_def Let_def
    by (auto split: option.splits if_splits action.splits)
  then show ?thesis by (auto simp: flags failed intro: ping moves_fail)
qed

definition reading_ok :: "reading \<Rightarrow> bool" where
  "reading_ok rg \<longleftrightarrow> (rg_ok rg \<longrightarrow> rd_pos (rg_reader rg) \<le> length (rd_buf (rg_reader rg)))"

lemma moves_read_dispatch:
  assumes "started l" "reading_ok rg" "read_dispatch now rg l = (rg', l')"
  shows "moves l l' \<and> started l' \<and> reading_ok rg'"
  using assms moves_dispatch [of l "rg_reader rg" now]
  by (auto simp: read_dispatch_def reading_ok_def split: prod.splits if_splits)

lemma moves_read_top:
  assumes "started l" "reading_ok rg" "read_top now rg l = (res, rg', l')"
  shows "moves l l' \<and> started l' \<and> reading_ok rg'"
proof (cases "ev_closed (lk_events l)")
  case True
  with assms show ?thesis by (auto simp: read_top_def intro: moves_terminate)
next
  case False
  obtain rg1 l1 where d: "read_dispatch now rg l = (rg1, l1)" by fastforce
  with False assms(3) have "l' = l1"
    "rg' = rg1 \<or> rg' = rg1\<lparr>rg_reader := reader_input (rg_reader rg1)\<rparr>"
    by (auto simp: read_top_def Let_def split: if_splits)
  with moves_read_dispatch [OF assms(1,2) d] show ?thesis by (auto simp: reading_ok_def reader_input_def)
qed

lemma moves_read_wake:
  assumes "started l" "reading_ok rg" "read_wake now wake rg l = (go_on, rg', l')"
  shows "moves l l' \<and> started l' \<and> reading_ok rg'"
proof (cases wake)
  case WakeChanged
  moreover have "moves l (l\<lparr>lk_changed := False\<rparr>)" by (rule moves_cong) simp_all
  ultimately show ?thesis using assms by auto
next
  case WakeConsumed
  moreover have "moves l (l\<lparr>lk_consumed := False\<rparr>)" by (rule moves_cong) simp_all
  ultimately show ?thesis using assms by auto
next
  case WakeTimer
  obtain g a m where "heartbeat now (rg_alive rg) l = (g, a, m)" by (metis prod_cases3)
  with moves_heartbeat [OF this] assms WakeTimer show ?thesis by (auto simp: reading_ok_def)
qed (use assms in \<open>auto simp: link_fail_def Let_def reading_ok_def split: if_splits option.splits
    intro: moves_terminate moves_fail [unfolded link_fail_def]\<close>)

lemma moves_link_start:
  assumes "\<not> is_close_event opened" "link_start protocol opened l = (go_on, l')"
  shows "moves l l' \<and> started l'"
proof (cases "link_state l = Connecting")
  case False
  let ?l = "l\<lparr>lk_protocol := get_or_insert (lk_protocol l) protocol, lk_io := io_shutdown (get_or_insert (lk_io l) True)\<rparr>"
  have b: "backlog w ?l = backlog w l" for w by (simp add: backlog_def)
  have io: "io_shutdown (get_or_insert (lk_io l) True) = Some False"
    by (cases "lk_io l") (simp_all add: io_shutdown_def get_or_insert_def)
  have "moves l ?l"
  proof (rule movesI)
    fix w fs
    assume inv: "link_inv w l fs"
    with False io have "link_inv w ?l (fs @ [])"
      by (cases "link_state l") (auto simp: link_inv_def out_inv_def flags_ok_def b)
    then show "\<exists>gs. link_inv w ?l (fs @ gs)" ..
  qed (simp add: evolves_def)
  with False assms(2) show ?thesis
    by (auto simp: link_start_def Let_def lease_drop_def intro: moves_trans [OF _ moves_terminate])
next
  case True
  let ?l = "l\<lparr>lk_io := get_or_insert (lk_io l) True, lk_protocol := get_or_insert (lk_protocol l) protocol,
    lk_flags := (lk_flags l)\<lparr>fl_state := Open\<rparr>\<rparr>"
  let ?s = "?l\<lparr>lk_events := snd (events_send opened (lk_events l))\<rparr>"
  have b: "backlog w ?l = backlog w l" for w by (simp add: backlog_def)
  have "moves l ?l"
  proof (rule movesI)
    fix w fs
    assume inv: "link_inv w l fs"
    with True events_ok_live [of "lk_id l" "lk_flags l" "event_log l"] have "link_inv w ?l (fs @ [])"
      by (auto simp: link_inv_def out_inv_def flags_ok_def queue_ok_def get_or_insert_def b)
    then show "\<exists>gs. link_inv w ?l (fs @ gs)" ..
  qed (simp add: evolves_def True)
  moreover have "moves ?l ?s" using moves_send_event [of ?l opened] assms(1) by simp
  ultimately have s: "moves l ?s" by (rule moves_trans)
  with True assms(2) moves_trans [OF s moves_terminate] moves_trans [OF s moves_trans [OF moves_terminate moves_terminate]]
  show ?thesis by (auto simp: link_start_def Let_def lease_drop_def split: prod.splits if_splits)
qed

subsection \<open>The writer's steps\<close>

lemma link_inv_writer:
  assumes "link_inv w l fs" "taken w' = taken w" "wr_wire w' = wr_wire w"
  shows "link_inv w' l fs"
proof -
  have "backlog w' l = backlog w l" using assms by (simp add: backlog_def)
  with assms show ?thesis by (simp add: link_inv_def out_inv_def)
qed

lemma write_take_inv:
  assumes inv: "link_inv w l fs" and w: "wr_items w = []" "wr_out w = None"
    and "write_take w l = (res, w', l')"
  shows "\<exists>gs. link_inv w' l' (fs @ gs)" "evolves l l'"
proof -
  let ?q = "lk_queue l"
  let ?l = "l\<lparr>lk_queue := ?q\<lparr>qu_items := []\<rparr>\<rparr>" and ?w = "w\<lparr>wr_items := qu_items ?q\<rparr>"
  have t: "taken w = []" "taken ?w = items_bytes (qu_items ?q)" using w by (simp_all add: taken_def out_rest_def)
  have "(\<exists>gs. link_inv w' l' (fs @ gs)) \<and> evolves l l'"
  proof (cases "qu_done ?q")
    case True
    with assms(4) inv show ?thesis by (auto simp: write_take_def intro: exI [of _ "[]"])
  next
    case False
    have "backlog ?w ?l = backlog w l" by (simp add: backlog_def t)
    with inv False have *: "link_inv ?w ?l fs" by (simp add: link_inv_def out_inv_def queue_ok_def)
    obtain gs where gs: "evolves ?l (flush_pong ?l)" "link_inv ?w (flush_pong ?l) (fs @ gs)"
      by (rule movesD [OF moves_flush_pong *])
    have e: "evolves l ?l" by (simp add: evolves_def)
    have "w' = ?w \<and> (l' = ?l \<or> l' = flush_pong ?l)"
      using assms(4) False w(1) by (auto simp: write_take_def Let_def split: if_splits)
    then show ?thesis
      using * gs e evolves_trans [OF e gs(1)] by (auto intro: exI [of _ "[]"])
  qed
  then show "\<exists>gs. link_inv w' l' (fs @ gs)" "evolves l l'" by simp_all
qed

lemma write_next_inv:
  assumes inv: "link_inv w l fs" and w: "wr_out w = None" and step: "write_next shut w l = (res, w', l')"
  shows "(\<exists>gs. link_inv w' l' (fs @ gs)) \<and> evolves l l'"
proof (cases "wr_items w")
  case Nil
  with step have "write_take w l = (res, w', l')" by (simp add: write_next_def)
  from write_take_inv [OF inv Nil w this] show ?thesis by simp
next
  case (Cons i items)
  have same: "taken w' = taken w \<and> wr_wire w' = wr_wire w"
    using step w Cons by (cases i) (auto simp: write_next_def taken_def out_rest_def split: if_splits)
  let ?l = "l\<lparr>lk_queue := (lk_queue l)\<lparr>qu_shutdown := False\<rparr>, lk_drained := True\<rparr>"
  have "backlog w ?l = backlog w l" by (simp add: backlog_def)
  with inv have "link_inv w ?l fs" by (auto simp: link_inv_def out_inv_def queue_ok_def)
  moreover have "l' = l \<or> l' = ?l"
    using step Cons by (cases i) (auto simp: write_next_def split: if_splits)
  ultimately have "link_inv w l' (fs @ []) \<and> evolves l l'" using inv by (auto simp: evolves_def)
  with same show ?thesis by (blast intro: link_inv_writer)
qed

text \<open>\<open>progress\<close> before it emits.\<close>

definition progressed :: "nat \<Rightarrow> link \<Rightarrow> link" where
  "progressed n l =
     (let q = lk_queue l; left = wrapping_sub (lk_buffered l) n;
          drain = (case qu_drain q of None \<Rightarrow> False | Some len \<Rightarrow> left = 0 \<or> saturating_add left len \<le> lk_buffer l)
      in l\<lparr>lk_buffered := left, lk_drained := True, lk_queue := (if drain then q\<lparr>qu_drain := None\<rparr> else q)\<rparr>)"

lemma progress_eq:
  "progress n l = progressed n l \<or> progress n l = emit (EvDrain (lk_id l)) (progressed n l)"
  by (simp add: progress_def progressed_def Let_def)

lemma progressed_inv:
  assumes inv: "link_inv w l fs" and out: "wr_out w = Some (data, at, sent)"
    and n: "at + n \<le> length data"
    and w': "w' = w\<lparr>wr_wire := wr_wire w @ take n (drop at data), wr_out := Some (data, at + n, sent), wr_budget := b\<rparr>"
  shows "link_inv w' (progressed n l) fs"
proof -
  let ?q = "lk_queue l" and ?l = "progressed n l"
  have split: "drop at data = take n (drop at data) @ drop (at + n) data"
    by (metis add.commute append_take_drop_id drop_drop)
  have rest: "out_rest w = take n (drop at data) @ out_rest w'"
    using split by (simp add: out_rest_def out w')
  then have t: "taken w = take n (drop at data) @ taken w'" by (simp add: taken_def w')
  have keep: "qu_items (lk_queue ?l) = qu_items ?q" "qu_done (lk_queue ?l) = qu_done ?q"
    "qu_pong (lk_queue ?l) = qu_pong ?q" "qu_shutdown (lk_queue ?l) = qu_shutdown ?q"
    "lk_flags ?l = lk_flags l" "lk_io ?l = lk_io l" "lk_id ?l = lk_id l" "lk_server ?l = lk_server l"
    "lk_events ?l = lk_events l" "lk_stopped ?l = lk_stopped l" "lk_buffer ?l = lk_buffer l"
    "lk_buffered ?l = wrapping_sub (lk_buffered l) n" "lk_token ?l = lk_token l"
    by (simp_all add: progressed_def Let_def)
  have bl: "backlog w l = take n (drop at data) @ backlog w' ?l" by (simp add: backlog_def t keep)
  have out_part: "out_inv w' ?l fs"
  proof (cases "qu_done ?q")
    case True
    with inv show ?thesis by (simp add: link_inv_def out_inv_def keep t w')
  next
    case False
    let ?L = "length (backlog w' ?l)"
    have len: "length (backlog w l) = n + ?L" using n by (simp add: bl)
    with inv False have left: "wrapping_sub (lk_buffered l) n = ?L mod usize_modulus"
      using wrapping_sub_mod [of n "n + ?L"] by (simp add: link_inv_def out_inv_def)
    have drain: "backlog w' ?l \<noteq> [] \<and> lk_buffer l < saturating_add ?L k" if d: "qu_drain (lk_queue ?l) = Some k" for k
    proof -
      from d have "qu_drain ?q = Some k" "wrapping_sub (lk_buffered l) n \<noteq> 0"
        "lk_buffer l < saturating_add (wrapping_sub (lk_buffered l) n) k"
        by (auto simp: progressed_def Let_def split: if_splits option.splits)
      then show ?thesis unfolding left by (auto intro: saturating_add_mono)
    qed
    have "wr_wire w' @ backlog w' ?l = wire_of fs"
      using inv False by (simp add: link_inv_def out_inv_def bl w')
    moreover have "lk_buffered ?l = ?L mod usize_modulus" using keep(12) left by simp
    ultimately show ?thesis using inv False drain by (simp add: link_inv_def out_inv_def keep(2,3,5,8,11,13))
  qed
  with inv show ?thesis by (simp add: link_inv_def keep queue_ok_def)
qed

lemma progressed_evolves: "evolves l (progressed n l)"
  by (simp add: evolves_def progressed_def Let_def)

lemma write_out_inv:
  assumes inv: "link_inv w l fs" and step: "write_out chunk res flushed w l = (r, w', l')"
  shows "\<exists>gs. r \<noteq> Failed \<longrightarrow> link_inv w' l' (fs @ gs) \<and> evolves l l'"
proof (cases "wr_out w")
  case None
  with inv step show ?thesis by (auto simp: write_out_def intro: exI [of _ "[]"])
next
  case (Some x)
  then obtain data at sent where out: "wr_out w = Some (data, at, sent)" by (cases x) auto
  show ?thesis
  proof (cases "at < length data")
    case False
    with step out have "w' = w\<lparr>wr_out := None\<rparr>" "l' = l" by (simp_all add: write_out_def)
    moreover have "taken (w\<lparr>wr_out := None\<rparr>) = taken w" using False out by (simp add: taken_def out_rest_def)
    ultimately have "link_inv w' l' (fs @ []) \<and> evolves l l'"
      using inv link_inv_writer [of w l fs "w\<lparr>wr_out := None\<rparr>"] by simp
    then show ?thesis by blast
  next
    case True
    define n where "n = (case res of WriteError \<Rightarrow> 0 | Wrote k \<Rightarrow> min k (min (length data) (at + chunk) - at))"
    show ?thesis
    proof (cases "n = 0 \<or> \<not> flushed")
      case failed: True
      with step out True have "r = Failed"
        by (auto simp: write_out_def Let_def n_def split: io_write.splits if_splits)
      then show ?thesis by simp
    next
      case False
      define b where "b = fst (budget_progress (wr_budget w) n)"
      define m where "m = progress n l"
      have w': "w' = w\<lparr>wr_wire := wr_wire w @ take n (drop at data), wr_out := Some (data, at + n, sent), wr_budget := b\<rparr>"
        and l': "l' = m \<or> (\<exists>c x. l' = m\<lparr>lk_sent := c, lk_changed := x\<rparr>)"
        using step out True False
        by (auto simp: write_out_def Let_def n_def b_def m_def split: io_write.splits if_splits option.splits)
      have n: "at + n \<le> length data" using True by (auto simp: n_def split: io_write.splits)
      note p = progressed_inv [OF inv out n w']
      obtain gs where "evolves (progressed n l) m" "link_inv w' m (fs @ gs)"
        using progress_eq [of n l] movesD [OF moves_refl p] movesD [OF moves_emit [of "EvDrain (lk_id l)"] p]
        unfolding m_def by (metis is_close_event.simps(9))
      moreover have "moves m l'" using l' by (auto intro: moves_cong)
      ultimately obtain hs where "evolves m l'" "link_inv w' l' ((fs @ gs) @ hs)" "evolves (progressed n l) m"
        by (metis movesD)
      then show ?thesis
        using progressed_evolves evolves_trans by (intro exI [of _ "gs @ hs"]) (metis append_assoc)
    qed
  qed
qed

end
