(* ===== verification/Conn_Run.thy ===== *)
theory Conn_Run
  imports Link_Run
begin

text \<open>
  A whole connection as a transition system: calls of the application and the hub, the reader
  future and the writer future, interleaved in every order of the steps below.  A step is the code
  between two awaits, or one call, taken as atomic: in the source \<open>finish\<close> stops the writer after it
  has released the lock of the flags, and \<open>start\<close> attaches the transport before it takes that lock,
  so between these sections another thread may run, which the steps do not show.  The
  invariant holds in every reachable state, which gives the promises of the connection as theorems.
\<close>

subsection \<open>The transition system\<close>

datatype phase = Unstarted | Looping | Awaiting awaiting | Leaving | Draining | Ended

record conn =
  cn_link :: link
  cn_phase :: phase
  cn_reading :: reading
  cn_writer :: writer
  cn_writing :: writing

text \<open>A future that ends drops its locals; the bytes on the wire stay.\<close>

definition writer_drop :: "writer \<Rightarrow> writer" where
  [ws_eval]: "writer_drop w = w\<lparr>wr_items := [], wr_out := None\<rparr>"

text \<open>
  The result of a step of \<open>write_pending\<close> in \<open>write_loop\<close>: a failure ends the connection, and
  the future goes away with its batch.
\<close>

definition after_write :: "writing \<times> writer \<times> link \<Rightarrow> conn \<Rightarrow> conn" where
  [ws_eval]: "after_write r c =
     (case r of (res, w, l) \<Rightarrow>
        c\<lparr>cn_writing := res, cn_link := write_loop_end res l,
          cn_writer := (if res = Failed \<or> res = Returned then writer_drop w else w)\<rparr>)"

text \<open>What may complete at the \<open>select!\<close> the reader waits in; one read is bounded.\<close>

fun wakes :: "awaiting \<Rightarrow> wake \<Rightarrow> bool" where
  "wakes _ WakeStopped = True"
| "wakes _ WakeHubClosed = True"
| "wakes _ WakeChanged = True"
| "wakes AwaitInbox WakeConsumed = True"
| "wakes (AwaitRead _) (WakeRead bs) = (length bs \<le> READ_CHUNK)"
| "wakes (AwaitRead _) (WakeReadError _) = True"
| "wakes (AwaitRead _) WakeTimer = True"
| "wakes _ _ = False"

inductive conn_step :: "conn \<Rightarrow> conn \<Rightarrow> bool" where
  app_send: "\<lbrakk>op = TEXT \<and> is_utf8 data \<or> op = BINARY \<or> op = PING \<and> length data \<le> 125\<rbrakk> \<Longrightarrow>
    conn_step c (c\<lparr>cn_link := snd (link_send op data (cn_link c))\<rparr>)"
| app_close: "\<lbrakk>valid_close_code code; is_utf8 why; length why \<le> 123\<rbrakk> \<Longrightarrow>
    conn_step c (c\<lparr>cn_link := link_close now code why (cn_link c)\<rparr>)"
| app_terminate: "conn_step c (c\<lparr>cn_link := link_terminate (cn_link c)\<rparr>)"
| app_consumed: "conn_step c (c\<lparr>cn_link := consumed n (cn_link c)\<rparr>)"
| connect_failed: "conn_step c (c\<lparr>cn_link := link_fail e (cn_link c)\<rparr>)"
| hub_closed: "conn_step c (c\<lparr>cn_link := (cn_link c)\<lparr>lk_events := events_close (lk_events (cn_link c))\<rparr>\<rparr>)"
| hub_dropped: "conn_step c (c\<lparr>cn_link := (cn_link c)\<lparr>lk_events := (lk_events (cn_link c))\<lparr>ev_rx := False\<rparr>\<rparr>\<rparr>)"
| transport_clock: "conn_step c (c\<lparr>cn_link := (cn_link c)\<lparr>lk_written := t, lk_received := t'\<rparr>\<rparr>)"
| start: "\<lbrakk>cn_phase c = Unstarted; \<not> is_close_event opened; link_start protocol opened (cn_link c) = (go_on, l)\<rbrakk> \<Longrightarrow>
    conn_step c (c\<lparr>cn_link := l, cn_phase := (if go_on then Looping else Ended),
                   cn_reading := reading_new now rest l, cn_writing := (if go_on then Going else Returned)\<rparr>)"
| reader_top: "\<lbrakk>cn_phase c = Looping; read_top now (cn_reading c) (cn_link c) = (res, rg, l)\<rbrakk> \<Longrightarrow>
    conn_step c (c\<lparr>cn_link := l, cn_reading := rg,
                   cn_phase := (case res of None \<Rightarrow> Leaving | Some a \<Rightarrow> Awaiting a)\<rparr>)"
| reader_wake: "\<lbrakk>cn_phase c = Awaiting a; wakes a wake; read_wake now wake (cn_reading c) (cn_link c) = (go_on, rg, l)\<rbrakk> \<Longrightarrow>
    conn_step c (c\<lparr>cn_link := l, cn_reading := rg, cn_phase := (if go_on then Looping else Leaving)\<rparr>)"
| reader_leave: "\<lbrakk>cn_phase c = Leaving; read_dispatch now (cn_reading c) (cn_link c) = (rg, l)\<rbrakk> \<Longrightarrow>
    conn_step c (c\<lparr>cn_link := l, cn_reading := rg, cn_phase := Draining\<rparr>)"
| reader_end: "\<lbrakk>cn_phase c = Draining;
      \<not> flush_close_pending (cn_link c) \<or> lk_stopped (cn_link c) \<or>
      (\<exists>at. fl_deadline (lk_flags (cn_link c)) = Some at \<and> at \<le> now)\<rbrakk> \<Longrightarrow>
    conn_step c (c\<lparr>cn_link := link_end (cn_link c), cn_phase := Ended\<rparr>)"
| writer_next: "\<lbrakk>cn_phase c \<noteq> Unstarted; cn_writing c = Going; wr_out (cn_writer c) = None\<rbrakk> \<Longrightarrow>
    conn_step c (after_write (write_next shut (cn_writer c) (cn_link c)) c)"
| writer_out: "\<lbrakk>cn_phase c \<noteq> Unstarted; cn_writing c = Going; wr_out (cn_writer c) \<noteq> None\<rbrakk> \<Longrightarrow>
    conn_step c (after_write (write_out chunk res flushed (cn_writer c) (cn_link c)) c)"
| writer_idle: "\<lbrakk>cn_phase c \<noteq> Unstarted; cn_writing c = Idle; work = WorkReady \<Longrightarrow> lk_ready (cn_link c)\<rbrakk> \<Longrightarrow>
    conn_step c (after_write (write_idle work (cn_writer c) (cn_link c)) c)"
| writer_stopped: "\<lbrakk>cn_phase c \<noteq> Unstarted; lk_stopped (cn_link c)\<rbrakk> \<Longrightarrow>
    conn_step c (c\<lparr>cn_writing := Returned, cn_writer := writer_drop (cn_writer c)\<rparr>)"
| writer_hub_closed: "\<lbrakk>cn_phase c \<noteq> Unstarted; ev_closed (lk_events (cn_link c))\<rbrakk> \<Longrightarrow>
    conn_step c (c\<lparr>cn_writing := Returned, cn_writer := writer_drop (cn_writer c),
                   cn_link := link_terminate (cn_link c)\<rparr>)"
| lease: "conn_step c (c\<lparr>cn_link := lease_drop (cn_link c)\<rparr>)"

abbreviation conn_steps :: "conn \<Rightarrow> conn \<Rightarrow> bool" where
  "conn_steps \<equiv> conn_step\<^sup>*\<^sup>*"

text \<open>A connection as \<open>Link::new\<close> makes it, before any close event was sent.\<close>

definition conn_new :: "id \<Rightarrow> bool \<Rightarrow> config \<Rightarrow> events \<Rightarrow> bytes \<Rightarrow> nat \<Rightarrow> (nat \<Rightarrow> mask_key) \<Rightarrow> conn" where
  [ws_eval]: "conn_new i server config ev token now rnd =
     (let l = link_new i server config ev token now rnd in
      \<lparr>cn_link = l, cn_phase = Unstarted, cn_reading = reading_new now [] l, cn_writer = writer_new, cn_writing = Going\<rparr>)"

subsection \<open>The invariant\<close>

definition conn_inv :: "conn \<Rightarrow> sent_frame list \<Rightarrow> bool" where
  "conn_inv c fs \<longleftrightarrow> link_inv (cn_writer c) (cn_link c) fs \<and>
     (cn_phase c \<noteq> Unstarted \<longrightarrow> started (cn_link c)) \<and> reading_ok (cn_reading c)"

lemma conn_inv_link:
  assumes "conn_inv c fs" "moves (cn_link c) l" "started (cn_link c) \<Longrightarrow> started l"
    and "cn_link c' = l" "cn_writer c' = cn_writer c" "cn_phase c' = cn_phase c" "cn_reading c' = cn_reading c"
  shows "\<exists>gs. conn_inv c' (fs @ gs) \<and> evolves (cn_link c) (cn_link c')"
proof -
  from assms(1) have "link_inv (cn_writer c) (cn_link c) fs" by (simp add: conn_inv_def)
  from assms(2) this obtain gs where "evolves (cn_link c) l" "link_inv (cn_writer c) l (fs @ gs)" by (rule movesD)
  with assms show ?thesis by (auto simp: conn_inv_def)
qed

lemma conn_inv_reader:
  assumes "conn_inv c fs" "moves (cn_link c) l \<and> started l \<and> reading_ok rg"
    and "cn_link c' = l" "cn_writer c' = cn_writer c" "cn_reading c' = rg"
  shows "\<exists>gs. conn_inv c' (fs @ gs) \<and> evolves (cn_link c) (cn_link c')"
proof -
  from assms(1) have "link_inv (cn_writer c) (cn_link c) fs" by (simp add: conn_inv_def)
  with assms(2) obtain gs where "evolves (cn_link c) l" "link_inv (cn_writer c) l (fs @ gs)" by (blast elim: movesD)
  with assms show ?thesis by (auto simp: conn_inv_def)
qed

lemma evolves_started: "\<lbrakk>evolves l l'; started l\<rbrakk> \<Longrightarrow> started l'"
  by (cases "link_state l"; cases "link_state l'") (auto simp: evolves_def)

lemma link_inv_drop:
  assumes "link_inv w l fs" "link_state l = Closed" "prefix (wr_wire w') (wire_of fs)"
  shows "link_inv (writer_drop w') l fs"
proof -
  have "taken (writer_drop w') = []" "wr_wire (writer_drop w') = wr_wire w'"
    by (simp_all add: writer_drop_def taken_def out_rest_def)
  with assms show ?thesis by (simp add: link_inv_def out_inv_def queue_ok_def)
qed

lemma wire_prefix_inv: "link_inv w l fs \<Longrightarrow> prefix (wr_wire w) (wire_of fs)"
  using wire_prefix [of w l fs] append_prefixD by (auto simp: link_inv_def)

text \<open>A failed step of the writer has changed nothing but the wire, and that within the frames.\<close>

lemma write_failed:
  assumes inv: "link_inv w l fs"
  shows "write_next shut w l = (Failed, w', l') \<Longrightarrow> l' = l \<and> prefix (wr_wire w') (wire_of fs)"
    and "write_out chunk res flushed w l = (Failed, w', l') \<Longrightarrow> l' = l \<and> prefix (wr_wire w') (wire_of fs)"
    and "write_idle work w l = (Failed, w', l') \<Longrightarrow> l' = l \<and> prefix (wr_wire w') (wire_of fs)"
proof -
  note p = wire_prefix_inv [OF inv]
  show "l' = l \<and> prefix (wr_wire w') (wire_of fs)" if "write_next shut w l = (Failed, w', l')"
    using that p by (auto simp: write_next_def write_take_def Let_def split: list.splits item.splits if_splits)
  show "l' = l \<and> prefix (wr_wire w') (wire_of fs)" if "write_idle work w l = (Failed, w', l')"
    using that p by (cases work) (auto split: if_splits)
  show "l' = l \<and> prefix (wr_wire w') (wire_of fs)" if failed: "write_out chunk res flushed w l = (Failed, w', l')"
  proof (cases "wr_out w")
    case None
    with failed show ?thesis by (simp add: write_out_def)
  next
    case (Some x)
    obtain data at sent where x: "x = (data, at, sent)" by (cases x) auto
    have "prefix (wr_wire w @ take n (drop at data)) (wr_wire w @ taken w)" for n
      unfolding taken_def out_rest_def Some x by (simp add: prefix_prefix take_is_prefix)
    with wire_prefix [of w l fs] inv have *: "prefix (wr_wire w @ take n (drop at data)) (wire_of fs)" for n
      unfolding link_inv_def by (metis prefix_order.trans)
    have "l' = l \<and> (w' = w \<or> (\<exists>n. w' = w\<lparr>wr_wire := wr_wire w @ take n (drop at data)\<rparr>))"
      using failed Some x
      by (cases "at < length data"; cases res; cases flushed) (auto simp: write_out_def Let_def split: if_splits)
    with p * show ?thesis by auto
  qed
qed

lemma after_write_inv:
  assumes inv: "conn_inv c fs" "cn_phase c \<noteq> Unstarted"
    and ok: "res \<noteq> Failed \<Longrightarrow> \<exists>gs. link_inv w l (fs @ gs) \<and> evolves (cn_link c) l"
    and failed: "res = Failed \<Longrightarrow> l = cn_link c \<and> prefix (wr_wire w) (wire_of fs)"
    and returned: "res = Returned \<Longrightarrow> link_state l = Closed"
  shows "\<exists>gs. conn_inv (after_write (res, w, l) c) (fs @ gs) \<and>
    evolves (cn_link c) (cn_link (after_write (res, w, l) c))"
proof -
  have link: "link_inv (cn_writer c) (cn_link c) fs" "started (cn_link c)" "reading_ok (cn_reading c)"
    using inv by (simp_all add: conn_inv_def)
  consider "res = Failed" | "res = Returned" | "res = Going \<or> res = Idle" by (cases res) auto
  then show ?thesis
  proof cases
    case 1
    with failed have l: "l = cn_link c" and p: "prefix (wr_wire w) (wire_of fs)" by simp_all
    obtain gs where e: "evolves l (link_end l)" "link_inv (cn_writer c) (link_end l) (fs @ gs)"
      using link l by (auto elim: movesD [OF moves_end])
    moreover have "link_state (link_end l) = Closed" by (simp add: link_end_def split: prod.splits)
    moreover have "prefix (wr_wire w) (wire_of (fs @ gs))" using p by (simp add: prefix_append)
    ultimately show ?thesis
      using 1 l link link_inv_drop [OF e(2)]
      by (intro exI [of _ gs]) (simp add: after_write_def write_loop_end_def conn_inv_def)
  next
    case 2
    with ok obtain gs where e: "link_inv w l (fs @ gs)" "evolves (cn_link c) l" by auto
    from link_inv_drop [OF e(1) returned [OF 2] wire_prefix_inv [OF e(1)]] 2 e link show ?thesis
      by (intro exI [of _ gs]) (simp add: after_write_def write_loop_end_def conn_inv_def evolves_started)
  next
    case 3
    with ok obtain gs where e: "link_inv w l (fs @ gs)" "evolves (cn_link c) l" by auto
    with 3 link show ?thesis
      by (intro exI [of _ gs]) (auto simp: after_write_def write_loop_end_def conn_inv_def evolves_started)
  qed
qed

lemma consumed_moves: "moves l (consumed n l)"
  unfolding consumed_def by (rule moves_cong) simp_all

lemma link_send_flags: "lk_flags (snd (link_send op data l)) = lk_flags l"
  by (simp add: link_send_def Let_def)

lemma link_close_started: "started l \<Longrightarrow> started (link_close now code why l)"
  by (cases "link_state l") (simp_all add: link_close_def)

lemma events_moves:
  assumes "ev_tx ev = ev_tx (lk_events l)" "ev_permit ev = ev_permit (lk_events l)"
  shows "moves l (l\<lparr>lk_events := ev\<rparr>)"
proof (rule movesI)
  fix w fs
  assume "link_inv w l fs"
  with assms have "link_inv w (l\<lparr>lk_events := ev\<rparr>) (fs @ [])" by (simp add: link_inv_def out_inv_def)
  then show "\<exists>gs. link_inv w (l\<lparr>lk_events := ev\<rparr>) (fs @ gs)" ..
qed (simp add: evolves_def assms)

lemma write_next_returned: "\<lbrakk>write_next shut w l = (Returned, w', l'); link_inv w l fs\<rbrakk> \<Longrightarrow> link_state l' = Closed"
  by (auto simp: write_next_def write_take_def Let_def link_inv_def queue_ok_def split: list.splits item.splits if_splits)

lemma write_out_returned: "write_out chunk res flushed w l \<noteq> (Returned, w', l')"
  by (auto simp: write_out_def Let_def split: option.splits prod.splits io_write.splits)

lemma write_idle_inv:
  assumes "link_inv w l fs" "write_idle work w l = (res, w', l')"
  shows "(\<exists>gs. link_inv w' l' (fs @ gs)) \<and> evolves l l' \<and> res \<noteq> Returned"
proof (cases work)
  case WorkReady
  moreover have "moves l (l\<lparr>lk_ready := False\<rparr>)" by (rule moves_cong) simp_all
  ultimately show ?thesis using assms by (auto elim!: movesD)
next
  case (WorkFlush ok)
  with assms have "link_inv w' l' (fs @ []) \<and> l' = l \<and> res \<noteq> Returned" by (auto split: if_splits)
  then show ?thesis by (auto intro: exI [of _ "[]"])
qed

lemma writer_step_inv:
  assumes inv: "conn_inv c fs" "cn_phase c \<noteq> Unstarted"
  shows "wr_out (cn_writer c) = None \<Longrightarrow>
      \<exists>gs. conn_inv (after_write (write_next shut (cn_writer c) (cn_link c)) c) (fs @ gs) \<and>
        evolves (cn_link c) (cn_link (after_write (write_next shut (cn_writer c) (cn_link c)) c))"
    and "\<exists>gs. conn_inv (after_write (write_out chunk res flushed (cn_writer c) (cn_link c)) c) (fs @ gs) \<and>
        evolves (cn_link c) (cn_link (after_write (write_out chunk res flushed (cn_writer c) (cn_link c)) c))"
    and "\<exists>gs. conn_inv (after_write (write_idle work (cn_writer c) (cn_link c)) c) (fs @ gs) \<and>
        evolves (cn_link c) (cn_link (after_write (write_idle work (cn_writer c) (cn_link c)) c))"
proof -
  let ?w = "cn_writer c" and ?l = "cn_link c"
  have link: "link_inv ?w ?l fs" using inv by (simp add: conn_inv_def)
  show "\<exists>gs. conn_inv (after_write (write_next shut ?w ?l) c) (fs @ gs) \<and>
      evolves ?l (cn_link (after_write (write_next shut ?w ?l) c))" if out: "wr_out ?w = None"
  proof -
    obtain r w l where s: "write_next shut ?w ?l = (r, w, l)" by (metis prod_cases3)
    show ?thesis
      unfolding s using s link write_next_inv [OF link out s] write_failed(1) [OF link]
      by (intro after_write_inv [OF inv]) (auto dest: write_next_returned)
  qed
  obtain r w l where s: "write_out chunk res flushed ?w ?l = (r, w, l)" by (metis prod_cases3)
  show "\<exists>gs. conn_inv (after_write (write_out chunk res flushed ?w ?l) c) (fs @ gs) \<and>
      evolves ?l (cn_link (after_write (write_out chunk res flushed ?w ?l) c))"
    unfolding s using s write_out_inv [OF link s] write_failed(2) [OF link] write_out_returned
    by (intro after_write_inv [OF inv]) auto
  obtain r' w' l' where s: "write_idle work ?w ?l = (r', w', l')" by (metis prod_cases3)
  show "\<exists>gs. conn_inv (after_write (write_idle work ?w ?l) c) (fs @ gs) \<and>
      evolves ?l (cn_link (after_write (write_idle work ?w ?l) c))"
    unfolding s using s write_idle_inv [OF link s] write_failed(3) [OF link]
    by (intro after_write_inv [OF inv]) auto
qed

lemma reader_step_moves:
  assumes "conn_inv c fs"
  shows "\<lbrakk>cn_phase c = Looping; read_top now (cn_reading c) (cn_link c) = (res, rg, l)\<rbrakk> \<Longrightarrow>
      moves (cn_link c) l \<and> started l \<and> reading_ok rg"
    and "\<lbrakk>cn_phase c = Awaiting a; read_wake now wake (cn_reading c) (cn_link c) = (go_on, rg, l)\<rbrakk> \<Longrightarrow>
      moves (cn_link c) l \<and> started l \<and> reading_ok rg"
    and "\<lbrakk>cn_phase c = Leaving; read_dispatch now (cn_reading c) (cn_link c) = (rg, l)\<rbrakk> \<Longrightarrow>
      moves (cn_link c) l \<and> started l \<and> reading_ok rg"
proof -
  have ok: "reading_ok (cn_reading c)" "cn_phase c \<noteq> Unstarted \<Longrightarrow> started (cn_link c)"
    using assms by (simp_all add: conn_inv_def)
  show "moves (cn_link c) l \<and> started l \<and> reading_ok rg"
    if "cn_phase c = Looping" "read_top now (cn_reading c) (cn_link c) = (res, rg, l)"
    using that ok by (intro moves_read_top [OF _ ok(1) that(2)]) simp
  show "moves (cn_link c) l \<and> started l \<and> reading_ok rg"
    if "cn_phase c = Awaiting a" "read_wake now wake (cn_reading c) (cn_link c) = (go_on, rg, l)"
    using that ok by (intro moves_read_wake [OF _ ok(1) that(2)]) simp
  show "moves (cn_link c) l \<and> started l \<and> reading_ok rg"
    if "cn_phase c = Leaving" "read_dispatch now (cn_reading c) (cn_link c) = (rg, l)"
    using that ok by (intro moves_read_dispatch [OF _ ok(1) that(2)]) simp
qed

lemma reading_new_ok: "reading_ok (reading_new now rest l)"
  by (simp add: reading_ok_def reading_new_def reader_push_def reader_input_def reader_new_def Let_def)

lemma conn_step_inv:
  assumes "conn_step c c'" "conn_inv c fs"
  shows "\<exists>gs. conn_inv c' (fs @ gs) \<and> evolves (cn_link c) (cn_link c')"
  using assms
proof (induction rule: conn_step.induct)
  case (app_send op data c)
  then have "sendable op data" by (auto intro: sendable_intros)
  moreover have "op \<noteq> CLOSE" using app_send(1) opcode_order by auto
  moreover note app_send(2)
  ultimately show ?case
    by (intro conn_inv_link [OF _ moves_link_send [of op data "cn_link c"]]) (simp_all add: link_send_flags)
next
  case (app_close code why c now)
  then show ?case
    by (intro conn_inv_link [OF _ moves_close [of code why "cn_link c" now]]) (simp_all add: link_close_started)
next
  case (app_terminate c)
  then show ?case by (intro conn_inv_link [OF _ moves_terminate]) simp_all
next
  case (app_consumed c n)
  then show ?case by (intro conn_inv_link [OF _ consumed_moves]) (simp_all add: consumed_def)
next
  case (connect_failed c e)
  then show ?case by (intro conn_inv_link [OF _ moves_fail]) (simp_all add: link_fail_def)
next
  case (hub_closed c)
  then show ?case by (intro conn_inv_link [OF _ events_moves]) (simp_all add: events_close_def)
next
  case (hub_dropped c)
  then show ?case by (intro conn_inv_link [OF _ events_moves]) simp_all
next
  case (transport_clock c t t')
  then show ?case by (intro conn_inv_link [OF _ moves_cong]) simp_all
next
  case (start c opened protocol go_on l now rest)
  then show ?case
    using moves_link_start [OF start(2,3)] by (intro conn_inv_reader [of c fs l]) (simp_all add: reading_new_ok)
next
  case (reader_top c now res rg l)
  then show ?case using reader_step_moves(1) by (intro conn_inv_reader [of c fs l rg]) auto
next
  case (reader_wake c a wake now go_on rg l)
  then show ?case using reader_step_moves(2) by (intro conn_inv_reader [of c fs l rg]) auto
next
  case (reader_leave c now rg l)
  then show ?case using reader_step_moves(3) by (intro conn_inv_reader [of c fs l rg]) auto
next
  case (reader_end c now)
  have "started (link_end (cn_link c))" by (simp add: link_end_def split: prod.splits)
  with reader_end show ?case
    by (intro conn_inv_reader [of c fs "link_end (cn_link c)" "cn_reading c"])
      (simp_all add: moves_end conn_inv_def)
next
  case (writer_next c shut)
  then show ?case by (intro writer_step_inv) simp_all
next
  case (writer_out c chunk res flushed)
  then show ?case by (intro writer_step_inv) simp_all
next
  case (writer_idle c work)
  then show ?case by (intro writer_step_inv) simp_all
next
  case (writer_stopped c)
  then have inv: "link_inv (cn_writer c) (cn_link c) fs" by (simp add: conn_inv_def)
  with writer_stopped have "link_state (cn_link c) = Closed" by (simp add: link_inv_def queue_ok_def)
  with link_inv_drop [OF inv _ wire_prefix_inv [OF inv]] writer_stopped show ?case
    by (intro exI [of _ "[]"]) (simp add: conn_inv_def)
next
  case (writer_hub_closed c)
  then have inv: "link_inv (cn_writer c) (cn_link c) fs" by (simp add: conn_inv_def)
  obtain gs where e: "evolves (cn_link c) (link_terminate (cn_link c))"
    "link_inv (cn_writer c) (link_terminate (cn_link c)) (fs @ gs)"
    by (rule movesD [OF moves_terminate inv])
  with link_inv_drop [OF e(2) _ wire_prefix_inv [OF e(2)]] writer_hub_closed show ?case
    by (intro exI [of _ gs]) (simp add: conn_inv_def)
next
  case (lease c)
  then show ?case by (intro conn_inv_link [OF _ moves_terminate]) (simp_all add: lease_drop_def)
qed

lemma conn_steps_inv:
  assumes "conn_steps c c'" "conn_inv c fs"
  shows "\<exists>gs. conn_inv c' (fs @ gs) \<and> evolves (cn_link c) (cn_link c')"
  using assms(1)
proof (induction rule: rtranclp_induct)
  case base
  with assms(2) show ?case by (intro exI [of _ "[]"]) simp
next
  case (step c1 c2)
  then obtain gs where 1: "conn_inv c1 (fs @ gs)" "evolves (cn_link c) (cn_link c1)" by blast
  with conn_step_inv [OF step(2) 1(1)] obtain hs where "conn_inv c2 ((fs @ gs) @ hs)" "evolves (cn_link c1) (cn_link c2)"
    by blast
  with 1 show ?case by (intro exI [of _ "gs @ hs"]) (auto intro: evolves_trans)
qed

lemma conn_new_inv:
  assumes "list_all (\<lambda>q. \<not> is_close_event (qd_event q)) (ev_tx ev)" "length token \<le> 125"
  shows "conn_inv (conn_new i server config ev token now rnd) []"
proof -
  have none: "\<not> is_close_event e" if "e \<in> set (map qd_event (ev_tx ev))" for e
    using that assms(1) by (auto simp: list_all_iff)
  have "EvClose j code why \<notin> set (map qd_event (ev_tx ev))" for j code why
    using none [of "EvClose j code why"] by auto
  then have "events_ok i f (map qd_event (ev_tx ev))" for f
    unfolding events_ok_def list_all_iff using none in_set_butlastD by metis
  with assms show ?thesis
    by (simp add: conn_new_def Let_def conn_inv_def reading_new_ok link_inv_def link_new_def flags_ok_def queue_ok_def
      out_inv_def backlog_def writer_new_def taken_def out_rest_def)
qed

end
