(* ===== verification/Conn_Spec.thy ===== *)
theory Conn_Spec
  imports Conn_Run
begin

text \<open>
  The promises of a connection, in every state that an interleaving of the steps of its tasks, the
  application and the hub can reach.
\<close>

definition reachable :: "id \<Rightarrow> bool \<Rightarrow> config \<Rightarrow> conn \<Rightarrow> bool" where
  "reachable i server config c \<longleftrightarrow>
     (\<exists>ev token now rnd. list_all (\<lambda>q. \<not> is_close_event (qd_event q)) (ev_tx ev) \<and> length token = 8 \<and>
        conn_steps (conn_new i server config ev token now rnd) c)"

lemma reachable_inv:
  assumes "reachable i server config c"
  obtains fs where "conn_inv c fs" "lk_id (cn_link c) = i" "lk_server (cn_link c) = server"
    "lk_buffer (cn_link c) = cf_buffer config"
proof -
  obtain ev token now rnd where ev: "list_all (\<lambda>q. \<not> is_close_event (qd_event q)) (ev_tx ev)" "length token = 8"
    and steps: "conn_steps (conn_new i server config ev token now rnd) c"
    using assms by (auto simp: reachable_def)
  have "conn_inv (conn_new i server config ev token now rnd) []" using ev by (intro conn_new_inv) simp_all
  from conn_steps_inv [OF steps this] obtain fs where
    "conn_inv c fs" "evolves (cn_link (conn_new i server config ev token now rnd)) (cn_link c)" by auto
  then show thesis
    by (intro that [of fs]) (simp_all add: evolves_def conn_new_def link_new_def Let_def)
qed

lemma reachable_steps: "\<lbrakk>reachable i server config c; conn_steps c c'\<rbrakk> \<Longrightarrow> reachable i server config c'"
  unfolding reachable_def by (meson rtranclp_trans)

subsection \<open>A concrete run\<close>

text \<open>A client that opens, sends a text, and is closed by its application.\<close>

definition demo_new :: conn where
  [ws_eval]: "demo_new = conn_new 7 False \<lparr>cf_message = 100, cf_buffer = 10, cf_heartbeat = None\<rparr>
     \<lparr>ev_tx = [], ev_rx = True, ev_permit = Some 3, ev_closed = False\<rparr> (replicate 8 1) 0 (\<lambda>_. (1, 2, 3, 4))"

definition demo_open :: conn where
  [ws_eval]: "demo_open =
     (let l = snd (link_start None (EvOpen 7) (cn_link demo_new)) in
      demo_new\<lparr>cn_link := l, cn_phase := Looping, cn_reading := reading_new 0 [] l, cn_writing := Going\<rparr>)"

definition demo_sent :: conn where
  [ws_eval]: "demo_sent = demo_open\<lparr>cn_link := snd (link_send TEXT [104, 105] (cn_link demo_open))\<rparr>"

definition demo_full :: conn where
  [ws_eval]: "demo_full = demo_sent\<lparr>cn_link := snd (link_send TEXT [104, 105] (cn_link demo_sent))\<rparr>"

definition demo_closed :: conn where
  [ws_eval]: "demo_closed = demo_open\<lparr>cn_link := link_terminate (cn_link demo_open)\<rparr>"

lemma demo_reachable:
  "reachable 7 False \<lparr>cf_message = 100, cf_buffer = 10, cf_heartbeat = None\<rparr> demo_new"
  "conn_steps demo_new demo_open" "conn_steps demo_open demo_sent" "conn_steps demo_sent demo_full"
  "conn_steps demo_open demo_closed"
proof -
  show "reachable 7 False \<lparr>cf_message = 100, cf_buffer = 10, cf_heartbeat = None\<rparr> demo_new"
    unfolding reachable_def
    by (intro exI [of _ "\<lparr>ev_tx = [], ev_rx = True, ev_permit = Some 3, ev_closed = False\<rparr>"]
        exI [of _ "replicate 8 1"] exI [of _ 0] exI [of _ "\<lambda>_. (1, 2, 3, 4)"]) (simp add: demo_new_def)
  have go: "fst (link_start None (EvOpen 7) (cn_link demo_new))" by (simp add: ws_eval)
  then have s: "link_start None (EvOpen 7) (cn_link demo_new) = (True, snd (link_start None (EvOpen 7) (cn_link demo_new)))"
    by (simp add: prod_eq_iff)
  have "cn_phase demo_new = Unstarted" by (simp add: demo_new_def conn_new_def Let_def)
  from conn_step.start [OF this _ s, of 0 "[]"] show "conn_steps demo_new demo_open"
    by (simp add: demo_open_def Let_def r_into_rtranclp)
  have "is_utf8 [104, 105]" by code_simp
  then show "conn_steps demo_open demo_sent" "conn_steps demo_sent demo_full"
    unfolding demo_sent_def demo_full_def by (intro r_into_rtranclp conn_step.app_send; simp)+
  show "conn_steps demo_open demo_closed"
    unfolding demo_closed_def by (intro r_into_rtranclp conn_step.app_terminate)
qed

lemmas demo_states =
  demo_reachable(1)
  reachable_steps [OF demo_reachable(1,2)]
  reachable_steps [OF reachable_steps [OF demo_reachable(1,2)] demo_reachable(3)]
  reachable_steps [OF reachable_steps [OF reachable_steps [OF demo_reachable(1,2)] demo_reachable(3)] demo_reachable(4)]
  reachable_steps [OF reachable_steps [OF demo_reachable(1,2)] demo_reachable(5)]

subsection \<open>Events\<close>

text \<open>
  C13: The close event is the last event of a connection and the only one of its kind, whatever
  order of the steps led there; the connection is then closed, and the reported code is 1006, or the
  peer's status, or ours after a violation.
\<close>

theorem conn_final_event:
  assumes "reachable i server config c"
    and "event_log (cn_link c) = es @ e # es'" "is_close_event e"
  shows "es' = [] \<and> list_all (\<lambda>e. \<not> is_close_event e) es \<and> link_state (cn_link c) = Closed \<and>
    (\<exists>code why. e = EvClose i code why \<and>
       (code = 1006 \<and> why = [] \<or> (code, why) = end_status (lk_flags (cn_link c))))"
proof -
  obtain fs where inv: "conn_inv c fs" "lk_id (cn_link c) = i" using assms(1) by (rule reachable_inv)
  then have ok: "events_ok i (lk_flags (cn_link c)) (event_log (cn_link c))" by (simp add: conn_inv_def link_inv_def)
  have last: "es' = []"
  proof (rule ccontr)
    assume "es' \<noteq> []"
    then have "e \<in> set (butlast (event_log (cn_link c)))" by (simp add: assms(2) butlast_append)
    with ok assms(3) show False by (auto simp: events_ok_def list_all_iff)
  qed
  obtain j code why where e: "e = EvClose j code why" using assms(3) by (cases e) auto
  with ok have "j = i \<and> close_code_ok (lk_flags (cn_link c)) code why"
    unfolding events_ok_def assms(2) by auto
  moreover have "link_state (cn_link c) = Closed" "list_all (\<lambda>e. \<not> is_close_event e) es"
    using ok assms(3) last unfolding events_ok_def assms(2) by auto
  ultimately show ?thesis using last e by (auto simp: close_code_ok_def)
qed

theorem conn_final_event_witness:
  "event_log (cn_link demo_closed) = [EvOpen 7] @ EvClose 7 1006 [] # [] \<and>
   link_state (cn_link demo_closed) = Closed"
proof -
  have log: "event_log (cn_link demo_closed) = [EvOpen 7] @ EvClose 7 1006 [] # []" by (simp add: ws_eval)
  from conn_final_event [OF demo_states(5) log] log show ?thesis by simp
qed

text \<open>
  C22: A connection only moves forward: along any further run its state never goes back, its
  events only grow, and once closed neither its flags nor its events change any more.
\<close>

theorem conn_forward:
  assumes "reachable i server config c" "conn_steps c c'"
  shows "state_rank (link_state (cn_link c)) \<le> state_rank (link_state (cn_link c')) \<and>
    prefix (event_log (cn_link c)) (event_log (cn_link c')) \<and>
    (link_state (cn_link c) = Closed \<longrightarrow>
       lk_flags (cn_link c') = lk_flags (cn_link c) \<and> event_log (cn_link c') = event_log (cn_link c))"
proof -
  obtain fs where "conn_inv c fs" using assms(1) by (rule reachable_inv)
  from conn_steps_inv [OF assms(2) this] show ?thesis using evolves_log by (fastforce simp: evolves_def)
qed

theorem conn_forward_witness:
  "state_rank (link_state (cn_link demo_open)) \<le> state_rank (link_state (cn_link demo_closed)) \<and>
   prefix (event_log (cn_link demo_open)) (event_log (cn_link demo_closed))"
  using conn_forward [OF demo_states(2) demo_reachable(5)] by simp

text \<open>
  C23: A closed connection holds nothing back: its descriptor is shut down, its queue is empty
  and refuses new frames, its tasks are told to stop, and its admission slot is given up even if
  the application keeps the handle.
\<close>

theorem conn_closed_released:
  assumes "reachable i server config c" "link_state (cn_link c) = Closed"
  shows "lk_io (cn_link c) \<noteq> Some True \<and> qu_items (lk_queue (cn_link c)) = [] \<and>
    qu_pong (lk_queue (cn_link c)) = None \<and> qu_done (lk_queue (cn_link c)) \<and> lk_stopped (cn_link c) \<and>
    ev_permit (lk_events (cn_link c)) = None \<and> link_buffered (cn_link c) = 0"
proof -
  obtain fs where "conn_inv c fs" using assms(1) by (rule reachable_inv)
  with assms(2) show ?thesis
    by (simp add: conn_inv_def link_inv_def flags_ok_def queue_ok_def link_buffered_def)
qed

theorem conn_closed_released_witness:
  "link_state (cn_link demo_closed) = Closed \<and> ev_permit (lk_events (cn_link demo_open)) = Some 3 \<and>
   ev_permit (lk_events (cn_link demo_closed)) = None"
proof -
  have c: "link_state (cn_link demo_closed) = Closed" by (simp add: ws_eval)
  have "ev_permit (lk_events (cn_link demo_open)) = Some 3" by (simp add: ws_eval)
  with c conn_closed_released [OF demo_states(5) c] show ?thesis by simp
qed

subsection \<open>The wire\<close>

text \<open>
  C14: What a connection writes is a prefix of whole frames: masked exactly by a client, each
  acceptable to a reader, with at most one close frame and nothing but pongs after it.  While
  it lives, the bytes written and those still queued are together exactly those frames, and the
  buffered count is the size of the rest.
\<close>

theorem conn_wire_frames:
  assumes "reachable i server config c"
  shows "\<exists>fs. prefix (wr_wire (cn_writer c)) (wire_of fs) \<and> closes_once fs \<and>
    (\<forall>(op, payload, msk) \<in> set fs. (msk = None) = server \<and> sendable op payload) \<and>
    (link_state (cn_link c) \<noteq> Closed \<longrightarrow>
       wr_wire (cn_writer c) @ backlog (cn_writer c) (cn_link c) = wire_of fs \<and>
       lk_buffered (cn_link c) = length (backlog (cn_writer c) (cn_link c)) mod usize_modulus)"
proof -
  obtain fs where inv: "conn_inv c fs" "lk_server (cn_link c) = server" using assms by (rule reachable_inv)
  then have "prefix (wr_wire (cn_writer c)) (wire_of fs)"
    by (auto simp: conn_inv_def intro: wire_prefix_inv)
  with inv show ?thesis
    by (intro exI [of _ fs]) (auto simp: conn_inv_def link_inv_def out_inv_def queue_ok_def)
qed

theorem conn_wire_frames_witness:
  "\<exists>fs. prefix (wr_wire (cn_writer demo_sent)) (wire_of fs) \<and> closes_once fs"
  using conn_wire_frames [OF demo_states(3)] by blast

text \<open>
  A refused send is never forgotten while bytes could make room for it: as long as the
  drain request stands on a live connection, something is still queued and the refused frame
  still does not fit.
\<close>

lemma conn_drain_pending:
  assumes "reachable i server config c" "link_state (cn_link c) \<noteq> Closed"
    and "qu_drain (lk_queue (cn_link c)) = Some len"
  shows "backlog (cn_writer c) (cn_link c) \<noteq> [] \<and>
    cf_buffer config < saturating_add (length (backlog (cn_writer c) (cn_link c))) len"
proof -
  obtain fs where "conn_inv c fs" "lk_buffer (cn_link c) = cf_buffer config" using assms(1) by (rule reachable_inv)
  with assms(2,3) show ?thesis by (auto simp: conn_inv_def link_inv_def out_inv_def queue_ok_def)
qed

end
