(* ===== verification/Conn_Msg.thy ===== *)
theory Conn_Msg
  imports Conn_Spec
begin

text \<open>
  The connection and the codec together: what a connection writes its peer decodes, an
  accepted send appends exactly one frame, and what the reader decodes is what the application
  is told.
\<close>

subsection \<open>The peer's view of the wire\<close>

lemma sendable_msg:
  assumes "sendable op p"
  obtains m where "\<forall>msk. encode_msg m msk = frame_encode op p msk" "message_ok (length p) m"
proof -
  consider "op = TEXT" "is_utf8 p" | "op = BINARY" | "op = PING" "length p \<le> 125" | "op = PONG" "length p \<le> 125"
    | "op = CLOSE" "p = []"
    | code why where "op = CLOSE" "p = close_payload code why" "message_ok 0 (Close (Some (code, why)))"
    using assms unfolding sendable_def by blast
  then show thesis
  proof cases
    case 1
    then show thesis by (intro that [of "Text p"]) simp_all
  next
    case 2
    then show thesis by (intro that [of "Binary p"]) simp_all
  next
    case 3
    then show thesis by (intro that [of "Ping p"]) simp_all
  next
    case 4
    then show thesis by (intro that [of "Pong p"]) simp_all
  next
    case 5
    then show thesis by (intro that [of "Close None"]) simp_all
  next
    case 6
    then show thesis by (intro that [of "Close (Some (code, why))"]) simp_all
  qed
qed

lemma wire_of_messages:
  assumes "\<forall>(op, payload, msk) \<in> set fs. (msk = None) = server \<and> sendable op payload"
  obtains ms where "wire_of fs = encode_all ms" "\<forall>(m, msk) \<in> set ms. (msk = None) = server \<and> (\<exists>n. message_ok n m)"
    "length ms = length fs"
proof -
  have "\<exists>ms. wire_of fs = encode_all ms \<and> (\<forall>(m, msk) \<in> set ms. (msk = None) = server \<and> (\<exists>n. message_ok n m)) \<and>
    length ms = length fs"
    using assms
  proof (induction fs)
    case Nil
    then show ?case by (simp add: encode_all_def)
  next
    case (Cons f fs)
    obtain op p msk where f: "f = (op, p, msk)" by (cases f)
    with Cons.prems have p: "sendable op p" and "(msk = None) = server" by auto
    from p obtain m where m: "\<forall>msk. encode_msg m msk = frame_encode op p msk" "message_ok (length p) m"
      by (rule sendable_msg)
    from Cons obtain ms where "wire_of fs = encode_all ms"
      "\<forall>(m, msk) \<in> set ms. (msk = None) = server \<and> (\<exists>n. message_ok n m)" "length ms = length fs" by auto
    with m f \<open>(msk = None) = server\<close> show ?case
      by (intro exI [of _ "(m, msk) # ms"]) (auto simp: encode_all_def)
  qed
  with that show thesis by blast
qed

text \<open>A parser that accepts an input accepts every prefix of it, with a prefix of the messages.\<close>

lemma decode_prefix:
  assumes "decode server mx [b @ c] = Ok ms"
  shows "\<exists>ms'. decode server mx [b] = Ok ms' \<and> prefix ms' ms"
proof -
  obtain ms1 res where b: "drain_frames server mx None b = (ms1, res)" by fastforce
  show ?thesis
    using assms b rd.drain_append [of server mx None b c]
    by (cases res) (auto simp: decode_frames prepend_def split: prod.splits sum.splits)
qed

text \<open>
  C15: A connection never violates the protocol towards its peer: in every reachable state, even
  when it was cut off in the middle of a frame, the peer's reader, fed with the written bytes in
  any pieces, decodes a prefix of one list of messages without an error, and exactly that
  list when a live connection has flushed its backlog; the peer's own limit on data messages is
  the only condition.
\<close>

theorem conn_peer_decodes:
  assumes "reachable i server config c"
  shows "\<exists>ms. prefix (wr_wire (cn_writer c)) (encode_all ms) \<and>
    (\<forall>(m, msk) \<in> set ms. (msk = None) = server \<and> (\<exists>n. message_ok n m)) \<and>
    (\<forall>mx cs. list_all (message_ok mx) (map fst ms) \<and> mx < 2 ^ 63 \<and> concat cs = wr_wire (cn_writer c) \<longrightarrow>
      (\<exists>ms'. decode (\<not> server) mx cs = Ok ms' \<and> prefix ms' (map fst ms) \<and>
         (link_state (cn_link c) \<noteq> Closed \<and> backlog (cn_writer c) (cn_link c) = [] \<longrightarrow> ms' = map fst ms)))"
proof -
  obtain fs where inv: "conn_inv c fs" "lk_server (cn_link c) = server" using assms by (rule reachable_inv)
  then have "\<forall>(op, payload, msk) \<in> set fs. (msk = None) = server \<and> sendable op payload"
    by (simp add: conn_inv_def link_inv_def out_inv_def)
  then obtain ms where ms: "wire_of fs = encode_all ms"
    "\<forall>(m, msk) \<in> set ms. (msk = None) = server \<and> (\<exists>n. message_ok n m)" by (rule wire_of_messages)
  obtain rest where rest: "encode_all ms = wr_wire (cn_writer c) @ rest"
    using inv wire_prefix_inv [of "cn_writer c" "cn_link c" fs] ms(1) by (auto simp: conn_inv_def prefix_def)
  have flushed: "rest = []" if "link_state (cn_link c) \<noteq> Closed" "backlog (cn_writer c) (cn_link c) = []"
    using inv that rest ms(1) by (auto simp: conn_inv_def link_inv_def out_inv_def queue_ok_def)
  show ?thesis
  proof (rule exI [of _ ms], intro conjI allI impI)
    show "prefix (wr_wire (cn_writer c)) (encode_all ms)" by (simp add: rest)
    show "\<forall>(m, msk) \<in> set ms. (msk = None) = server \<and> (\<exists>n. message_ok n m)" by (rule ms(2))
    fix mx cs
    assume "list_all (message_ok mx) (map fst ms) \<and> mx < 2 ^ 63 \<and> concat cs = wr_wire (cn_writer c)"
    then have mx: "list_all (message_ok mx) (map fst ms)" "mx < 2 ^ 63" and cs: "concat cs = wr_wire (cn_writer c)"
      by auto
    have "\<forall>(m, msk) \<in> set ms. message_ok mx m \<and> (msk \<noteq> None) = (\<not> server)"
      using ms(2) mx(1) by (fastforce simp: list_all_iff)
    then have all: "decode (\<not> server) mx [encode_all ms] = Ok (map fst ms)"
      using mx(2) by (simp add: decode_frames drain_encode_all)
    from decode_prefix [OF all [unfolded rest]] obtain ms' where
      ms': "decode (\<not> server) mx [wr_wire (cn_writer c)] = Ok ms'" "prefix ms' (map fst ms)" by blast
    moreover have "decode (\<not> server) mx cs = decode (\<not> server) mx [wr_wire (cn_writer c)]"
      using cs by (simp add: decode_frames)
    ultimately show "\<exists>ms'. decode (\<not> server) mx cs = Ok ms' \<and> prefix ms' (map fst ms) \<and>
       (link_state (cn_link c) \<noteq> Closed \<and> backlog (cn_writer c) (cn_link c) = [] \<longrightarrow> ms' = map fst ms)"
      using all flushed rest by auto
  qed
qed

theorem conn_peer_decodes_witness:
  "\<exists>ms. prefix (wr_wire (cn_writer demo_sent)) (encode_all ms) \<and>
    (\<forall>mx cs. list_all (message_ok mx) (map fst ms) \<and> mx < 2 ^ 63 \<and> concat cs = wr_wire (cn_writer demo_sent) \<longrightarrow>
      (\<exists>ms'. decode True mx cs = Ok ms' \<and> prefix ms' (map fst ms)))"
  using conn_peer_decodes [OF demo_states(3)] by simp blast

subsection \<open>Sending\<close>

lemma push_frame_drawn:
  "lk_io l \<noteq> None \<Longrightarrow> lk_drawn (push_frame op payload l) = lk_drawn l + (if lk_server l then 0 else 1)"
  by (auto simp: push_frame_def link_frame_def push_def enqueue_def draw_mask_def Let_def)

text \<open>
  C16: The contract of \<open>send\<close>: an accepted send appends exactly one frame to the connection's
  output, masked exactly by a client, accounts for its size, wakes the writer, and changes nothing else but the
  count of drawn mask keys.  A send is refused only when the connection is not open, which changes
  nothing at all, or when the frame does not fit into the buffer behind bytes that are already
  queued, which changes nothing but the drain request.
\<close>

theorem link_send_contract:
  assumes "reachable i server config c" "link_send op data (cn_link c) = (res, l')"
  shows "case res of
      Ok _ \<Rightarrow> link_state (cn_link c) = Open \<and>
        (\<exists>msk items. (msk = None) = server \<and>
           backlog (cn_writer c) l' = backlog (cn_writer c) (cn_link c) @ frame_encode op data msk \<and>
           l' = (cn_link c)\<lparr>lk_drawn := lk_drawn (cn_link c) + (if server then 0 else 1),
             lk_queue := (lk_queue (cn_link c))\<lparr>qu_items := items\<rparr>,
             lk_buffered := wrapping_add (lk_buffered (cn_link c)) (length (frame_encode op data msk)), lk_ready := True\<rparr>)
    | Err _ \<Rightarrow>
        link_state (cn_link c) \<noteq> Open \<and> l' = cn_link c \<or>
        link_state (cn_link c) = Open \<and> lk_buffered (cn_link c) \<noteq> 0 \<and>
        cf_buffer config < saturating_add (lk_buffered (cn_link c)) (encoded_len (length data) (\<not> server)) \<and>
        l' = (cn_link c)\<lparr>lk_queue := (lk_queue (cn_link c))\<lparr>qu_drain := Some (encoded_len (length data) (\<not> server))\<rparr>\<rparr>"
proof -
  let ?l = "cn_link c" and ?w = "cn_writer c" and ?len = "encoded_len (length data) (\<not> server)"
  obtain fs where inv: "conn_inv c fs" "lk_server ?l = server" "lk_buffer ?l = cf_buffer config"
    using assms(1) by (rule reachable_inv)
  then have ok: "flags_ok (lk_flags ?l) (lk_io ?l)" "queue_ok (link_state ?l) (lk_stopped ?l) (lk_queue ?l)"
    by (simp_all add: conn_inv_def link_inv_def)
  show ?thesis
  proof (cases "link_state ?l = Open")
    case False
    with assms(2) show ?thesis by (auto simp: link_send_def Let_def)
  next
    case opened: True
    then have live: "\<not> fl_sent_close (lk_flags ?l)" "lk_io ?l \<noteq> None" "\<not> qu_done (lk_queue ?l)"
      using ok by (simp_all add: flags_ok_def queue_ok_def)
    show ?thesis
    proof (cases "fits ?l ?len")
      case False
      with opened live assms(2) inv(2,3) show ?thesis
        by (auto simp: link_send_def Let_def fits_def)
    next
      case True
      with opened live assms(2) inv(2) have sent: "res = Ok ()" "l' = push_frame op data ?l"
        by (auto simp: link_send_def Let_def)
      obtain d msk items where q: "push_frame op data ?l = queued_frame ?l d items (length (frame_encode op data msk))"
        "(msk = None) = lk_server ?l" "items_bytes items = items_bytes (qu_items (lk_queue ?l)) @ frame_encode op data msk"
        by (cases rule: push_frame_effect [of op data ?l]) (use live in simp_all)
      have "d = lk_drawn ?l + (if server then 0 else 1)"
        using push_frame_drawn [OF live(2), of op data] inv(2) unfolding q(1) by (simp add: queued_frame_def)
      moreover have "backlog ?w (push_frame op data ?l) = backlog ?w ?l @ frame_encode op data msk"
        unfolding q(1) using q(3) by (simp add: backlog_def queued_frame_def)
      ultimately have "(msk = None) = server \<and> backlog ?w l' = backlog ?w ?l @ frame_encode op data msk \<and>
        l' = queued_frame ?l (lk_drawn ?l + (if server then 0 else 1)) items (length (frame_encode op data msk))"
        using q(1,2) inv(2) by (simp add: sent(2))
      then show ?thesis unfolding sent(1) sum.case using opened unfolding queued_frame_def by blast
    qed
  qed
qed

theorem link_send_contract_witness:
  "link_state (cn_link demo_open) = Open \<and>
   (\<exists>msk. backlog (cn_writer demo_open) (cn_link demo_sent) =
      backlog (cn_writer demo_open) (cn_link demo_open) @ frame_encode TEXT [104, 105] msk)"
proof -
  have "fst (link_send TEXT [104, 105] (cn_link demo_open)) = Ok ()" by (simp add: ws_eval)
  then have s: "link_send TEXT [104, 105] (cn_link demo_open) = (Ok (), cn_link demo_sent)"
    by (simp add: demo_sent_def prod_eq_iff)
  from link_send_contract [OF demo_states(2) s] show ?thesis by auto
qed

subsection \<open>Delivery\<close>

text \<open>The events of a message; answers to our own probes are not reported.\<close>

fun msg_events :: "id \<Rightarrow> bytes \<Rightarrow> msg \<Rightarrow> event list" where
  "msg_events i token (Text d) = [EvMessage i d False]"
| "msg_events i token (Binary d) = [EvMessage i d True]"
| "msg_events i token (Ping d) = [EvPing i d]"
| "msg_events i token (Pong d) = (if d = token then [] else [EvPong i d])"
| "msg_events i token (Close _) = []"

definition listening :: "link \<Rightarrow> bool" where
  "listening l \<longleftrightarrow> link_state l = Open \<and> fl_received (lk_flags l) = None \<and> ev_rx (lk_events l) \<and> \<not> ev_closed (lk_events l)"

lemma push_frame_token [simp]: "lk_token (push_frame op payload l) = lk_token l"
  by (cases rule: push_frame_effect [of op payload l]) simp_all

lemma reply_pong_keeps_more [simp]:
  "lk_events (reply_pong data l) = lk_events l" "lk_token (reply_pong data l) = lk_token l"
  "lk_inbox (reply_pong data l) = lk_inbox l"
  by (simp_all add: reply_pong_def Let_def)

lemma deliver_listening:
  assumes "listening l" "\<not> is_close_event e"
  shows "listening (deliver n e l) \<and> event_log (deliver n e l) = event_log l @ [e] \<and>
    lk_id (deliver n e l) = lk_id l \<and> lk_token (deliver n e l) = lk_token l \<and>
    lk_flags (deliver n e l) = lk_flags l"
  using assms
  by (simp add: listening_def deliver_def emit_live events_send_def events_send_pending_def Let_def)

lemma handle_listening:
  assumes l: "listening l" and m: "\<not> is_close_msg m"
  shows "listening (handle now m l) \<and> event_log (handle now m l) = event_log l @ msg_events (lk_id l) (lk_token l) m \<and>
    lk_id (handle now m l) = lk_id l \<and> lk_token (handle now m l) = lk_token l"
proof (cases m)
  case (Ping d)
  have "listening (reply_pong d l)" using l by (simp add: listening_def)
  from deliver_listening [OF this, of "EvPing (lk_id l) d"] Ping show ?thesis by simp
next
  case (Pong d)
  with deliver_listening [OF l, of "EvPong (lk_id l) d"] l show ?thesis by (simp add: ours_def)
next
  case (Text d)
  with l deliver_listening [OF l, of "EvMessage (lk_id l) d False"] show ?thesis by (simp add: listening_def)
next
  case (Binary d)
  with l deliver_listening [OF l, of "EvMessage (lk_id l) d True"] show ?thesis by (simp add: listening_def)
qed (use m in simp)

lemma dispatch_message:
  "reader_message r = reader_message r' \<Longrightarrow> dispatch now r l = dispatch now r' l"
  by (simp add: dispatch.simps)

lemma dispatch_reads:
  "\<lbrakk>reads server mx part b r; drain_frames server mx part b = (ms, Ok (part', b')); listening l;
     list_all (\<lambda>m. \<not> is_close_msg m) ms\<rbrakk> \<Longrightarrow>
   \<exists>r' l'. dispatch now r l = (True, r', l') \<and> reads server mx part' b' r' \<and> listening l' \<and>
     event_log l' = event_log l @ concat (map (msg_events (lk_id l) (lk_token l)) ms)"
proof (induction part b arbitrary: r l ms rule: rd.drain_induct [of server mx])
  case (More part b)
  with reader_message_reads(1) [OF More(2,1)] show ?case
    by (auto simp: rd.drain_cases dispatch.simps [of now r])
next
  case (Stop part b e)
  then show ?case by (simp add: rd.drain_cases)
next
  case (Step part b m part1 n)
  obtain ms1 where d: "drain_frames server mx part1 (drop n b) = (ms1, Ok (part', b'))"
    and ms: "ms = (case m of None \<Rightarrow> ms1 | Some x \<Rightarrow> x # ms1)"
    using Step(1,4) by (cases "drain_frames server mx part1 (drop n b)"; cases m) (auto simp: rd.drain_cases)
  show ?case
  proof (cases m)
    case None
    with Step(1) reader_message_reads(4) [OF Step(3)] obtain r1 where
      same: "reader_message r = reader_message r1" and r1: "reads server mx part1 (drop n b) r1" by blast
    from Step.IH [OF r1 d Step(5)] Step(6) None ms show ?thesis by (simp add: dispatch_message [OF same])
  next
    case (Some x)
    with Step(1) reader_message_reads(3) [OF Step(3)] obtain r1 where
      r1: "reader_message r = (Ok (Some x), r1)" "reads server mx part1 (drop n b) r1" by blast
    from Step(6) ms Some have x: "\<not> is_close_msg x" "list_all (\<lambda>m. \<not> is_close_msg m) ms1" by simp_all
    note h = handle_listening [OF Step(5) x(1), of now]
    then have "link_state (handle now x l) \<noteq> Closed" by (simp add: listening_def)
    with r1 x have "dispatch now r l = dispatch now r1 (handle now x l)" by (simp add: dispatch.simps [of now r])
    with Step.IH [OF r1(2) d _ x(2), of "handle now x l"] h ms Some show ?thesis by auto
  qed
qed

text \<open>
  C17: What arrives is what the application is told: a connection that is open towards a live hub
  turns the bytes it has read into exactly the events of the messages they encode, in order,
  leaves no complete message behind, and stays open.
\<close>

theorem dispatch_delivers:
  assumes "decode (lk_server l) (lk_max l) [bs] = Ok ms" "listening l" "list_all (\<lambda>m. \<not> is_close_msg m) ms"
  shows "\<exists>r' l'. dispatch now (reader_push (reader_new (lk_server l) (lk_max l)) bs) l = (True, r', l') \<and>
    listening l' \<and> event_log l' = event_log l @ concat (map (msg_events (lk_id l) (lk_token l)) ms) \<and>
    fst (reader_message r') = Ok None"
proof -
  obtain part b where d: "drain_frames (lk_server l) (lk_max l) None bs = (ms, Ok (part, b))"
    using assms(1) by (auto simp: decode_frames split: prod.splits sum.splits)
  have "reads (lk_server l) (lk_max l) None bs (reader_push (reader_new (lk_server l) (lk_max l)) bs)"
    using reads_push [OF reads_new, of "lk_server l" "lk_max l" bs] by simp
  from dispatch_reads [OF this d assms(2,3)] obtain r' l' where
    r': "dispatch now (reader_push (reader_new (lk_server l) (lk_max l)) bs) l = (True, r', l')"
    "reads (lk_server l) (lk_max l) part b r'" "listening l'"
    "event_log l' = event_log l @ concat (map (msg_events (lk_id l) (lk_token l)) ms)" by blast
  moreover from reader_message_reads(1) [OF r'(2) rd.drain_rest [OF d]] have "fst (reader_message r') = Ok None" by simp
  ultimately show ?thesis by blast
qed

theorem dispatch_delivers_witness:
  "\<exists>r' l'. dispatch 5 (reader_push (reader_new False 100) [0x81, 2, 104, 105, 0x89, 0]) (cn_link demo_open) = (True, r', l') \<and>
    event_log l' = [EvOpen 7, EvMessage 7 [104, 105] False, EvPing 7 []]"
proof -
  have d: "decode False 100 [[0x81, 2, 104, 105, 0x89, 0]] = Ok [Text [104, 105], Ping []]" by code_simp
  have l: "listening (cn_link demo_open)" "event_log (cn_link demo_open) = [EvOpen 7]" "lk_id (cn_link demo_open) = 7"
    "lk_server (cn_link demo_open) = False" "lk_max (cn_link demo_open) = 100"
    by (simp_all add: listening_def ws_eval)
  from dispatch_delivers [OF d [folded l(4,5)] l(1), of 5] show ?thesis by (auto simp: l)
qed

subsection \<open>Closing\<close>

lemma push_shutdown_effect:
  assumes "lk_io l \<noteq> None" "\<not> qu_done (lk_queue l)"
  shows "qu_items (lk_queue (push_shutdown l)) = qu_items (lk_queue l) @ [ItemShutdown]"
    "qu_shutdown (lk_queue (push_shutdown l))" "backlog w (push_shutdown l) = backlog w l"
    "lk_events (push_shutdown l) = lk_events l"
  using assms by (auto simp: push_shutdown_def enqueue_def Let_def backlog_def)

lemma push_frame_backlog:
  assumes "lk_io l \<noteq> None" "\<not> qu_done (lk_queue l)"
  obtains msk where "(msk = None) = lk_server l" "backlog w (push_frame op payload l) = backlog w l @ frame_encode op payload msk"
  by (cases rule: push_frame_effect [of op payload l]) (use assms in \<open>auto simp: backlog_def intro: that\<close>)

lemma reachable_open:
  assumes "reachable i server config c" "link_state (cn_link c) = Open"
  shows "\<not> fl_sent_close (lk_flags (cn_link c))" "fl_received (lk_flags (cn_link c)) = None"
    "fl_deadline (lk_flags (cn_link c)) = None" "lk_io (cn_link c) \<noteq> None" "\<not> qu_done (lk_queue (cn_link c))"
    "lk_server (cn_link c) = server" "lk_id (cn_link c) = i"
proof -
  obtain fs where "conn_inv c fs" "lk_server (cn_link c) = server" "lk_id (cn_link c) = i"
    using assms(1) by (rule reachable_inv)
  with assms(2) show "\<not> fl_sent_close (lk_flags (cn_link c))" "fl_received (lk_flags (cn_link c)) = None"
    "fl_deadline (lk_flags (cn_link c)) = None" "lk_io (cn_link c) \<noteq> None" "\<not> qu_done (lk_queue (cn_link c))"
    "lk_server (cn_link c) = server" "lk_id (cn_link c) = i"
    by (simp_all add: conn_inv_def link_inv_def flags_ok_def queue_ok_def)
qed

text \<open>
  C18: The closing handshake is answered: a close frame received on an open connection is
  recorded as the peer's status (1005 when it carries none), queues exactly one close frame that
  echoes the code behind everything sent before, and bounds the rest of the handshake by five
  seconds; a server also queues the shutdown of the transport, after that frame.
\<close>

theorem close_answered:
  assumes "reachable i server config c" "link_state (cn_link c) = Open"
    and "l' = handle now (Close status) (cn_link c)"
  shows "link_state l' = Closing \<and> event_log l' = event_log (cn_link c) \<and>
    end_status (lk_flags l') = (case status of None \<Rightarrow> (1005, []) | Some s \<Rightarrow> s) \<and>
    fl_deadline (lk_flags l') = Some (now + CLOSE_TIMEOUT) \<and>
    (\<exists>msk. (msk = None) = server \<and> backlog (cn_writer c) l' = backlog (cn_writer c) (cn_link c) @
       frame_encode CLOSE (case status of None \<Rightarrow> [] | Some (code, _) \<Rightarrow> close_payload code []) msk) \<and>
    (server \<longrightarrow> qu_shutdown (lk_queue l') \<and> last (qu_items (lk_queue l')) = ItemShutdown)"
proof -
  note op = reachable_open [OF assms(1,2)]
  let ?l = "cn_link c" and ?echo = "case status of None \<Rightarrow> [] | Some (code, _) \<Rightarrow> close_payload code []"
  let ?f = "(lk_flags ?l)\<lparr>fl_received := Some (case status of None \<Rightarrow> (1005, []) | Some s \<Rightarrow> s), fl_state := Closing,
    fl_deadline := get_or_insert (fl_deadline (lk_flags ?l)) (now + CLOSE_TIMEOUT), fl_sent_close := True\<rparr>"
  let ?m = "push_frame CLOSE ?echo (?l\<lparr>lk_flags := ?f\<rparr>)"
  have l': "l' = (if server then push_shutdown ?m else ?m)"
    using op assms(2,3) by (simp add: closing_def Let_def)
  obtain msk where msk: "(msk = None) = server" "backlog (cn_writer c) ?m = backlog (cn_writer c) ?l @ frame_encode CLOSE ?echo msk"
    by (rule push_frame_backlog [of "?l\<lparr>lk_flags := ?f\<rparr>" "cn_writer c" CLOSE ?echo]) (use op in auto)
  note shut = push_shutdown_effect [of ?m]
  have flags: "lk_flags l' = ?f" by (simp add: l')
  have "backlog (cn_writer c) l' = backlog (cn_writer c) ?m" "lk_events l' = lk_events ?l"
    using shut op by (simp_all add: l')
  moreover have "server \<longrightarrow> qu_shutdown (lk_queue l') \<and> last (qu_items (lk_queue l')) = ItemShutdown"
    using shut op by (simp add: l')
  ultimately show ?thesis
    using msk op(3) by (auto simp: flags end_status_def get_or_insert_def split: option.splits)
qed

theorem close_answered_witness:
  "link_state (handle 5 (Close (Some (1000, []))) (cn_link demo_open)) = Closing \<and>
   end_status (lk_flags (handle 5 (Close (Some (1000, []))) (cn_link demo_open))) = (1000, [])"
proof -
  have "link_state (cn_link demo_open) = Open" by (simp add: ws_eval)
  from close_answered [OF demo_states(2) this refl, of 5 "Some (1000, [])"] show ?thesis by simp
qed

text \<open>
  C19: A protocol violation fails the connection with its code: on an open connection towards a
  live hub the application is told why, exactly one close frame with the code is queued behind
  everything sent before, the transport's shutdown follows it, and unless the peer's own close
  frame still arrives the connection will end with that code.
\<close>

theorem violation_answered:
  assumes "reachable i server config c" "listening (cn_link c)"
    and "l' = violation now (Fail code why) (cn_link c)"
  shows "link_state l' = Closing \<and> event_log l' = event_log (cn_link c) @ [EvError i why] \<and>
    end_status (lk_flags l') = (code, []) \<and> fl_deadline (lk_flags l') = Some (now + CLOSE_TIMEOUT) \<and>
    (\<exists>msk. (msk = None) = server \<and>
       backlog (cn_writer c) l' = backlog (cn_writer c) (cn_link c) @ frame_encode CLOSE (close_payload code []) msk) \<and>
    qu_shutdown (lk_queue l') \<and> last (qu_items (lk_queue l')) = ItemShutdown"
proof -
  have st: "link_state (cn_link c) = Open" using assms(2) by (simp add: listening_def)
  note op = reachable_open [OF assms(1) st]
  let ?l = "(cn_link c)\<lparr>lk_events := snd (events_send (EvError i why) (lk_events (cn_link c)))\<rparr>"
  let ?f = "(lk_flags ?l)\<lparr>fl_failed := Some code, fl_state := Closing,
    fl_deadline := get_or_insert (fl_deadline (lk_flags ?l)) (now + CLOSE_TIMEOUT), fl_sent_close := True\<rparr>"
  let ?m = "push_frame CLOSE (close_payload code []) (?l\<lparr>lk_flags := ?f\<rparr>)"
  have emit: "emit (EvError i why) (cn_link c) = ?l" and log: "event_log ?l = event_log (cn_link c) @ [EvError i why]"
    using assms(2) by (simp_all add: listening_def emit_live events_send_def events_send_pending_def Let_def)
  have l': "l' = push_shutdown ?m"
    using op st by (simp add: assms(3) violation_def Let_def emit)
  obtain msk where "(msk = None) = server"
    "backlog (cn_writer c) ?m = backlog (cn_writer c) (cn_link c) @ frame_encode CLOSE (close_payload code []) msk"
    by (rule push_frame_backlog [of "?l\<lparr>lk_flags := ?f\<rparr>" "cn_writer c" CLOSE "close_payload code []"]) (use op in auto)
  moreover have "lk_events l' = lk_events ?l" using push_shutdown_effect(4) [of ?m] op by (simp add: l')
  moreover note push_shutdown_effect [of ?m]
  moreover have "lk_flags l' = ?f" by (simp add: l')
  ultimately show ?thesis
    using op log by (auto simp: l' end_status_def get_or_insert_def)
qed

theorem violation_answered_witness:
  "link_state (violation 5 (Fail 1002 [104]) (cn_link demo_open)) = Closing \<and>
   event_log (violation 5 (Fail 1002 [104]) (cn_link demo_open)) = [EvOpen 7, EvError 7 [104]]"
proof -
  have "listening (cn_link demo_open)" "event_log (cn_link demo_open) = [EvOpen 7]"
    by (simp_all add: listening_def ws_eval)
  with violation_answered [OF demo_states(2) this(1) refl, of 5 1002 "[104]"] show ?thesis by simp
qed

end
