(* ===== verification/Conn_Wake.thy ===== *)
theory Conn_Wake
  imports Conn_Msg
begin

text \<open>
  No wake-up is lost: whoever gives the writer something to do also notifies it, so a writer that waits
  with no notification pending has nothing to write.
\<close>

subsection \<open>Every operation announces its work\<close>

definition unqueued :: "link \<Rightarrow> bool" where
  "unqueued l \<longleftrightarrow> qu_items (lk_queue l) = [] \<and> qu_pong (lk_queue l) = None \<and> \<not> qu_done (lk_queue l)"

text \<open>There is nothing to do for the writer, or \<open>ready\<close> holds a permit for it.\<close>

definition awake :: "link \<Rightarrow> bool" where
  "awake l \<longleftrightarrow> lk_ready l \<or> unqueued l"

named_theorems awake_intros \<open>operations that announce their work\<close>

lemma awake_cong:
  "\<lbrakk>lk_queue l' = lk_queue l; lk_ready l' = lk_ready l\<rbrakk> \<Longrightarrow> awake l' = awake l"
  by (simp add: awake_def unqueued_def)

lemma awake_frame [simp]:
  "awake (lk_events_update f_events l) = awake l" "awake (lk_flags_update f_flags l) = awake l"
  "awake (lk_inbox_update f_inbox l) = awake l" "awake (lk_consumed_update f_consumed l) = awake l"
  "awake (lk_drained_update f_drained l) = awake l" "awake (lk_changed_update f_changed l) = awake l"
  "awake (lk_written_update f_written l) = awake l" "awake (lk_received_update f_received l) = awake l"
  "awake (lk_io_update f_io l) = awake l" "awake (lk_protocol_update f_protocol l) = awake l"
  "awake (lk_sent_update f_sent l) = awake l" "awake (lk_drawn_update f_drawn l) = awake l"
  by (simp_all add: awake_def unqueued_def)

lemma awake_forget: "awake l \<Longrightarrow> awake (l\<lparr>lk_queue := (lk_queue l)\<lparr>qu_pong := None\<rparr>\<rparr>)"
  by (auto simp: awake_def unqueued_def)

lemma awake_push_frame [awake_intros]: "awake l \<Longrightarrow> awake (push_frame op payload l)"
  by (cases rule: push_frame_effect [of op payload l]) (simp_all add: awake_def unqueued_def queued_frame_def)

lemma awake_enqueue [awake_intros]: "awake l \<Longrightarrow> awake (enqueue item l)"
  by (cases item) (auto simp: awake_def unqueued_def enqueue_def Let_def)

lemma awake_push_shutdown [awake_intros]: "awake l \<Longrightarrow> awake (push_shutdown l)"
  by (simp add: push_shutdown_def awake_intros)

lemma awake_push_heartbeat [awake_intros]: "awake l \<Longrightarrow> awake (push_heartbeat cell l)"
  by (cases rule: draw_mask_effect [of l]) (simp add: push_heartbeat_def link_frame_def awake_intros)

lemma awake_finish [awake_intros]: "awake l \<Longrightarrow> awake (finish code why l)"
  by (simp add: finish_def stop_writer_def Let_def) (simp add: awake_def)

lemma awake_terminate [awake_intros]: "awake l \<Longrightarrow> awake (link_terminate l)"
  by (simp add: link_terminate_def awake_intros)

lemma awake_end [awake_intros]: "awake l \<Longrightarrow> awake (link_end l)"
  by (simp add: link_end_def awake_intros split: prod.split)

lemma awake_emit [awake_intros]: "awake l \<Longrightarrow> awake (emit e l)"
  by (cases "link_state l = Closed") (simp_all add: emit_closed emit_live Let_def awake_intros split: prod.split)

lemma awake_fail [awake_intros]: "awake l \<Longrightarrow> awake (link_fail e l)"
  by (simp add: link_fail_def awake_intros)

lemma awake_close [awake_intros]: "awake l \<Longrightarrow> awake (link_close now code why l)"
  by (cases "link_state l") (simp_all add: link_close_def awake_intros)

lemma awake_send [awake_intros]: "awake l \<Longrightarrow> awake (snd (link_send op data l))"
proof -
  assume l: "awake l"
  then have "awake (l\<lparr>lk_queue := (lk_queue l)\<lparr>qu_drain := d\<rparr>\<rparr>)" for d by (simp add: awake_def unqueued_def)
  with l show ?thesis by (simp add: link_send_def Let_def awake_intros)
qed

lemma awake_deliver [awake_intros]: "awake l \<Longrightarrow> awake (deliver n e l)"
  by (simp add: deliver_def awake_intros)

lemma awake_reply_pong [awake_intros]: "awake l \<Longrightarrow> awake (reply_pong data l)"
  using awake_push_frame [OF awake_forget, of l PONG data] by (simp add: reply_pong_def Let_def) (simp add: awake_def)

lemma awake_violation [awake_intros]: "awake l \<Longrightarrow> awake (violation now e l)"
  by (cases e) (simp add: violation_def Let_def awake_intros)

lemma awake_closing [awake_intros]: "awake l \<Longrightarrow> awake (closing now status l)"
  by (simp add: closing_def Let_def awake_intros)

lemma awake_handle [awake_intros]: "awake l \<Longrightarrow> awake (handle now m l)"
  by (cases m) (simp_all add: awake_intros)

lemma awake_dispatch: "\<lbrakk>dispatch now r l = (ok, r', l'); awake l\<rbrakk> \<Longrightarrow> awake l'"
proof (induction now r l arbitrary: ok r' l' rule: dispatch.induct)
  case (1 now r l)
  show ?case
  proof (cases "reader_message r")
    case (Pair res r1)
    consider (none) "res = Ok None" | (msg) m where "res = Ok (Some m)" | (err) e where "res = Err e"
      by (metis not_Some_eq sum.exhaust)
    then show ?thesis
    proof cases
      case none
      with 1 Pair show ?thesis by (simp add: dispatch.simps [of now r l])
    next
      case (msg m)
      show ?thesis
      proof (cases "is_close_msg m \<or> link_state (handle now m l) = Closed")
        case True
        with 1(2,3) Pair msg show ?thesis by (auto simp: dispatch.simps [of now r l] Let_def awake_intros)
      next
        case False
        with 1(2) Pair msg have "dispatch now r1 (handle now m l) = (ok, r', l')"
          by (simp add: dispatch.simps [of now r l] Let_def)
        with 1(1) [OF Pair [symmetric] msg refl refl False] 1(3) show ?thesis by (simp add: awake_intros)
      qed
    next
      case (err e)
      with 1(2,3) Pair show ?thesis by (auto simp: dispatch.simps [of now r l] awake_intros)
    qed
  qed
qed

lemma awake_read_dispatch: "\<lbrakk>read_dispatch now rg l = (rg', l'); awake l\<rbrakk> \<Longrightarrow> awake l'"
  by (auto simp: read_dispatch_def dest: awake_dispatch split: if_splits prod.splits)

lemma awake_read_top: "\<lbrakk>read_top now rg l = (res, rg', l'); awake l\<rbrakk> \<Longrightarrow> awake l'"
  by (auto simp: read_top_def Let_def awake_intros dest: awake_read_dispatch split: if_splits prod.splits)

lemma awake_heartbeat: "\<lbrakk>heartbeat now alive l = (go_on, alive', l'); awake l\<rbrakk> \<Longrightarrow> awake l'"
  by (auto simp: heartbeat_def Let_def awake_intros split: option.splits if_splits action.splits)

lemma awake_read_wake: "\<lbrakk>read_wake now wake rg l = (go_on, rg', l'); awake l\<rbrakk> \<Longrightarrow> awake l'"
  by (cases wake) (auto simp: Let_def awake_intros dest: awake_heartbeat split: if_splits option.splits prod.splits)

lemma awake_start: "\<lbrakk>link_start protocol opened l = (go_on, l'); awake l\<rbrakk> \<Longrightarrow> awake l'"
  by (auto simp: link_start_def Let_def lease_drop_def awake_intros split: if_splits prod.splits)

lemma start_closed: "link_start protocol opened l = (False, l') \<Longrightarrow> link_state l' = Closed"
  by (auto simp: link_start_def Let_def lease_drop_def split: if_splits prod.splits)

subsection \<open>The writer is never left waiting\<close>

text \<open>
  An idle writer holds nothing and is awake; and while the connection lives, its writer has not ended.
\<close>

definition wake_inv :: "conn \<Rightarrow> bool" where
  "wake_inv c \<longleftrightarrow>
     (cn_phase c = Unstarted \<longrightarrow> cn_writing c = Going) \<and>
     (cn_writing c = Idle \<longrightarrow> wr_items (cn_writer c) = [] \<and> wr_out (cn_writer c) = None \<and> awake (cn_link c)) \<and>
     (link_state (cn_link c) \<noteq> Closed \<longrightarrow> cn_writing c = Going \<or> cn_writing c = Idle)"

lemma wake_inv_link:
  assumes "wake_inv c" "evolves (cn_link c) (cn_link c')" "awake (cn_link c) \<Longrightarrow> awake (cn_link c')"
    and "cn_phase c' = Unstarted \<Longrightarrow> cn_phase c = Unstarted" "cn_writing c' = cn_writing c" "cn_writer c' = cn_writer c"
  shows "wake_inv c'"
  using assms by (auto simp: wake_inv_def evolves_def)

lemma wake_inv_ended:
  assumes "link_state (cn_link c) = Closed" "cn_writing c = Returned" "cn_phase c \<noteq> Unstarted"
  shows "wake_inv c"
  using assms by (simp add: wake_inv_def)

lemma wake_inv_write:
  assumes "cn_phase c \<noteq> Unstarted" "res = Returned \<Longrightarrow> link_state l = Closed"
    and "res = Idle \<Longrightarrow> wr_items w = [] \<and> wr_out w = None \<and> awake l"
  shows "wake_inv (after_write (res, w, l) c)"
proof -
  have "link_state (link_end l) = Closed" by (simp add: link_end_def split: prod.splits)
  with assms show ?thesis by (cases res) (auto simp: wake_inv_def after_write_def write_loop_end_def)
qed

lemma write_next_idle: "\<lbrakk>write_next shut w l = (Idle, w', l'); wr_out w = None\<rbrakk> \<Longrightarrow>
    wr_items w' = [] \<and> wr_out w' = None \<and> awake l'"
  by (auto simp: write_next_def write_take_def Let_def awake_def unqueued_def split: list.splits item.splits if_splits)

lemma write_out_idle: "write_out chunk res flushed w l \<noteq> (Idle, w', l')"
  by (auto simp: write_out_def Let_def split: option.splits prod.splits io_write.splits)

lemma conn_step_wake:
  assumes step: "conn_step c c'" and inv: "conn_inv c fs" "wake_inv c"
  shows "wake_inv c'"
proof -
  have e: "evolves (cn_link c) (cn_link c')" using conn_step_inv [OF step inv(1)] by blast
  have link: "link_inv (cn_writer c) (cn_link c) fs" using inv(1) by (simp add: conn_inv_def)
  note keep = wake_inv_link [OF inv(2) e]
  from step show ?thesis
  proof cases
    case (start opened protocol go_on l now rest)
    show ?thesis
    proof (cases go_on)
      case True
      with start show ?thesis by (simp add: wake_inv_def)
    next
      case False
      with start start_closed show ?thesis by (intro wake_inv_ended) simp_all
    qed
  next
    case (reader_top now res rg l)
    then show ?thesis by (intro keep) (auto dest: awake_read_top split: option.splits)
  next
    case (reader_wake a wake now go_on rg l)
    then show ?thesis by (intro keep) (auto dest: awake_read_wake split: if_splits)
  next
    case (reader_leave now rg l)
    then show ?thesis by (intro keep) (auto dest: awake_read_dispatch)
  next
    case (writer_next shut)
    obtain r w l where s: "write_next shut (cn_writer c) (cn_link c) = (r, w, l)" by (metis prod_cases3)
    from writer_next link show ?thesis
      unfolding writer_next(1) s using s by (intro wake_inv_write) (auto dest: write_next_idle write_next_returned)
  next
    case (writer_out chunk res flushed)
    obtain r w l where s: "write_out chunk res flushed (cn_writer c) (cn_link c) = (r, w, l)" by (metis prod_cases3)
    from writer_out show ?thesis
      unfolding writer_out(1) s using s write_out_idle write_out_returned by (intro wake_inv_write) auto
  next
    case (writer_idle work)
    then have "\<exists>r w l. write_idle work (cn_writer c) (cn_link c) = (r, w, l) \<and> r \<noteq> Returned \<and> r \<noteq> Idle" by (cases work) auto
    with writer_idle show ?thesis by (auto intro!: wake_inv_write)
  next
    case writer_stopped
    with link show ?thesis by (intro wake_inv_ended) (simp_all add: link_inv_def queue_ok_def)
  next
    case writer_hub_closed
    then show ?thesis by (intro wake_inv_ended) simp_all
  qed (use keep in \<open>auto simp: awake_intros consumed_def lease_drop_def\<close>)
qed

text \<open>So in every reachable state a waiting writer of a live connection has nothing to do, or is notified.\<close>

lemma reachable_wake:
  assumes "reachable i server config c"
  shows "wake_inv c"
proof -
  obtain ev token now rnd where ev: "list_all (\<lambda>q. \<not> is_close_event (qd_event q)) (ev_tx ev)" "length token = 8"
    and steps: "conn_steps (conn_new i server config ev token now rnd) c"
    using assms by (auto simp: reachable_def)
  have new: "conn_inv (conn_new i server config ev token now rnd) []" using ev by (intro conn_new_inv) simp_all
  from steps show ?thesis
  proof (induction rule: rtranclp_induct)
    case base
    show ?case by (simp add: wake_inv_def conn_new_def Let_def)
  next
    case (step c1 c2)
    with conn_steps_inv [OF step(1) new] show ?case by (blast intro: conn_step_wake)
  qed
qed

end
