(* ===== verification/Writer_Live.thy ===== *)
theory Writer_Live
  imports Conn_Wake
begin

text \<open>
  The writer against a transport that keeps taking bytes: it always comes to rest, with
  everything written, and a refused send is answered by a drain event.  The writer runs by the steps
  of the connection, so it goes on from its wait only when it was notified.
\<close>

subsection \<open>Running the writer\<close>

text \<open>
  One round of \<open>write_pending\<close> when every write, flush and shutdown succeeds: the next item, or the next part of
  the data being written, of which the transport takes at least one byte; \<open>extra\<close> tells how many more.
\<close>

definition writer_round :: "nat \<Rightarrow> nat \<Rightarrow> writer \<Rightarrow> link \<Rightarrow> writing \<times> writer \<times> link" where
  [ws_eval]: "writer_round extra chunk w l =
     (if wr_out w = None then write_next True w l else write_out chunk (Wrote (Suc extra)) True w l)"

text \<open>What is left to do: bytes weigh most, and an item weighs less the further it has come.\<close>

definition writer_work :: "writer \<Rightarrow> link \<Rightarrow> nat" where
  "writer_work w l =
     4 * length (backlog w l) + (if wr_out w = None then 0 else 1) + 2 * length (wr_items w) +
     3 * length (qu_items (lk_queue l)) + (case qu_pong (lk_queue l) of None \<Rightarrow> 0 | Some d \<Rightarrow> 4 * (length d + 14) + 4)"

lemma length_frame_encode_le: "length (frame_encode op payload msk) \<le> length payload + 14"
  by (cases msk) (simp_all add: frame_encode_shape frame_prefix_def Let_def)

lemma length_enqueued:
  "length (enqueue_data data items) \<le> Suc (length items)"
  "length (append_frame op payload msk items) \<le> Suc (length items)"
  by (simp_all add: enqueue_data_def append_frame_def split: item.splits)

lemma push_frame_queue:
  "length (qu_items (lk_queue (push_frame op payload l))) \<le> Suc (length (qu_items (lk_queue l))) \<and>
   qu_pong (lk_queue (push_frame op payload l)) = qu_pong (lk_queue l)"
  by (auto simp: push_frame_def link_frame_def draw_mask_def push_def enqueue_def Let_def intro: length_enqueued)

lemma push_frame_work:
  "writer_work w (push_frame op payload l) \<le> writer_work w l + 4 * (length payload + 14) + 3"
proof -
  have "length (backlog w (push_frame op payload l)) \<le> length (backlog w l) + (length payload + 14)"
    by (cases rule: push_frame_effect [of op payload l])
      (use length_frame_encode_le in \<open>auto simp: backlog_def\<close>)
  with push_frame_queue [of op payload l] show ?thesis by (auto simp: writer_work_def)
qed

lemma flush_pong_work:
  assumes "qu_pong (lk_queue l) \<noteq> None"
  shows "writer_work w (flush_pong l) < writer_work w l"
proof -
  obtain d where d: "qu_pong (lk_queue l) = Some d" using assms by auto
  let ?l = "l\<lparr>lk_queue := (lk_queue l)\<lparr>qu_pong := None\<rparr>\<rparr>"
  have forget: "writer_work w l = writer_work w ?l + 4 * (length d + 14) + 4"
    by (simp add: writer_work_def backlog_def d)
  have "flush_pong l = ?l \<or> flush_pong l = push_frame PONG d ?l" by (simp add: flush_pong_def Let_def d)
  with push_frame_work [of w PONG d ?l] forget show ?thesis by auto
qed

lemma emit_queue:
  "lk_queue (emit e l) = lk_queue l \<or> qu_items (lk_queue (emit e l)) = [] \<and> qu_pong (lk_queue (emit e l)) = None"
  by (cases "link_state l = Closed") (auto simp: emit_closed emit_live link_terminate_def finish_eq Let_def)

lemma emit_work: "writer_work w (emit e l) \<le> writer_work w l"
  using emit_queue [of e l] by (auto simp: writer_work_def backlog_def split: option.splits)

lemma write_next_work:
  assumes "write_next shut w l = (Going, w', l')" "wr_out w = None"
  shows "writer_work w' l' < writer_work w l"
proof (cases "wr_items w")
  case Nil
  let ?q = "lk_queue l"
  let ?l = "l\<lparr>lk_queue := ?q\<lparr>qu_items := []\<rparr>\<rparr>" and ?w = "w\<lparr>wr_items := qu_items ?q\<rparr>"
  have step: "w' = ?w" "l' = (if qu_pong ?q \<noteq> None then flush_pong ?l else ?l)" "qu_items ?q \<noteq> [] \<or> qu_pong ?q \<noteq> None"
    using assms Nil by (auto simp: write_next_def write_take_def Let_def split: if_splits)
  have "length (backlog ?w ?l) = length (backlog w l)"
    using Nil assms(2) by (simp add: backlog_def taken_def out_rest_def)
  then have swap: "writer_work ?w ?l + length (qu_items ?q) = writer_work w l"
    using Nil by (simp add: writer_work_def assms(2) split: option.splits)
  show ?thesis
  proof (cases "qu_pong ?q = None")
    case True
    with step(3) have "0 < length (qu_items ?q)" by simp
    with swap have "writer_work ?w ?l < writer_work w l" by linarith
    with step True show ?thesis by simp
  next
    case False
    then have "writer_work ?w (flush_pong ?l) < writer_work ?w ?l" by (intro flush_pong_work) simp
    with step False swap show ?thesis by simp
  qed
next
  case (Cons x items)
  with assms show ?thesis
    by (cases x) (auto simp: write_next_def writer_work_def backlog_def taken_def out_rest_def split: if_splits)
qed

lemma progress_work:
  assumes "length (backlog w' l) < length (backlog w l)" "wr_items w' = wr_items w" "wr_out w \<noteq> None"
  shows "writer_work w' (progress n l) < writer_work w l"
proof -
  have q: "qu_items (lk_queue (progressed n l)) = qu_items (lk_queue l)"
    "qu_pong (lk_queue (progressed n l)) = qu_pong (lk_queue l)"
    by (simp_all add: progressed_def Let_def)
  have "writer_work w' (progressed n l) < writer_work w l"
    using assms q by (simp add: writer_work_def backlog_def split: option.splits)
  with progress_eq [of n l] emit_work [of w' "EvDrain (lk_id l)" "progressed n l"] show ?thesis by auto
qed

lemma write_out_work:
  assumes "write_out chunk (Wrote (Suc k)) True w l = (Going, w', l')" "wr_out w \<noteq> None"
  shows "writer_work w' l' < writer_work w l"
proof -
  obtain data at sent where out: "wr_out w = Some (data, at, sent)" using assms(2) by (auto simp: prod_eq_iff)
  show ?thesis
  proof (cases "at < length data")
    case False
    with assms out show ?thesis
      by (auto simp: write_out_def writer_work_def backlog_def taken_def out_rest_def split: option.splits)
  next
    case True
    define n where "n = min (Suc k) (min (length data) (at + chunk) - at)"
    have n: "n \<noteq> 0" and w': "wr_out w' = Some (data, at + n, sent)" "wr_items w' = wr_items w"
      and l': "l' = progress n l \<or> (\<exists>c. l' = (progress n l)\<lparr>lk_sent := c, lk_changed := True\<rparr>)"
      using assms(1) out True by (auto simp: write_out_def Let_def n_def split: if_splits option.splits)
    have "length (backlog w' l) < length (backlog w l)"
      using n w' True out by (simp add: backlog_def taken_def out_rest_def)
    from progress_work [OF this w'(2) assms(2), of n] l' show ?thesis by (auto simp: writer_work_def)
  qed
qed

lemma writer_round_work:
  assumes "writer_round extra chunk w l = (Going, w', l')"
  shows "writer_work w' l' < writer_work w l"
proof (cases "wr_out w = None")
  case True
  with assms show ?thesis by (intro write_next_work [of True]) (simp_all add: writer_round_def)
next
  case False
  with assms show ?thesis by (intro write_out_work [of chunk extra]) (simp_all add: writer_round_def)
qed

text \<open>
  The writer goes on while it is not waiting, or its wait is over; each time by one step of the connection.  How many
  bytes the transport takes depends on the whole state, so it may be different in every round.
\<close>

definition writer_can :: "conn \<Rightarrow> bool" where
  [ws_eval]: "writer_can c \<longleftrightarrow> cn_writing c = Going \<or> cn_writing c = Idle \<and> lk_ready (cn_link c)"

definition writer_act :: "(conn \<Rightarrow> nat) \<Rightarrow> nat \<Rightarrow> conn \<Rightarrow> conn" where
  [ws_eval]: "writer_act accept chunk c =
     after_write (if cn_writing c = Idle then write_idle WorkReady (cn_writer c) (cn_link c)
                  else writer_round (accept c) chunk (cn_writer c) (cn_link c)) c"

definition conn_work :: "conn \<Rightarrow> nat" where
  "conn_work c = writer_work (cn_writer c) (cn_link c)"

lemma write_next_idle_work:
  "\<lbrakk>write_next shut w l = (Idle, w', l'); wr_out w = None\<rbrakk> \<Longrightarrow> writer_work w' l' = writer_work w l \<and> lk_ready l' = lk_ready l"
  by (auto simp: write_next_def write_take_def Let_def writer_work_def backlog_def taken_def out_rest_def
      split: list.splits item.splits if_splits)

lemma writer_act_decreases:
  assumes "writer_can c"
  shows "(writer_act accept chunk c, c) \<in> measures [\<lambda>c. if cn_writing c \<in> {Going, Idle} then 1 else 0, conn_work,
    \<lambda>c. if lk_ready (cn_link c) then 1 else 0, \<lambda>c. if cn_writing c = Going then 1 else 0]"
proof (cases "cn_writing c = Idle")
  case True
  with assms show ?thesis
    by (auto simp: writer_can_def writer_act_def after_write_def write_loop_end_def conn_work_def writer_work_def backlog_def
        split: option.splits)
next
  case False
  then have going: "cn_writing c = Going" using assms by (simp add: writer_can_def)
  obtain res w l where r: "writer_round (accept c) chunk (cn_writer c) (cn_link c) = (res, w, l)" by (metis prod_cases3)
  then have act: "cn_writing (writer_act accept chunk c) = res" using False by (simp add: writer_act_def after_write_def)
  have kept: "cn_writer (writer_act accept chunk c) = w \<and> cn_link (writer_act accept chunk c) = l" if "res \<in> {Going, Idle}"
    using False r that by (auto simp: writer_act_def after_write_def write_loop_end_def)
  have idle: "conn_work (writer_act accept chunk c) = conn_work c \<and> lk_ready l = lk_ready (cn_link c)" if "res = Idle"
    using r that kept write_next_idle_work write_out_idle
    by (auto simp: writer_round_def conn_work_def split: if_splits)
  have "conn_work (writer_act accept chunk c) < conn_work c" if "res = Going"
    using writer_round_work [of "accept c" chunk "cn_writer c" "cn_link c" w l] r that kept by (simp add: conn_work_def)
  then show ?thesis using going act idle kept by (cases res) auto
qed

function writer_run :: "(conn \<Rightarrow> nat) \<Rightarrow> nat \<Rightarrow> conn \<Rightarrow> conn" where
  "writer_run accept chunk c = (if writer_can c then writer_run accept chunk (writer_act accept chunk c) else c)"
  by pat_completeness auto
termination
  by (relation "inv_image (measures [\<lambda>c. if cn_writing c \<in> {Going, Idle} then 1 else 0, conn_work,
      \<lambda>c. if lk_ready (cn_link c) then 1 else 0, \<lambda>c. if cn_writing c = Going then 1 else 0]) (snd \<circ> snd)")
    (use writer_act_decreases in \<open>auto simp: comp_def simp del: measures_less in_measures\<close>)

declare writer_run.simps [simp del]

subsection \<open>It flushes everything\<close>

text \<open>A live connection of a live hub.\<close>

definition hub_alive :: "link \<Rightarrow> bool" where
  "hub_alive l \<longleftrightarrow> link_state l \<noteq> Closed \<and> ev_rx (lk_events l) \<and> \<not> ev_closed (lk_events l)"

lemma emit_alive:
  assumes "hub_alive l"
  shows "hub_alive (emit e l) \<and> event_log (emit e l) = event_log l @ [e] \<and> lk_queue (emit e l) = lk_queue l \<and>
    lk_id (emit e l) = lk_id l"
  using assms by (simp add: hub_alive_def emit_live events_send_def events_send_pending_def Let_def is_close_event.simps)

text \<open>What a round of the writer may do to the events: nothing, or answer the drain request.\<close>

definition answers :: "link \<Rightarrow> link \<Rightarrow> bool" where
  "answers l l' \<longleftrightarrow> hub_alive l' \<and> lk_id l' = lk_id l \<and>
     (\<exists>es. event_log l' = event_log l @ es \<and>
        (qu_drain (lk_queue l') = qu_drain (lk_queue l) \<or> EvDrain (lk_id l) \<in> set es))"

lemma answers_trans: "\<lbrakk>answers l l'; answers l' l''\<rbrakk> \<Longrightarrow> answers l l''"
  unfolding answers_def by (elim conjE exE, intro conjI) (auto intro: exI [of _ "_ @ _"])

lemma answers_refl: "hub_alive l \<Longrightarrow> answers l l"
  by (simp add: answers_def)

lemma flush_pong_answers:
  assumes "hub_alive l"
  shows "answers l (flush_pong l)"
  using assms by (simp add: answers_def flush_pong_def hub_alive_def Let_def split: option.splits)

lemma progress_answers:
  assumes "hub_alive l"
  shows "answers l (progress n l)"
proof -
  have p: "hub_alive (progressed n l)" "lk_id (progressed n l) = lk_id l" "event_log (progressed n l) = event_log l"
    using assms by (simp_all add: hub_alive_def progressed_def Let_def)
  let ?left = "wrapping_sub (lk_buffered l) n"
  let ?drain = "case qu_drain (lk_queue l) of None \<Rightarrow> False
    | Some len \<Rightarrow> ?left = 0 \<or> saturating_add ?left len \<le> lk_buffer l"
  show ?thesis
  proof (cases ?drain)
    case True
    then have "progress n l = emit (EvDrain (lk_id l)) (progressed n l)"
      by (simp add: progress_def progressed_def Let_def)
    with emit_alive [OF p(1), of "EvDrain (lk_id l)"] p show ?thesis by (simp add: answers_def)
  next
    case False
    then have "progress n l = progressed n l" "qu_drain (lk_queue (progressed n l)) = qu_drain (lk_queue l)"
      by (simp_all add: progress_def progressed_def Let_def)
    with p show ?thesis by (simp add: answers_def)
  qed
qed

lemma writer_round_live:
  assumes inv: "link_inv w l fs" and live: "hub_alive l" and chunk: "0 < chunk"
    and run: "writer_round extra chunk w l = (res, w', l')"
  shows "(\<exists>gs. link_inv w' l' (fs @ gs)) \<and> answers l l' \<and>
    (res = Going \<or> res = Idle \<and> backlog w' l' = [])"
proof (cases "wr_out w")
  case None
  then have next_step: "write_next True w l = (res, w', l')" using run by (simp add: writer_round_def)
  have "\<not> qu_done (lk_queue l)" using inv live by (simp add: link_inv_def queue_ok_def hub_alive_def)
  then have "answers l l' \<and> (res = Going \<or> res = Idle \<and> backlog w' l' = [])"
  proof (cases "wr_items w")
    case Nil
    let ?l = "l\<lparr>lk_queue := (lk_queue l)\<lparr>qu_items := []\<rparr>\<rparr>"
    have l: "answers l ?l" "hub_alive ?l" using live by (simp_all add: answers_def hub_alive_def)
    have "l' = ?l \<and> res = Idle \<and> backlog w' l' = [] \<or> (l' = ?l \<or> l' = flush_pong ?l) \<and> res = Going"
      using next_step Nil None \<open>\<not> qu_done (lk_queue l)\<close>
      by (auto simp: write_next_def write_take_def Let_def backlog_def taken_def out_rest_def split: if_splits)
    then show ?thesis using l answers_trans [OF l(1) flush_pong_answers [OF l(2)]] by auto
  next
    case (Cons x items)
    with next_step live show ?thesis
      by (cases x) (auto simp: write_next_def answers_def hub_alive_def)
  qed
  with write_next_inv [OF inv None next_step] show ?thesis by blast
next
  case (Some x)
  obtain data at sent where x: "x = (data, at, sent)" by (cases x)
  have out_step: "write_out chunk (Wrote (Suc extra)) True w l = (res, w', l')"
    using run Some by (simp add: writer_round_def)
  have "res = Going \<and> (l' = l \<or> (\<exists>n. l' = progress n l \<or> (\<exists>c. l' = (progress n l)\<lparr>lk_sent := c, lk_changed := True\<rparr>)))"
    using out_step Some x chunk by (auto simp: write_out_def Let_def split: if_splits option.splits)
  moreover have "answers l l \<and> answers l (progress n l) \<and> answers l ((progress n l)\<lparr>lk_sent := c, lk_changed := True\<rparr>)" for n c
    using progress_answers [OF live, of n] live by (simp add: answers_def hub_alive_def)
  ultimately show ?thesis using write_out_inv [OF inv out_step] by auto
qed

lemma writer_act_step:
  assumes "writer_can c" "cn_phase c \<noteq> Unstarted"
  shows "conn_step c (writer_act accept chunk c) \<and> cn_phase (writer_act accept chunk c) = cn_phase c"
proof -
  have "cn_phase (after_write r c) = cn_phase c" for r by (simp add: after_write_def split: prod.split)
  moreover have "conn_step c (writer_act accept chunk c)"
  proof (cases "cn_writing c = Idle")
    case True
    with assms conn_step.writer_idle [of c WorkReady] show ?thesis by (simp add: writer_can_def writer_act_def)
  next
    case False
    then have "cn_writing c = Going" using assms by (simp add: writer_can_def)
    with False assms(2) show ?thesis
      by (simp add: writer_act_def writer_round_def conn_step.writer_next conn_step.writer_out)
  qed
  ultimately show ?thesis by (simp add: writer_act_def)
qed

lemma writer_act_answers:
  assumes "reachable i server config c" "hub_alive (cn_link c)" "0 < chunk" "writer_can c"
  shows "answers (cn_link c) (cn_link (writer_act accept chunk c))"
proof (cases "cn_writing c = Idle")
  case True
  with assms(2) show ?thesis by (simp add: writer_act_def after_write_def write_loop_end_def answers_def hub_alive_def)
next
  case False
  obtain fs where "link_inv (cn_writer c) (cn_link c) fs" using reachable_inv [OF assms(1)] by (auto simp: conn_inv_def)
  moreover obtain res w l where r: "writer_round (accept c) chunk (cn_writer c) (cn_link c) = (res, w, l)" by (metis prod_cases3)
  ultimately have "answers (cn_link c) l" "res \<noteq> Failed" using writer_round_live assms(2,3) by blast+
  with False r show ?thesis by (simp add: writer_act_def after_write_def write_loop_end_def)
qed

lemma writer_run_live:
  "\<lbrakk>reachable i server config c; cn_phase c \<noteq> Unstarted; hub_alive (cn_link c); 0 < chunk\<rbrakk> \<Longrightarrow>
     conn_steps c (writer_run accept chunk c) \<and> answers (cn_link c) (cn_link (writer_run accept chunk c)) \<and>
     \<not> writer_can (writer_run accept chunk c)"
proof (induction accept chunk c rule: writer_run.induct)
  case (1 accept chunk c)
  let ?c = "writer_act accept chunk c"
  show ?case
  proof (cases "writer_can c")
    case False
    with 1(4) show ?thesis by (simp add: writer_run.simps [of accept chunk c] answers_refl)
  next
    case True
    note step = writer_act_step [OF True 1(3), of accept chunk] and a = writer_act_answers [OF 1(2,4,5) True, of accept]
    have "conn_steps ?c (writer_run accept chunk ?c) \<and> answers (cn_link ?c) (cn_link (writer_run accept chunk ?c)) \<and>
      \<not> writer_can (writer_run accept chunk ?c)"
    proof (rule 1(1) [OF True _ _ _ 1(5)])
      show "reachable i server config ?c" using reachable_steps [OF 1(2)] step by blast
      show "cn_phase ?c \<noteq> Unstarted" using step 1(3) by simp
      show "hub_alive (cn_link ?c)" using a by (simp add: answers_def)
    qed
    with True step a show ?thesis
      by (auto simp: writer_run.simps [of accept chunk c] intro: answers_trans converse_rtranclp_into_rtranclp)
  qed
qed

text \<open>
  C21: The writer always comes to rest and leaves nothing behind.  From every reachable state of a started
  connection that lives, with a live hub, suppose that the transport from then on takes at least one byte of every
  write, and that flushes and shutdowns succeed.  Then the writer's own steps, which leave the wait for work
  only on a notification, end after finitely many with the writer waiting: everything that was
  queued is on the wire, in order, nothing is buffered, and if a send had been
  refused, the application has been told by a drain event that it may send again.
\<close>

theorem writer_flushes:
  assumes "reachable i server config c" "cn_phase c \<noteq> Unstarted" "hub_alive (cn_link c)" "0 < chunk"
  shows "\<exists>c' es. writer_run accept chunk c = c' \<and> conn_steps c c' \<and> cn_writing c' = Idle \<and> \<not> lk_ready (cn_link c') \<and>
    prefix (wr_wire (cn_writer c) @ backlog (cn_writer c) (cn_link c)) (wr_wire (cn_writer c')) \<and>
    backlog (cn_writer c') (cn_link c') = [] \<and> link_buffered (cn_link c') = 0 \<and>
    event_log (cn_link c') = event_log (cn_link c) @ es \<and>
    (qu_drain (lk_queue (cn_link c)) \<noteq> None \<longrightarrow> EvDrain i \<in> set es \<and> qu_drain (lk_queue (cn_link c')) = None)"
proof -
  define c' where "c' = writer_run accept chunk c"
  have run: "conn_steps c c'" "answers (cn_link c) (cn_link c')" "\<not> writer_can c'"
    using writer_run_live [OF assms] by (simp_all add: c'_def)
  obtain fs where inv: "conn_inv c fs" "lk_id (cn_link c) = i" using assms(1) by (rule reachable_inv)
  from conn_steps_inv [OF run(1) inv(1)] obtain gs where
    l: "link_inv (cn_writer c') (cn_link c') (fs @ gs)" by (auto simp: conn_inv_def)
  have "hub_alive (cn_link c')" using run(2) by (simp add: answers_def)
  then have rest: "cn_writing c' = Idle" "\<not> lk_ready (cn_link c')" "backlog (cn_writer c') (cn_link c') = []"
    using reachable_wake [OF reachable_steps [OF assms(1) run(1)]] run(3)
    by (auto simp: wake_inv_def awake_def unqueued_def hub_alive_def writer_can_def backlog_def taken_def out_rest_def)
  have live: "\<not> qu_done (lk_queue (cn_link c'))" "\<not> qu_done (lk_queue (cn_link c))"
    using \<open>hub_alive (cn_link c')\<close> l inv assms(3) by (simp_all add: hub_alive_def conn_inv_def link_inv_def queue_ok_def)
  have out: "wr_wire (cn_writer c) @ backlog (cn_writer c) (cn_link c) = wire_of fs" "wr_wire (cn_writer c') = wire_of (fs @ gs)"
    "lk_buffered (cn_link c') = 0" "qu_drain (lk_queue (cn_link c')) = None"
    using l inv live rest by (auto simp: conn_inv_def link_inv_def out_inv_def)
  obtain es where "event_log (cn_link c') = event_log (cn_link c) @ es"
    "qu_drain (lk_queue (cn_link c')) = qu_drain (lk_queue (cn_link c)) \<or> EvDrain i \<in> set es"
    using run(2) inv(2) by (auto simp: answers_def)
  with run(1) rest out c'_def show ?thesis by (auto simp: link_buffered_def)
qed

theorem writer_flushes_witness:
  "qu_drain (lk_queue (cn_link demo_full)) = Some 8 \<and>
   (\<exists>c' es. writer_run (\<lambda>_. 0) 3 demo_full = c' \<and> conn_steps demo_full c' \<and> backlog (cn_writer c') (cn_link c') = [] \<and>
      event_log (cn_link c') = event_log (cn_link demo_full) @ es \<and> EvDrain 7 \<in> set es)"
proof -
  have "hub_alive (cn_link demo_full)" "cn_phase demo_full \<noteq> Unstarted" "qu_drain (lk_queue (cn_link demo_full)) = Some 8"
    by (simp_all add: hub_alive_def ws_eval)
  with writer_flushes [OF demo_states(4) this(2,1), of 3 "\<lambda>_. 0"] show ?thesis by auto
qed

end
