(* ===== verification/Heartbeat_Spec.thy ===== *)
theory Heartbeat_Spec
  imports Link_Run
begin

text \<open>
  The heartbeat check and the deadline the reader sleeps until agree: the check acts exactly
  from the deadline on, so a wake-up is neither early nor missed, and after a probe the next
  deadline lies a whole interval ahead.
\<close>

text \<open>A probe is outstanding until the peer has been heard of after its transmission.\<close>

definition unanswered :: "alive \<Rightarrow> link \<Rightarrow> bool" where
  "unanswered alive l \<longleftrightarrow>
     (case al_ping alive of
        None \<Rightarrow> False
      | Some p \<Rightarrow>
          (case lk_sent l ! pr_sent p of None \<Rightarrow> True | Some sent \<Rightarrow> link_seen l (al_seen alive) \<le> sent))"

definition probed :: "nat \<Rightarrow> alive \<Rightarrow> link \<Rightarrow> alive \<times> link" where
  "probed now alive l =
     (alive\<lparr>al_seen := link_seen l (al_seen alive), al_ping := Some \<lparr>pr_queued = now, pr_sent = length (lk_sent l)\<rparr>\<rparr>,
      push_heartbeat (length (lk_sent l)) (l\<lparr>lk_sent := lk_sent l @ [None]\<rparr>))"

lemma deadline_Some:
  assumes "heartbeat_deadline alive l = Some t" "lk_heartbeat l = Some k"
  shows "t = (case al_ping alive of
      None \<Rightarrow> link_seen l (al_seen alive)
    | Some p \<Rightarrow>
        (case lk_sent l ! pr_sent p of
           Some sent \<Rightarrow> if link_seen l (al_seen alive) \<le> sent then sent else link_seen l (al_seen alive)
         | None \<Rightarrow> max (max (link_seen l (al_seen alive)) (link_written l)) (pr_queued p))) + k"
  using assms by (simp add: heartbeat_deadline_def instant_checked_add_def Let_def split: if_splits)

lemma waited_iff: "0 < k \<Longrightarrow> k \<le> now - x \<longleftrightarrow> x + k \<le> (now :: nat)"
  by linarith

lemma heartbeat_at:
  assumes "lk_heartbeat l = Some k" "0 < k" "link_state l = Open" "heartbeat_deadline alive l = Some t"
  shows "heartbeat now alive l =
    (let alive' = alive\<lparr>al_seen := link_seen l (al_seen alive)\<rparr> in
     if now < t then (True, alive', l)
     else if unanswered alive l then (False, alive', link_fail (str ''heartbeat timed out'') l)
     else (True, probed now alive l))"
proof (cases "al_ping alive")
  case None
  with deadline_Some [OF assms(4,1)] have "t = link_seen l (al_seen alive) + k" by simp
  with None assms show ?thesis
    by (simp add: heartbeat_def decide_def Let_def unanswered_def probed_def waited_iff)
next
  case (Some p)
  show ?thesis
  proof (cases "lk_sent l ! pr_sent p")
    case None
    with Some deadline_Some [OF assms(4,1)]
    have t: "t = max (max (link_seen l (al_seen alive)) (link_written l)) (pr_queued p) + k" by simp
    have "now - max (max (link_seen l (al_seen alive)) (link_written l)) (pr_queued p) < k \<longleftrightarrow> now < t"
      unfolding t using waited_iff [OF assms(2)] by (metis not_le)
    with Some None assms show ?thesis by (simp add: heartbeat_def Let_def unanswered_def)
  next
    case sent: (Some s)
    with Some deadline_Some [OF assms(4,1)]
    have "t = (if link_seen l (al_seen alive) \<le> s then s else link_seen l (al_seen alive)) + k" by simp
    with Some sent assms show ?thesis
      by (simp add: heartbeat_def decide_def Let_def unanswered_def probed_def waited_iff)
  qed
qed

lemma push_heartbeat_keeps:
  "lk_sent (push_heartbeat c l) = lk_sent l" "lk_heartbeat (push_heartbeat c l) = lk_heartbeat l"
  "lk_written (push_heartbeat c l) = lk_written l" "lk_received (push_heartbeat c l) = lk_received l"
  "lk_born (push_heartbeat c l) = lk_born l"
  by (simp_all add: push_heartbeat_def link_frame_def draw_mask_def enqueue_def Let_def)

text \<open>
  C20: The heartbeat acts exactly from the deadline on that the reader computed: before it
  nothing happens, and from it on a peer with an outstanding probe is dropped and any other
  peer is probed, with the next deadline at least one interval later.
\<close>

theorem heartbeat_deadline_exact:
  assumes "lk_heartbeat l = Some k" "0 < k" "link_state l = Open" "heartbeat_deadline alive l = Some t"
    and "heartbeat now alive l = (go_on, alive', l')"
  shows "(now < t \<longrightarrow> go_on \<and> l' = l \<and> heartbeat_deadline alive' l' = Some t) \<and>
    (t \<le> now \<and> unanswered alive l \<longrightarrow> \<not> go_on \<and> link_state l' = Closed) \<and>
    (t \<le> now \<and> \<not> unanswered alive l \<longrightarrow> go_on \<and> (alive', l') = probed now alive l \<and>
       (\<forall>t'. heartbeat_deadline alive' l' = Some t' \<longrightarrow> now + k \<le> t'))"
proof -
  note at = heartbeat_at [OF assms(1-4), of now]
  have again: "heartbeat_deadline (alive\<lparr>al_seen := link_seen l (al_seen alive)\<rparr>) l = heartbeat_deadline alive l"
  proof -
    have "link_seen l (link_seen l s) = link_seen l s" for s by (simp add: link_seen_def)
    then show ?thesis by (simp add: heartbeat_deadline_def Let_def assms(1) split: option.split)
  qed
  have late: "now + k \<le> t'"
    if "heartbeat_deadline alive' l' = Some t'" "(alive', l') = probed now alive l" for t'
  proof -
    have "lk_heartbeat l' = Some k" "lk_sent l' = lk_sent l @ [None]"
      using that(2) assms(1) by (simp_all add: probed_def push_heartbeat_keeps)
    moreover have "al_ping alive' = Some \<lparr>pr_queued = now, pr_sent = length (lk_sent l)\<rparr>"
      using that(2) by (simp add: probed_def)
    ultimately show ?thesis using deadline_Some [OF that(1)] by simp
  qed
  have "link_state (link_fail e l) = Closed" for e by (simp add: link_fail_def)
  with at assms(5) late again assms(4) show ?thesis
    by (auto simp: Let_def)
qed

definition beating :: link where
  "beating = snd (link_start None (EvOpen 1) (link_new 1 True \<lparr>cf_message = 10, cf_buffer = 10, cf_heartbeat = Some 30\<rparr>
     \<lparr>ev_tx = [], ev_rx = True, ev_permit = None, ev_closed = False\<rparr> [1] 100 (\<lambda>_. (0, 0, 0, 0))))"

theorem heartbeat_deadline_exact_witness:
  "heartbeat_deadline (alive_new 100) beating = Some 130 \<and>
   (case heartbeat 129 (alive_new 100) beating of (go_on, alive', l') \<Rightarrow> go_on \<and> l' = beating) \<and>
   (case heartbeat 130 (alive_new 100) beating of (go_on, alive', l') \<Rightarrow> (alive', l') = probed 130 (alive_new 100) beating)"
proof -
  have d: "heartbeat_deadline (alive_new 100) beating = Some 130" and h: "lk_heartbeat beating = Some 30" "0 < (30::nat)"
    "link_state beating = Open" and u: "\<not> unanswered (alive_new 100) beating"
    by (simp_all add: beating_def unanswered_def ws_eval)
  obtain g a l where 1: "heartbeat 129 (alive_new 100) beating = (g, a, l)" by (metis prod_cases3)
  obtain g' a' l' where 2: "heartbeat 130 (alive_new 100) beating = (g', a', l')" by (metis prod_cases3)
  from heartbeat_deadline_exact [OF h d 1] heartbeat_deadline_exact [OF h d 2] u d show ?thesis by (simp add: 1 2)
qed

end
