(* ===== verification/Ipv6.thy ===== *)
theory Ipv6
  imports Rust_Str
begin

text \<open>
  \<open>str::parse::<Ipv6Addr>\<close> of the standard library, as the recogniser the sources use
  (only \<open>is_ok\<close> matters to them): groups of up to four hexadecimal digits, one optional
  \<open>::\<close>, and an optional IPv4 tail.  A reader returns the rest of the input, or \<open>None\<close>
  with nothing consumed.
\<close>

definition to_digit :: "nat \<Rightarrow> byte \<Rightarrow> nat option" where
  [ws_eval]: "to_digit radix b =
     (let d = (if is_ascii_digit b then unat b - 0x30
               else let l = unat (lower_byte b) in if 0x61 \<le> l \<and> l \<le> 0x7A then l - 0x61 + 10 else radix)
      in if d < radix then Some d else None)"

text \<open>
  The digits of a number (\<open>read_number\<close> with \<open>max_digits\<close>): value, digit count and rest;
  \<open>None\<close> when there are too many.
\<close>

fun read_digits :: "nat \<Rightarrow> nat \<Rightarrow> nat \<Rightarrow> nat \<Rightarrow> bytes \<Rightarrow> (nat \<times> nat \<times> bytes) option" where
  "read_digits radix mx v n [] = Some (v, n, [])"
| "read_digits radix mx v n (b # s) =
     (case to_digit radix b of
        None \<Rightarrow> Some (v, n, b # s)
      | Some d \<Rightarrow> if Suc n > mx then None else read_digits radix mx (v * radix + d) (Suc n) s)"

definition read_number :: "nat \<Rightarrow> nat \<Rightarrow> nat \<Rightarrow> bool \<Rightarrow> bytes \<Rightarrow> bytes option" where
  [ws_eval]: "read_number radix mx bound allow_zero_prefix s =
     (case read_digits radix mx 0 0 s of None \<Rightarrow> None | Some (v, n, rest) \<Rightarrow>
      if n = 0 \<or> v \<ge> bound then None
      else if \<not> allow_zero_prefix \<and> take 1 s = [0x30] \<and> n > 1 then None
      else Some rest)"

definition read_separator :: "byte \<Rightarrow> nat \<Rightarrow> (bytes \<Rightarrow> bytes option) \<Rightarrow> bytes \<Rightarrow> bytes option" where
  [ws_eval]: "read_separator sep i inner s =
     (if i > 0 then case s of [] \<Rightarrow> None | c # t \<Rightarrow> if c = sep then inner t else None else inner s)"

definition read_octet :: "nat \<Rightarrow> bytes \<Rightarrow> bytes option" where
  [ws_eval]: "read_octet i s = read_separator 0x2E i (read_number 10 3 256 False) s"

definition read_ipv4_addr :: "bytes \<Rightarrow> bytes option" where
  [ws_eval]: "read_ipv4_addr s =
     (case read_octet 0 s of None \<Rightarrow> None | Some s \<Rightarrow>
      case read_octet 1 s of None \<Rightarrow> None | Some s \<Rightarrow>
      case read_octet 2 s of None \<Rightarrow> None | Some s \<Rightarrow> read_octet 3 s)"

text \<open>\<open>read_groups\<close> from index \<open>i\<close>, with \<open>left\<close> groups to go.\<close>

fun read_groups :: "nat \<Rightarrow> nat \<Rightarrow> bytes \<Rightarrow> nat \<times> bool \<times> bytes" where
  "read_groups 0 i s = (i, False, s)"
| "read_groups (Suc left) i s =
     (case (if left > 0 then read_separator 0x3A i read_ipv4_addr s else None) of
        Some t \<Rightarrow> (i + 2, True, t)
      | None \<Rightarrow>
          (case read_separator 0x3A i (read_number 16 4 65536 True) s of
             None \<Rightarrow> (i, False, s)
           | Some t \<Rightarrow> read_groups left (Suc i) t))"

definition read_ipv6_addr :: "bytes \<Rightarrow> bytes option" where
  [ws_eval]: "read_ipv6_addr s =
     (case read_groups 8 0 s of (head_size, head_ipv4, t) \<Rightarrow>
      if head_size = 8 then Some t
      else if head_ipv4 then None
      else case strip_prefix [0x3A, 0x3A] t of None \<Rightarrow> None | Some t \<Rightarrow>
        (case read_groups (8 - (head_size + 1)) 0 t of (_, _, rest) \<Rightarrow> Some rest))"

definition is_ipv6 :: "bytes \<Rightarrow> bool" where
  [ws_eval]: "is_ipv6 s \<longleftrightarrow> read_ipv6_addr s = Some []"

subsection \<open>Letter case does not matter\<close>

lemma to_digit_lower [simp]: "to_digit radix (lower_byte b) = to_digit radix b"
  by (auto simp: to_digit_def is_ascii_digit_nat unat_lower_byte)

lemma lower_byte_eq_punct: "unat c < 0x41 \<Longrightarrow> lower_byte b = c \<longleftrightarrow> b = c"
  by (auto simp: byte_eq_iff unat_lower_byte)

lemma to_ascii_lowercase_simps [simp]:
  "to_ascii_lowercase [] = []" "to_ascii_lowercase (b # s) = lower_byte b # to_ascii_lowercase s"
  "to_ascii_lowercase s = [] \<longleftrightarrow> s = []"
  by (simp_all add: to_ascii_lowercase_def)

lemma read_digits_lower:
  "read_digits radix mx v n (to_ascii_lowercase s) =
     map_option (\<lambda>(v, n, t). (v, n, to_ascii_lowercase t)) (read_digits radix mx v n s)"
  by (induction radix mx v n s rule: read_digits.induct) (auto split: option.splits)

lemma read_number_lower:
  "read_number radix mx bound z (to_ascii_lowercase s) = map_option to_ascii_lowercase (read_number radix mx bound z s)"
proof -
  have "take 1 (to_ascii_lowercase s) = [0x30] \<longleftrightarrow> take 1 s = [0x30]"
    by (cases s) (simp_all add: lower_byte_eq_punct)
  then show ?thesis
    by (auto simp: read_number_def read_digits_lower split: option.splits)
qed

lemma read_separator_lower:
  assumes "\<And>t. inner (to_ascii_lowercase t) = map_option to_ascii_lowercase (inner t)" "unat sep < 0x41"
  shows "read_separator sep i inner (to_ascii_lowercase s) = map_option to_ascii_lowercase (read_separator sep i inner s)"
proof (cases "i = 0")
  case True
  then show ?thesis by (simp add: read_separator_def assms)
next
  case False
  then show ?thesis by (cases s) (simp_all add: read_separator_def assms lower_byte_eq_punct)
qed

lemma read_octet_lower: "read_octet i (to_ascii_lowercase s) = map_option to_ascii_lowercase (read_octet i s)"
  unfolding read_octet_def by (rule read_separator_lower) (simp_all add: read_number_lower)

lemma read_ipv4_addr_lower:
  "read_ipv4_addr (to_ascii_lowercase s) = map_option to_ascii_lowercase (read_ipv4_addr s)"
  by (simp add: read_ipv4_addr_def read_octet_lower split: option.splits)

lemma read_groups_lower:
  "read_groups left i (to_ascii_lowercase s) = (case read_groups left i s of (n, v4, t) \<Rightarrow> (n, v4, to_ascii_lowercase t))"
proof (induction left i s rule: read_groups.induct)
  case (2 left i s)
  have 4: "read_separator 0x3A i read_ipv4_addr (to_ascii_lowercase s)
      = map_option to_ascii_lowercase (read_separator 0x3A i read_ipv4_addr s)"
    by (rule read_separator_lower) (simp_all add: read_ipv4_addr_lower)
  have 6: "read_separator 0x3A i (read_number 16 4 65536 True) (to_ascii_lowercase s)
      = map_option to_ascii_lowercase (read_separator 0x3A i (read_number 16 4 65536 True) s)"
    by (rule read_separator_lower) (simp_all add: read_number_lower)
  show ?case using 2 by (auto simp: 4 6 split: option.splits)
qed simp

lemma is_ipv6_lower: "is_ipv6 (to_ascii_lowercase s) = is_ipv6 s"
proof -
  have "strip_prefix [0x3A, 0x3A] (to_ascii_lowercase t) = map_option to_ascii_lowercase (strip_prefix [0x3A, 0x3A] t)" for t
    by (cases t rule: remdups_adj.cases) (auto simp: strip_prefix_def lower_byte_eq_punct)
  then show ?thesis
    by (auto simp: is_ipv6_def read_ipv6_addr_def read_groups_lower split: prod.splits option.splits)
qed

subsection \<open>An address contains a colon\<close>

lemma read_digits_rest: "read_digits radix mx v n s = Some (v', n', t) \<Longrightarrow> set t \<subseteq> set s"
  by (induction radix mx v n s rule: read_digits.induct) (auto split: option.splits if_splits)

lemma read_number_rest: "read_number radix mx bound z s = Some t \<Longrightarrow> set t \<subseteq> set s"
  by (auto simp: read_number_def dest: read_digits_rest [THEN subsetD] split: option.splits if_splits)

lemma read_separator_first: "\<lbrakk>read_separator sep i inner s = Some t; 0 < i\<rbrakk> \<Longrightarrow> sep \<in> set s"
  by (cases s) (auto simp: read_separator_def split: if_splits)

lemma read_groups_colon:
  "\<lbrakk>read_groups left i s = (n, v4, t); i + 2 < n \<or> 0 < i \<and> i < n\<rbrakk> \<Longrightarrow> 0x3A \<in> set s"
proof (induction left i s rule: read_groups.induct)
  case (2 left i s)
  show ?case
  proof (cases "0 < i")
    case True
    with 2 show ?thesis by (auto split: option.splits if_splits dest: read_separator_first)
  next
    case False
    then have n: "i = 0" "2 < n" using "2.prems" by auto
    with "2.prems"(1) obtain u where no4: "(if left > 0 then read_separator 0x3A i read_ipv4_addr s else None) = None"
      and u: "read_separator 0x3A i (read_number 16 4 65536 True) s = Some u"
      and rest: "read_groups left (Suc i) u = (n, v4, t)"
      by (auto split: option.splits)
    from "2.IH" [OF no4 u rest] n have "0x3A \<in> set u" by simp
    moreover have "set u \<subseteq> set s" using u n read_number_rest by (auto simp: read_separator_def)
    ultimately show ?thesis by blast
  qed
qed simp

lemma read_groups_rest: "read_groups left i s = (n, v4, t) \<Longrightarrow> v4 \<or> set t \<subseteq> set s"
proof (induction left i s rule: read_groups.induct)
  case (2 left i s)
  have sep: "set u \<subseteq> set s" if "read_separator 0x3A i (read_number 16 4 65536 True) s = Some u" for u
    using that read_number_rest by (cases s) (fastforce simp: read_separator_def split: if_splits)+
  show ?case using 2 sep by (fastforce split: option.splits)
qed simp

lemma is_ipv6_colon:
  assumes "is_ipv6 s"
  shows "0x3A \<in> set s"
proof -
  obtain n v4 t where g: "read_groups 8 0 s = (n, v4, t)" by (metis prod_cases3)
  show ?thesis
  proof (cases "n = 8")
    case True
    with read_groups_colon [OF g] show ?thesis by simp
  next
    case False
    with assms g have "\<not> v4" "strip_prefix [0x3A, 0x3A] t \<noteq> None"
      by (auto simp: is_ipv6_def read_ipv6_addr_def split: if_splits option.splits)
    then have "0x3A \<in> set t" by (auto simp: strip_prefix_def split: if_splits dest!: arg_cong [of _ _ set] in_set_takeD)
    with read_groups_rest [OF g] \<open>\<not> v4\<close> show ?thesis by blast
  qed
qed

end
