(* ===== verification/Url.thy ===== *)
theory Url
  imports Ipv6
begin

text \<open>
  \<open>core/src/proto/url.rs\<close>: \<open>ws://\<close> and \<open>wss://\<close> URLs.  \<open>url_parse_ok\<close> is what the rest of
  the client relies on: the target is a valid request target, the authority a valid
  \<open>Host\<close> value, the port is not zero.
\<close>

record url =
  url_tls :: bool
  url_host :: bytes
  url_port :: nat
  url_target :: bytes
  url_authority :: bytes

text \<open>\<open>p.parse::<u16>()\<close> of a string of digits, and \<open>format!("{port}")\<close>.\<close>

definition parse_u16 :: "bytes \<Rightarrow> nat option" where
  [ws_eval]: "parse_u16 s =
     (let v = foldl (\<lambda>v b. v * 10 + (unat b - 0x30)) 0 s in if v < 65536 then Some v else None)"

fun format_nat :: "nat \<Rightarrow> bytes" where
  "format_nat n = (if n < 10 then [word_of_nat (n + 0x30)] else format_nat (n div 10) @ [word_of_nat (n mod 10 + 0x30)])"

declare format_nat.simps [simp del]

text \<open>The host and the optional port of the authority.\<close>

definition split_host :: "bytes \<Rightarrow> bytes + bytes \<times> bytes option" where
  [ws_eval]: "split_host auth =
     (case strip_prefix (str ''['') auth of
        Some v6 \<Rightarrow>
          (case split_once (str '']'') v6 of
             None \<Rightarrow> Err (str ''invalid IPv6 host'')
           | Some (addr, tail) \<Rightarrow>
               if \<not> is_ipv6 addr then Err (str ''invalid IPv6 host'')
               else if tail = [] then Ok (addr, None)
               else (case strip_prefix (str '':'') tail of
                       None \<Rightarrow> Err (str ''invalid URL port'')
                     | Some p \<Rightarrow> Ok (addr, Some p)))
      | None \<Rightarrow>
          (case split_once (str '':'') auth of
             Some (h, p) \<Rightarrow> Ok (h, Some p)
           | None \<Rightarrow> Ok (auth, None)))"

definition url_port_of :: "nat \<Rightarrow> bytes option \<Rightarrow> bytes + nat" where
  [ws_eval]: "url_port_of dflt port =
     (case port of
        None \<Rightarrow> Ok dflt
      | Some p \<Rightarrow>
          if p \<noteq> [] \<and> length p \<le> 5 \<and> list_all is_ascii_digit p
          then (case parse_u16 p of
                  Some n \<Rightarrow> if n \<noteq> 0 then Ok n else Err (str ''invalid URL port'')
                | None \<Rightarrow> Err (str ''invalid URL port''))
          else Err (str ''invalid URL port''))"

definition url_parse :: "bytes \<Rightarrow> bytes + url" where
  [ws_eval]: "url_parse input =
     (case split_once (str ''://'') input of
        None \<Rightarrow> Err (str ''invalid URL'')
      | Some (scheme, rest) \<Rightarrow>
      if to_ascii_lowercase scheme \<noteq> str ''ws'' \<and> to_ascii_lowercase scheme \<noteq> str ''wss''
      then Err (str ''URL scheme must be ws or wss'')
      else let tls = (to_ascii_lowercase scheme = str ''wss'') in
      if list_ex (\<lambda>b. b \<le> 0x20 \<or> b \<ge> 0x7F) rest then Err (str ''URL contains invalid characters'')
      else if 0x23 \<in> set rest then Err (str ''URL must not contain a fragment'')
      else let split = (case position (\<lambda>b. b = 0x2F \<or> b = 0x3F) rest of None \<Rightarrow> length rest | Some i \<Rightarrow> i);
               auth = take split rest; target = drop split rest in
      if 0x40 \<in> set auth then Err (str ''URL must not contain credentials'')
      else case split_host auth of Err e \<Rightarrow> Err e | Ok (host, port) \<Rightarrow>
      if host = [] then Err (str ''URL host is empty'')
      else if strip_prefix (str ''['') auth = None \<and>
        \<not> list_all (\<lambda>b. is_ascii_alphanumeric b \<or> b \<in> set (str ''-._'')) host
      then Err (str ''invalid URL host'')
      else let dflt = (if tls then 443 else 80) in
      case url_port_of dflt port of Err e \<Rightarrow> Err e | Ok port \<Rightarrow>
      let host = to_ascii_lowercase host;
          bracketed = (if 0x3A \<in> set host then str ''['' @ host @ str '']'' else host);
          authority = (if port = dflt then bracketed else bracketed @ str '':'' @ format_nat port);
          target = (case target of [] \<Rightarrow> str ''/'' | c # _ \<Rightarrow> if c = 0x3F then str ''/'' @ target else target)
      in Ok \<lparr>url_tls = tls, url_host = host, url_port = port, url_target = target, url_authority = authority\<rparr>)"

end
