(* ===== verification/Base64.thy ===== *)
theory Base64
  imports Ws_Prelude
begin

text \<open>
  \<open>core/src/proto/base64.rs\<close>: the padded base64 of RFC 4648, as the opening handshake
  uses it for the client's key and the server's accept value.

  \<open>base64_decode_encode\<close> is the round trip; \<open>base64_decode_canonical\<close> is what the source
  calls strict decoding: whatever decodes is the encoding of its result, so padding and
  trailing bits are canonical and no two texts decode to the same bytes.
\<close>

subsection \<open>Definitions\<close>

definition ALPHABET :: bytes where
  [ws_eval]: "ALPHABET = str ''ABCDEFGHIJKLMNOPQRSTUVWXYZabcdefghijklmnopqrstuvwxyz0123456789+/''"

text \<open>One pass of \<open>encode\<close>'s loop, for a chunk of one to three bytes.\<close>

definition encode_chunk :: "bytes \<Rightarrow> bytes" where
  [ws_eval]: "encode_chunk chunk =
     (let b0 = chunk ! 0;
          b1 = (if 1 < length chunk then chunk ! 1 else 0);
          b2 = (if 2 < length chunk then chunk ! 2 else 0);
          n = push_bit 16 (ucast b0) OR push_bit 8 (ucast b1) OR ucast b2 :: u32
      in map (\<lambda>i. if i \<le> length chunk then ALPHABET ! unat (drop_bit (18 - 6 * i) n AND 63) else 0x3D)
           [0, 1, 2, 3])"

definition base64_encode :: "bytes \<Rightarrow> bytes" where
  [ws_eval]: "base64_encode input = concat (map encode_chunk (chunks 3 input))"

text \<open>The loop of \<open>decode\<close> over the characters before the padding.\<close>

fun base64_loop :: "nat \<Rightarrow> u32 \<Rightarrow> bytes \<Rightarrow> bytes \<Rightarrow> (u32 \<times> bytes) option" where
  "base64_loop i n out [] = Some (n, out)"
| "base64_loop i n out (c # cs) =
     (case position (\<lambda>a. a = c) ALPHABET of
        None \<Rightarrow> None
      | Some v \<Rightarrow>
          (let n' = push_bit 6 n OR word_of_nat v in
           if i mod 4 = 3
           then base64_loop (Suc i) 0 (out @ [ucast (drop_bit 16 n'), ucast (drop_bit 8 n'), ucast n']) cs
           else base64_loop (Suc i) n' out cs))"

text \<open>The bytes of an incomplete last group, by the number of padding characters.\<close>

definition base64_tail :: "nat \<Rightarrow> u32 \<Rightarrow> bytes \<Rightarrow> bytes option" where
  [ws_eval]: "base64_tail pad n out =
     (if pad = 1 then
        (if n AND 3 \<noteq> 0 then None else Some (out @ [ucast (drop_bit 10 n), ucast (drop_bit 2 n)]))
      else if pad = 2 then
        (if n AND 15 \<noteq> 0 then None else Some (out @ [ucast (drop_bit 4 n)]))
      else Some out)"

definition base64_decode :: "bytes \<Rightarrow> bytes option" where
  [ws_eval]: "base64_decode s =
     (if length s mod 4 \<noteq> 0 then None
      else let pad = length (takeWhile (\<lambda>c. c = 0x3D) (rev s)) in
        if pad > 2 then None
        else case base64_loop 0 0 [] (take (length s - pad) s) of
            None \<Rightarrow> None
          | Some (n, out) \<Rightarrow> base64_tail pad n out)"

subsection \<open>The 24-bit group as a number\<close>

lemma unat_take_bit: "unat (take_bit k (n :: u32)) = unat n mod 2 ^ k"
  by (subst unsigned_take_bit_eq) (rule take_bit_eq_mod)

lemma low_bits:
  "unat ((n :: u32) AND 63) = unat n mod 64"
  "unat (n AND 3) = unat n mod 4"
  "unat (n AND 15) = unat n mod 16"
proof -
  have "n AND 63 = take_bit 6 n" "n AND 3 = take_bit 2 n" "n AND 15 = take_bit 4 n"
    by (simp_all only: take_bit_eq_mask mask_eq_exp_minus_1) simp_all
  then show "unat (n AND 63) = unat n mod 64" "unat (n AND 3) = unat n mod 4"
    "unat (n AND 15) = unat n mod 16"
    by (simp_all only: unat_take_bit) simp_all
qed

lemma unat_drop: "unat (drop_bit k (n :: u32)) = unat n div 2 ^ k"
  by (subst unat_drop_bit_eq) (rule drop_bit_eq_div)

lemma unat_low_byte: "unat (ucast (n :: u32) :: byte) = unat n mod 256"
  by (simp add: unsigned_ucast_eq take_bit_eq_mod)

lemma unat_or_push:
  fixes n v :: u32
  assumes v: "unat v < 2 ^ k" and sum: "unat n * 2 ^ k + unat v < 2 ^ 32"
  shows "unat (push_bit k n OR v) = unat n * 2 ^ k + unat v"
proof -
  have "unat (push_bit k n OR v) = take_bit 32 (push_bit k (unat n)) OR unat v"
    by (simp add: unsigned_or_eq unsigned_push_bit_eq)
  also have "take_bit 32 (push_bit k (unat n)) = push_bit k (unat n)"
    using sum by (simp add: take_bit_eq_mod push_bit_eq_mult)
  also have "push_bit k (unat n) OR unat v = push_bit k (unat n) OR take_bit k (unat v)"
    using v by (simp add: take_bit_eq_mod)
  also have "\<dots> = push_bit k (unat n) + take_bit k (unat v)"
    by (rule disjunctive_add [symmetric]) (auto simp: bit_simps)
  also have "\<dots> = unat n * 2 ^ k + unat v"
    using v by (simp add: take_bit_eq_mod push_bit_eq_mult)
  finally show ?thesis .
qed

text \<open>The group of \<open>encode\<close> and its sextets; the accumulator of \<open>decode\<close>.\<close>

lemma unat_ucast_byte [simp]: "unat (ucast (b :: byte) :: u32) = unat b"
  by (simp add: unsigned_ucast_eq take_bit_nat_eq_self less_trans [OF unat_lt_256])

lemma unat_group:
  "unat (push_bit 16 (ucast a) OR push_bit 8 (ucast b) OR ucast c :: u32)
     = unat (a :: byte) * 65536 + unat (b :: byte) * 256 + unat (c :: byte)"
proof -
  have bc: "unat (push_bit 8 (ucast b) OR ucast c :: u32) = unat b * 256 + unat c"
    using unat_or_push [of "ucast c" 8 "ucast b"] unat_lt_256 [of b] unat_lt_256 [of c] by simp
  have "unat (push_bit 16 (ucast a) OR (push_bit 8 (ucast b) OR ucast c) :: u32)
     = unat a * 65536 + (unat b * 256 + unat c)"
    using unat_or_push [of "push_bit 8 (ucast b) OR ucast c" 16 "ucast a"] bc
      unat_lt_256 [of a] unat_lt_256 [of b] unat_lt_256 [of c] by simp
  then show ?thesis by (simp add: or.assoc)
qed

lemma unat_join:
  "\<lbrakk>v < 64; unat n < 67108864\<rbrakk> \<Longrightarrow> unat (push_bit 6 n OR word_of_nat v :: u32) = unat n * 64 + v"
  using unat_or_push [of "word_of_nat v" 6 n] by (simp add: unat_of_nat)

subsection \<open>The alphabet\<close>

lemma length_ALPHABET [simp]: "length ALPHABET = 64"
  by (simp add: ALPHABET_def str_def)

lemma distinct_ALPHABET: "distinct ALPHABET"
  by (simp add: ALPHABET_def str_def)

lemma pad_notin_ALPHABET: "0x3D \<notin> set ALPHABET"
  by (simp add: ALPHABET_def str_def)

lemma position_ALPHABET_nth [simp]: "i < 64 \<Longrightarrow> position (\<lambda>a. a = ALPHABET ! i) ALPHABET = Some i"
  by (simp add: position_nth distinct_ALPHABET)

lemma position_ALPHABET_Some:
  "position (\<lambda>a. a = c) ALPHABET = Some i \<Longrightarrow> i < 64 \<and> c = ALPHABET ! i"
  by (drule position_Some) simp

lemma nth_ALPHABET_neq_pad: "i < 64 \<Longrightarrow> 0x3D \<noteq> ALPHABET ! i"
  using pad_notin_ALPHABET nth_mem [of i ALPHABET] by (metis length_ALPHABET)

subsection \<open>One group of characters\<close>

lemma encode_chunk_3:
  fixes a b c :: byte
  defines "N \<equiv> unat a * 65536 + unat b * 256 + unat c"
  shows "encode_chunk [a, b, c] =
    [ALPHABET ! (N div 262144 mod 64), ALPHABET ! (N div 4096 mod 64),
     ALPHABET ! (N div 64 mod 64), ALPHABET ! (N mod 64)]"
  by (simp add: encode_chunk_def N_def low_bits unat_drop unat_group)

lemma encode_chunk_2:
  fixes a b :: byte
  defines "N \<equiv> unat a * 65536 + unat b * 256"
  shows "encode_chunk [a, b] =
    [ALPHABET ! (N div 262144 mod 64), ALPHABET ! (N div 4096 mod 64), ALPHABET ! (N div 64 mod 64), 0x3D]"
  using unat_group [of a b 0] by (simp add: encode_chunk_def N_def low_bits unat_drop)

lemma encode_chunk_1:
  fixes a :: byte
  defines "N \<equiv> unat a * 65536"
  shows "encode_chunk [a] = [ALPHABET ! (N div 262144 mod 64), ALPHABET ! (N div 4096 mod 64), 0x3D, 0x3D]"
  using unat_group [of a 0 0] by (simp add: encode_chunk_def N_def low_bits unat_drop)

lemma base64_encode_simps:
  "base64_encode [] = []"
  "base64_encode [a] = encode_chunk [a]"
  "base64_encode [a, b] = encode_chunk [a, b]"
  "base64_encode (a # b # c # rest) = encode_chunk [a, b, c] @ base64_encode rest"
  by (simp_all add: base64_encode_def chunks.simps)

lemma base64_loop_quad:
  assumes "v0 < 64" "v1 < 64" "v2 < 64" "v3 < 64" "i mod 4 = 0"
  defines "N \<equiv> v0 * 262144 + v1 * 4096 + v2 * 64 + v3"
  shows "base64_loop i 0 out (ALPHABET ! v0 # ALPHABET ! v1 # ALPHABET ! v2 # ALPHABET ! v3 # cs)
    = base64_loop (Suc (Suc (Suc (Suc i)))) 0 (out @ [word_of_nat (N div 65536), word_of_nat (N div 256), word_of_nat N]) cs"
proof -
  let ?n1 = "push_bit 6 0 OR word_of_nat v0 :: u32"
  let ?n2 = "push_bit 6 ?n1 OR word_of_nat v1"
  let ?n3 = "push_bit 6 ?n2 OR word_of_nat v2"
  let ?n4 = "push_bit 6 ?n3 OR word_of_nat v3"
  have "unat ?n1 = v0" using unat_join [of v0 0] assms by simp
  moreover from this have "unat ?n2 = v0 * 64 + v1" using unat_join [of v1 ?n1] assms by simp
  moreover from this have "unat ?n3 = (v0 * 64 + v1) * 64 + v2" using unat_join [of v2 ?n2] assms by simp
  moreover from this have n4: "unat ?n4 = N" using unat_join [of v3 ?n3] assms by simp
  ultimately have bytes: "ucast (drop_bit 16 ?n4) = (word_of_nat (N div 65536) :: byte)"
    "ucast (drop_bit 8 ?n4) = (word_of_nat (N div 256) :: byte)" "ucast ?n4 = (word_of_nat N :: byte)"
    by (simp_all only: byte_eq_iff unat_low_byte unat_drop unat_of_nat n4) simp_all
  have idx: "Suc i mod 4 = 1" "Suc (Suc i) mod 4 = 2" "Suc (Suc (Suc i)) mod 4 = 3"
    using assms(5) by presburger+
  show ?thesis
    using assms(1-5) idx bytes by (simp add: Let_def)
qed

lemma base64_loop_3:
  assumes "v0 < 64" "v1 < 64" "v2 < 64" "i mod 4 = 0"
  shows "\<exists>n. base64_loop i 0 out [ALPHABET ! v0, ALPHABET ! v1, ALPHABET ! v2] = Some (n, out)
    \<and> unat n = v0 * 4096 + v1 * 64 + v2"
proof -
  let ?n1 = "push_bit 6 0 OR word_of_nat v0 :: u32"
  let ?n2 = "push_bit 6 ?n1 OR word_of_nat v1"
  let ?n3 = "push_bit 6 ?n2 OR word_of_nat v2"
  have "unat ?n1 = v0" using unat_join [of v0 0] assms by simp
  moreover from this have "unat ?n2 = v0 * 64 + v1" using unat_join [of v1 ?n1] assms by simp
  moreover from this have n3: "unat ?n3 = v0 * 4096 + v1 * 64 + v2" using unat_join [of v2 ?n2] assms by simp
  moreover have "Suc i mod 4 = 1" "Suc (Suc i) mod 4 = 2" "Suc (Suc (Suc i)) mod 4 = 3"
    using assms(4) by presburger+
  ultimately show ?thesis
    using assms by (intro exI [of _ ?n3]) (simp add: Let_def del: push_bit_of_0 push_bit_or)
qed

lemma base64_loop_2:
  assumes "v0 < 64" "v1 < 64" "i mod 4 = 0"
  shows "\<exists>n. base64_loop i 0 out [ALPHABET ! v0, ALPHABET ! v1] = Some (n, out) \<and> unat n = v0 * 64 + v1"
proof -
  let ?n1 = "push_bit 6 0 OR word_of_nat v0 :: u32"
  let ?n2 = "push_bit 6 ?n1 OR word_of_nat v1"
  have "unat ?n1 = v0" using unat_join [of v0 0] assms by simp
  moreover from this have "unat ?n2 = v0 * 64 + v1" using unat_join [of v1 ?n1] assms by simp
  moreover have "Suc i mod 4 = 1" "Suc (Suc i) mod 4 = 2"
    using assms(3) by presburger+
  ultimately show ?thesis
    using assms by (intro exI [of _ ?n2]) (simp add: Let_def del: push_bit_of_0 push_bit_or)
qed

declare base64_loop.simps(2) [simp del]

text \<open>The encoding without its padding, which is what the decoding loop sees.\<close>

fun unpadded :: "bytes \<Rightarrow> bytes" where
  "unpadded [] = []"
| "unpadded [a] = take 2 (encode_chunk [a])"
| "unpadded [a, b] = take 3 (encode_chunk [a, b])"
| "unpadded (a # b # c # rest) = encode_chunk [a, b, c] @ unpadded rest"

definition padding :: "bytes \<Rightarrow> nat" where
  "padding x = (if length x mod 3 = 0 then 0 else 3 - length x mod 3)"

lemma encode_chunk_shape:
  obtains i j where "i < 64" "j < 64" "encode_chunk [a] = [ALPHABET ! i, ALPHABET ! j, 0x3D, 0x3D]"
  using that [of "unat a * 65536 div 262144 mod 64" "unat a * 65536 div 4096 mod 64"] encode_chunk_1 by simp

lemma encode_chunk_shape2:
  obtains i j k where "i < 64" "j < 64" "k < 64"
    "encode_chunk [a, b] = [ALPHABET ! i, ALPHABET ! j, ALPHABET ! k, 0x3D]"
proof -
  define N where "N = unat a * 65536 + unat b * 256"
  show ?thesis
    using that [of "N div 262144 mod 64" "N div 4096 mod 64" "N div 64 mod 64"]
      encode_chunk_2 [of a b, folded N_def] by simp
qed

lemma encode_chunk_shape3:
  obtains i j k l where "i < 64" "j < 64" "k < 64" "l < 64"
    "encode_chunk [a, b, c] = [ALPHABET ! i, ALPHABET ! j, ALPHABET ! k, ALPHABET ! l]"
proof -
  define N where "N = unat a * 65536 + unat b * 256 + unat c"
  show ?thesis
    using that [of "N div 262144 mod 64" "N div 4096 mod 64" "N div 64 mod 64" "N mod 64"]
      encode_chunk_3 [of a b c, folded N_def] by simp
qed

lemma padding_simps:
  "padding [] = 0" "padding [a] = 2" "padding [a, b] = 1" "padding (a # b # c # rest) = padding rest"
  by (simp_all add: padding_def)

lemma unpadded_shape:
  "base64_encode x = unpadded x @ replicate (padding x) 0x3D
   \<and> 0x3D \<notin> set (unpadded x) \<and> (length (unpadded x) + padding x) mod 4 = 0"
proof (induction x rule: unpadded.induct)
  case 1
  then show ?case by (simp add: base64_encode_simps padding_simps)
next
  case (2 a)
  then show ?case
    by (rule encode_chunk_shape [of a])
      (simp add: base64_encode_simps padding_simps numeral_2_eq_2 nth_ALPHABET_neq_pad)
next
  case (3 a b)
  then show ?case
    by (rule encode_chunk_shape2 [of a b])
      (simp add: base64_encode_simps padding_simps nth_ALPHABET_neq_pad)
next
  case (4 a b c rest)
  show ?case
    by (rule encode_chunk_shape3 [of a b c])
      (use 4 in \<open>simp add: base64_encode_simps padding_simps nth_ALPHABET_neq_pad\<close>)
qed

lemmas base64_encode_unpadded = unpadded_shape [THEN conjunct1]
  and pad_notin_unpadded = unpadded_shape [THEN conjunct2, THEN conjunct1]
  and length_unpadded = unpadded_shape [THEN conjunct2, THEN conjunct2]

lemma word_of_nat_byte: "word_of_nat n = (a :: byte) \<longleftrightarrow> n mod 256 = unat a"
  by (simp add: byte_eq_iff unat_of_nat)

lemma div_mod_lt: "m < n \<Longrightarrow> (k * n + m) div n = k" "m < n \<Longrightarrow> (k * n + m) mod n = (m :: nat)"
  by simp_all

text \<open>A 24-bit number is the sum of its four sextets, and of its three bytes.\<close>

lemma group_sextets:
  assumes "N < (16777216 :: nat)"
  shows "N div 262144 mod 64 * 262144 + N div 4096 mod 64 * 4096 + N div 64 mod 64 * 64 + N mod 64 = N"
proof -
  have "N div 262144 < 64" using assms by (simp add: less_mult_imp_div_less)
  then have "N div 262144 mod 64 = N div 262144" by simp
  with digits64(3) [of N] show ?thesis by simp
qed

lemma group_bytes:
  assumes "x < 256" "y < 256" "z < (256 :: nat)"
  shows "x * 65536 + y * 256 + z < 16777216"
    and "(x * 65536 + y * 256 + z) div 65536 = x"
    and "(x * 65536 + y * 256 + z) div 256 mod 256 = y"
    and "(x * 65536 + y * 256 + z) mod 256 = z"
proof -
  show "x * 65536 + y * 256 + z < 16777216" using assms by linarith
  have "y * 256 + z < 65536" using assms by linarith
  from div_mod_lt(1) [OF this, of x] show "(x * 65536 + y * 256 + z) div 65536 = x"
    by (simp only: add.assoc)
  have *: "x * 65536 + y * 256 + z = (x * 256 + y) * 256 + z" by simp
  show "(x * 65536 + y * 256 + z) mod 256 = z"
    unfolding * using assms by (simp only: div_mod_lt)
  show "(x * 65536 + y * 256 + z) div 256 mod 256 = y"
    unfolding * using assms by (simp only: div_mod_lt)
qed

lemma base64_loop_group:
  assumes "N < 16777216" "i mod 4 = 0"
  shows "base64_loop i 0 out (ALPHABET ! (N div 262144 mod 64) # ALPHABET ! (N div 4096 mod 64)
      # ALPHABET ! (N div 64 mod 64) # ALPHABET ! (N mod 64) # cs)
    = base64_loop (Suc (Suc (Suc (Suc i)))) 0
        (out @ [word_of_nat (N div 65536), word_of_nat (N div 256), word_of_nat N]) cs"
  by (rule base64_loop_quad [of "N div 262144 mod 64" "N div 4096 mod 64" "N div 64 mod 64" "N mod 64",
        unfolded group_sextets [OF assms(1)]]) (simp_all add: assms)

lemma base64_loop_chunk_3:
  assumes "i mod 4 = 0"
  shows "base64_loop i 0 out (encode_chunk [a, b, c] @ cs)
    = base64_loop (Suc (Suc (Suc (Suc i)))) 0 (out @ [a, b, c]) cs"
proof -
  define N where "N = unat a * 65536 + unat b * 256 + unat c"
  note N = group_bytes [OF unat_lt_256 [of a] unat_lt_256 [of b] unat_lt_256 [of c], folded N_def]
  have "word_of_nat (N div 65536) = a" "word_of_nat (N div 256) = b" "word_of_nat N = c"
    by (simp_all only: word_of_nat_byte N) simp
  with base64_loop_group [OF N(1) assms, of out cs] show ?thesis
    by (simp add: encode_chunk_3 N_def)
qed

text \<open>The last, partial group holds the bytes shifted left by its unused bits.\<close>

lemma partial_group_1:
  assumes "x < (256 :: nat)"
  shows "x * 65536 div 262144 mod 64 * 64 + x * 65536 div 4096 mod 64 = x * 16"
proof -
  define N where "N = x * 65536"
  have "N < 16777216" using assms unfolding N_def by linarith
  moreover have "N = x * 16 * 64 * 64" unfolding N_def by simp
  then have "N mod 64 = 0" "N div 64 mod 64 = 0" by (simp_all only: mod_mult_self2_is_0 nonzero_mult_div_cancel_right)
  ultimately have "N div 262144 mod 64 * 262144 + N div 4096 mod 64 * 4096 = N"
    using group_sextets [of N] by simp
  then have "N div 262144 mod 64 * 64 + N div 4096 mod 64 = x * 16"
    unfolding N_def [symmetric] using N_def by linarith
  then show ?thesis unfolding N_def .
qed

lemma partial_group_2:
  assumes "x < (256 :: nat)" "y < 256"
  shows "(x * 65536 + y * 256) div 262144 mod 64 * 4096 + (x * 65536 + y * 256) div 4096 mod 64 * 64
    + (x * 65536 + y * 256) div 64 mod 64 = x * 1024 + y * 4"
proof -
  define N where "N = x * 65536 + y * 256"
  have "N < 16777216" using assms unfolding N_def by linarith
  moreover have "N = (x * 1024 + y * 4) * 64" unfolding N_def by simp
  then have "N mod 64 = 0" by (simp only: mod_mult_self2_is_0)
  ultimately have "N div 262144 mod 64 * 262144 + N div 4096 mod 64 * 4096 + N div 64 mod 64 * 64 = N"
    using group_sextets [of N] by simp
  then have "N div 262144 mod 64 * 4096 + N div 4096 mod 64 * 64 + N div 64 mod 64 = x * 1024 + y * 4"
    unfolding N_def [symmetric] using N_def by linarith
  then show ?thesis unfolding N_def .
qed

lemma partial_bytes_2:
  assumes "x < (256 :: nat)" "y < 256"
  shows "(x * 1024 + y * 4) mod 4 = 0" "(x * 1024 + y * 4) div 1024 = x" "(x * 1024 + y * 4) div 4 mod 256 = y"
proof -
  have "x * 1024 + y * 4 = (x * 256 + y) * 4" by simp
  then show "(x * 1024 + y * 4) mod 4 = 0" by (simp only: mod_mult_self2_is_0)
  show "(x * 1024 + y * 4) div 1024 = x" using assms by (intro div_mod_lt) linarith
  have "(x * 1024 + y * 4) div 4 = x * 256 + y" by linarith
  then show "(x * 1024 + y * 4) div 4 mod 256 = y" using assms by simp
qed

lemma decode_unpadded:
  "i mod 4 = 0 \<Longrightarrow> \<exists>n out'. base64_loop i 0 out (unpadded x) = Some (n, out')
     \<and> base64_tail (padding x) n out' = Some (out @ x)"
proof (induction x arbitrary: i out rule: unpadded.induct)
  case 1
  then show ?case by (simp add: base64_tail_def padding_def)
next
  case (2 a)
  define N where "N = unat a * 65536"
  obtain n where n: "base64_loop i 0 out (unpadded [a]) = Some (n, out)"
    "unat n = N div 262144 mod 64 * 64 + N div 4096 mod 64"
    using base64_loop_2 [of "N div 262144 mod 64" "N div 4096 mod 64" i out] 2
    by (auto simp: encode_chunk_1 N_def)
  then have "unat n = unat a * 16"
    using partial_group_1 [OF unat_lt_256 [of a], folded N_def] by (simp only:)
  then have "n AND 15 = 0" "ucast (drop_bit 4 n) = a"
    using unat_lt_256 [of a]
    by (simp_all add: unat_0_iff [symmetric] low_bits byte_eq_iff unat_low_byte unat_drop)
  with n(1) show ?case
    by (simp add: base64_tail_def padding_def)
next
  case (3 a b)
  define N where "N = unat a * 65536 + unat b * 256"
  obtain n where n: "base64_loop i 0 out (unpadded [a, b]) = Some (n, out)"
    "unat n = N div 262144 mod 64 * 4096 + N div 4096 mod 64 * 64 + N div 64 mod 64"
    using base64_loop_3 [of "N div 262144 mod 64" "N div 4096 mod 64" "N div 64 mod 64" i out] 3
    by (auto simp: encode_chunk_2 N_def)
  then have n': "unat n = unat a * 1024 + unat b * 4"
    using partial_group_2 [OF unat_lt_256 [of a] unat_lt_256 [of b], folded N_def] by (simp only:)
  note ab = partial_bytes_2 [OF unat_lt_256 [of a] unat_lt_256 [of b]]
  have "n AND 3 = 0" "ucast (drop_bit 10 n) = a" "ucast (drop_bit 2 n) = b"
    using ab unat_lt_256 [of a]
    by (simp_all add: unat_0_iff [symmetric] low_bits byte_eq_iff unat_low_byte unat_drop n')
  with n(1) show ?case
    by (simp add: base64_tail_def padding_def)
next
  case (4 a b c rest)
  note padding_simps(4) [of a b c rest]
  moreover have "Suc (Suc (Suc (Suc i))) mod 4 = 0" using "4.prems" by presburger
  ultimately show ?case
    using "4.IH" [of "Suc (Suc (Suc (Suc i)))" "out @ [a, b, c]"] "4.prems"
    by (simp only: unpadded.simps base64_loop_chunk_3) simp
qed

lemma trailing_pads:
  assumes "p \<notin> set xs"
  shows "takeWhile (\<lambda>c. c = p) (rev (xs @ replicate k p)) = replicate k p"
  using assms by (cases xs rule: rev_cases) (auto simp: takeWhile_append)

lemma base64_decode_round: "base64_decode (base64_encode x) = Some x"
proof -
  obtain n out where "base64_loop 0 0 [] (unpadded x) = Some (n, out)"
    "base64_tail (padding x) n out = Some x"
    using decode_unpadded [of 0 "[]" x] by auto
  moreover have "padding x \<le> 2" unfolding padding_def by presburger
  ultimately show ?thesis
    using trailing_pads [OF pad_notin_unpadded, of x "padding x"] length_unpadded [of x]
    by (simp add: base64_decode_def base64_encode_unpadded Let_def)
qed

text \<open>
  C7: Decoding what was encoded gives the bytes back.
\<close>

theorem base64_decode_encode: "base64_decode (base64_encode x) = Some x"
  by (rule base64_decode_round)

subsection \<open>Whatever decodes is canonical\<close>

lemma base64_loop_chars: "base64_loop i n out cs = Some r \<Longrightarrow> set cs \<subseteq> set ALPHABET"
proof (induction i n out cs rule: base64_loop.induct)
  case (2 i n out c cs)
  from "2.prems" obtain v where v: "position (\<lambda>a. a = c) ALPHABET = Some v"
    by (auto simp: base64_loop.simps(2) split: option.splits)
  then have "c \<in> set ALPHABET" using position_ALPHABET_Some nth_mem by fastforce
  moreover have "set cs \<subseteq> set ALPHABET"
    using "2.prems" "2.IH"(1) [OF v refl] "2.IH"(2) [OF v refl]
    by (auto simp: base64_loop.simps(2) v Let_def split: if_splits)
  ultimately show ?case by simp
qed simp

lemma ALPHABET_index: "c \<in> set ALPHABET \<Longrightarrow> \<exists>v < 64. c = ALPHABET ! v"
  by (auto simp: in_set_conv_nth)

lemma four_cases:
  obtains "t = []" | a where "t = [a]" | a b where "t = [a, b]" | a b c where "t = [a, b, c]"
    | a b c d rest where "t = a # b # c # d # rest"
proof (cases t)
  case (Cons a t1)
  then show ?thesis using that
  proof (cases t1)
    case c2: (Cons b t2)
    then show ?thesis using Cons that
    proof (cases t2)
      case c3: (Cons c t3)
      then show ?thesis using c2 Cons that by (cases t3) auto
    qed auto
  qed auto
qed auto

lemma sextets_of_group:
  assumes "v0 < 64" "v1 < 64" "v2 < 64" "v3 < (64 :: nat)"
  defines "N \<equiv> v0 * 262144 + v1 * 4096 + v2 * 64 + v3"
  shows "N < 16777216" "N div 262144 mod 64 = v0" "N div 4096 mod 64 = v1"
    "N div 64 mod 64 = v2" "N mod 64 = v3"
proof -
  show "N < 16777216" using assms by linarith
  show "N div 262144 mod 64 = v0" "N div 4096 mod 64 = v1" "N div 64 mod 64 = v2" "N mod 64 = v3"
    unfolding N_def using assms by (simp_all only: undigits64) simp_all
qed

lemma two_bytes: "m < 65536 \<Longrightarrow> m div 256 mod 256 * 256 + m mod 256 = (m :: nat)"
  by (simp add: less_mult_imp_div_less)

lemma horner256: "(p * 256 + q) * 256 = p * 65536 + q * (256 :: nat)"
  by simp

lemma group_of_bytes:
  assumes "N < (16777216 :: nat)"
  shows "N div 65536 mod 256 * 65536 + N div 256 mod 256 * 256 + N mod 256 = N"
proof -
  have eq: "N div 65536 = N div 256 div 256" by (simp add: div_mult2_eq [symmetric])
  have "N div 256 < 65536" using assms by (simp add: less_mult_imp_div_less)
  then have "(N div 65536 mod 256 * 256 + N div 256 mod 256) * 256 + N mod 256 = N div 256 * 256 + N mod 256"
    unfolding eq by (simp only: two_bytes)
  also have "\<dots> = N" by (rule div_mult_mod_eq)
  finally show ?thesis by (simp only: horner256)
qed

lemma partial_of_bytes_2:
  assumes "k < (262144 :: nat)" "k mod 4 = 0"
  shows "k div 1024 mod 256 * 65536 + k div 4 mod 256 * 256 = k * 64"
proof -
  obtain m where m: "k = m * 4" using assms(2) by (metis div_mult_mod_eq add.right_neutral)
  then have "m < 65536" using assms(1) by simp
  from two_bytes [OF this] have "(m div 256 mod 256 * 256 + m mod 256) * 256 = m * 256" by simp
  moreover have "k div 1024 = m div 256" "k div 4 = m" unfolding m by simp_all
  moreover have "k * 64 = m * 256" unfolding m by simp
  ultimately show ?thesis by (simp only: horner256)
qed

lemma partial_of_bytes_1:
  assumes "k < (4096 :: nat)" "k mod 16 = 0"
  shows "k div 16 mod 256 * 65536 = k * 4096"
proof -
  obtain m where m: "k = m * 16" using assms(2) by (metis div_mult_mod_eq add.right_neutral)
  then have "m < 256" using assms(1) by simp
  then show ?thesis unfolding m by simp
qed

lemma encode_chunk_of_group:
  assumes "v0 < 64" "v1 < 64" "v2 < 64" "v3 < 64"
  defines "N \<equiv> v0 * 262144 + v1 * 4096 + v2 * 64 + v3"
  shows "encode_chunk [word_of_nat (N div 65536), word_of_nat (N div 256), word_of_nat N]
    = [ALPHABET ! v0, ALPHABET ! v1, ALPHABET ! v2, ALPHABET ! v3]"
proof -
  note v = sextets_of_group [OF assms(1-4), folded N_def]
  have u: "unat (word_of_nat k :: byte) = k mod 256" for k by (simp add: unat_of_nat)
  show ?thesis
    by (subst encode_chunk_3) (simp only: u group_of_bytes [OF v(1)] v)
qed

lemma encode_chunk_of_partial_2:
  assumes "v0 < 64" "v1 < 64" "v2 < 64" "unat (n :: u32) = v0 * 4096 + v1 * 64 + v2" "n AND 3 = 0"
  shows "encode_chunk [ucast (drop_bit 10 n), ucast (drop_bit 2 n)] = [ALPHABET ! v0, ALPHABET ! v1, ALPHABET ! v2, 0x3D]"
proof -
  define N where "N = v0 * 262144 + v1 * 4096 + v2 * 64 + (0 :: nat)"
  have v: "N div 262144 mod 64 = v0" "N div 4096 mod 64 = v1" "N div 64 mod 64 = v2"
    unfolding N_def by (rule sextets_of_group; simp add: assms)+
  have u: "unat (ucast (drop_bit 10 n) :: byte) = unat n div 1024 mod 256"
    "unat (ucast (drop_bit 2 n) :: byte) = unat n div 4 mod 256"
    by (simp_all add: unat_low_byte unat_drop)
  have "unat n mod 4 = 0" using assms(5) low_bits(2) [of n] by simp
  moreover have "unat n < 262144" using assms by linarith
  ultimately have "unat n div 1024 mod 256 * 65536 + unat n div 4 mod 256 * 256 = N"
    using partial_of_bytes_2 [of "unat n"] assms(4) by (simp add: N_def)
  then show ?thesis
    by (subst encode_chunk_2) (simp only: u v)
qed

lemma encode_chunk_of_partial_1:
  assumes "v0 < 64" "v1 < 64" "unat (n :: u32) = v0 * 64 + v1" "n AND 15 = 0"
  shows "encode_chunk [ucast (drop_bit 4 n)] = [ALPHABET ! v0, ALPHABET ! v1, 0x3D, 0x3D]"
proof -
  define N where "N = v0 * 262144 + v1 * 4096 + 0 * 64 + (0 :: nat)"
  have v: "N div 262144 mod 64 = v0" "N div 4096 mod 64 = v1"
    using sextets_of_group [OF assms(1-2), of 0 0] by (simp_all add: N_def)
  have u: "unat (ucast (drop_bit 4 n) :: byte) = unat n div 16 mod 256"
    by (simp add: unat_low_byte unat_drop)
  have "unat n mod 16 = 0" using assms(4) low_bits(3) [of n] by simp
  moreover have "unat n < 4096" using assms by linarith
  ultimately have "unat n div 16 mod 256 * 65536 = N"
    using partial_of_bytes_1 [of "unat n"] assms(3) by (simp add: N_def)
  then show ?thesis
    by (subst encode_chunk_1) (simp only: u v)
qed

lemma base64_tail_canonical:
  assumes "i mod 4 = 0" "pad \<le> 2" "(length t + pad) mod 4 = 0"
    and "base64_loop i 0 out t = Some (n, out')" "base64_tail pad n out' = Some x"
  shows "\<exists>y. x = out @ y \<and> unpadded y = t \<and> padding y = pad"
  using assms
proof (induction "length t" arbitrary: i out t rule: less_induct)
  case less
  have chars: "set t \<subseteq> set ALPHABET" using less.prems(4) by (rule base64_loop_chars)
  show ?case
  proof (cases t rule: four_cases)
    case 1
    with less.prems have "pad = 0" by auto
    with less.prems 1 show ?thesis
      by (intro exI [of _ "[]"]) (simp add: base64_tail_def padding_simps)
  next
    case (2 a)
    with less.prems have False by auto
    then show ?thesis ..
  next
    case (3 a b)
    with chars ALPHABET_index obtain v0 v1 where v: "v0 < 64" "v1 < 64" "t = [ALPHABET ! v0, ALPHABET ! v1]"
      by (metis insert_subset list.simps(15))
    from 3 less.prems have pad: "pad = 2" by auto presburger
    from base64_loop_2 [OF v(1,2) less.prems(1), of out] v(3) less.prems(4)
    have n: "out' = out" "unat n = v0 * 64 + v1" by auto
    with less.prems(5) pad have "n AND 15 = 0" "x = out @ [ucast (drop_bit 4 n)]"
      by (auto simp: base64_tail_def split: if_splits)
    with encode_chunk_of_partial_1 [OF v(1,2) n(2)] v pad show ?thesis
      by (intro exI [of _ "[ucast (drop_bit 4 n)]"]) (simp add: padding_simps)
  next
    case (4 a b c)
    with chars ALPHABET_index obtain v0 v1 v2
      where v: "v0 < 64" "v1 < 64" "v2 < 64" "t = [ALPHABET ! v0, ALPHABET ! v1, ALPHABET ! v2]"
      by (metis insert_subset list.simps(15))
    from 4 less.prems have pad: "pad = 1" by auto presburger
    from base64_loop_3 [OF v(1-3) less.prems(1), of out] v(4) less.prems(4)
    have n: "out' = out" "unat n = v0 * 4096 + v1 * 64 + v2" by auto
    with less.prems(5) pad have "n AND 3 = 0" "x = out @ [ucast (drop_bit 10 n), ucast (drop_bit 2 n)]"
      by (auto simp: base64_tail_def split: if_splits)
    with encode_chunk_of_partial_2 [OF v(1-3) n(2)] v pad show ?thesis
      by (intro exI [of _ "[ucast (drop_bit 10 n), ucast (drop_bit 2 n)]"]) (simp add: padding_simps)
  next
    case (5 a b c d rest)
    with chars ALPHABET_index obtain v0 v1 v2 v3 where v: "v0 < 64" "v1 < 64" "v2 < 64" "v3 < 64"
      "t = ALPHABET ! v0 # ALPHABET ! v1 # ALPHABET ! v2 # ALPHABET ! v3 # rest"
      by (metis insert_subset list.simps(15))
    define N where "N = v0 * 262144 + v1 * 4096 + v2 * 64 + v3"
    define g where "g = [word_of_nat (N div 65536), word_of_nat (N div 256), word_of_nat N :: byte]"
    have run: "base64_loop (Suc (Suc (Suc (Suc i)))) 0 (out @ g) rest = Some (n, out')"
      using base64_loop_quad [OF v(1-4) less.prems(1), of out rest] less.prems(4) v(5)
      by (simp add: N_def g_def)
    have "length rest < length t" "Suc (Suc (Suc (Suc i))) mod 4 = 0" "(length rest + pad) mod 4 = 0"
      using less.prems(1,3) v(5) by simp_all
    from less.hyps [OF this(1,2) less.prems(2) this(3) run less.prems(5)]
    obtain y where y: "x = (out @ g) @ y" "unpadded y = rest" "padding y = pad" by blast
    then show ?thesis
      using encode_chunk_of_group [OF v(1-4), folded N_def] v(5)
      by (intro exI [of _ "g @ y"]) (simp add: g_def padding_simps)
  qed
qed

lemma drop_trailing:
  "drop (length s - length (takeWhile (\<lambda>c. c = p) (rev s))) s
    = replicate (length (takeWhile (\<lambda>c. c = p) (rev s))) p"
proof -
  have "takeWhile (\<lambda>c. c = p) (rev s) = replicate (length (takeWhile (\<lambda>c. c = p) (rev s))) p"
    by (rule replicate_eqI) (auto dest: set_takeWhileD)
  moreover have "rev (takeWhile (\<lambda>c. c = p) (rev s))
      = drop (length s - length (takeWhile (\<lambda>c. c = p) (rev s))) s"
    by (subst takeWhile_eq_take) (simp add: take_rev)
  ultimately show ?thesis by (metis rev_replicate)
qed

text \<open>
  C8: The decoder is strict: a string it accepts is the canonical encoding of the bytes it
  returns, so no two strings decode to the same key.
\<close>

theorem base64_decode_canonical:
  assumes "base64_decode s = Some x"
  shows "base64_encode x = s"
proof -
  define pad where "pad = length (takeWhile (\<lambda>c. c = 0x3D) (rev s))"
  from assms obtain n out where *: "length s mod 4 = 0" "pad \<le> 2"
    "base64_loop 0 0 [] (take (length s - pad) s) = Some (n, out)" "base64_tail pad n out = Some x"
    by (auto simp: base64_decode_def Let_def pad_def split: if_splits option.splits)
  have "pad \<le> length s"
    unfolding pad_def using length_takeWhile_le [of _ "rev s"] by simp
  moreover have "drop (length s - pad) s = replicate pad 0x3D"
    unfolding pad_def by (rule drop_trailing)
  ultimately show ?thesis
    using base64_tail_canonical [OF _ *(2) _ *(3,4)] *(1)
    by (auto simp: base64_encode_unpadded) (metis append_take_drop_id)
qed

theorem base64_decode_canonical_witness:
  "base64_decode (str ''TWE='') = Some [0x4D, 0x61] \<and> base64_encode [0x4D, 0x61] = str ''TWE=''"
proof -
  have d: "base64_decode (str ''TWE='') = Some [0x4D, 0x61]" by code_simp
  from d base64_decode_canonical [OF d] show ?thesis by simp
qed

end
