(* ===== verification/Handshake.thy ===== *)
theory Handshake
  imports Http Url Base64
begin

text \<open>
  \<open>core/src/proto/handshake.rs\<close> and \<open>core/src/proto/handshake/request.rs\<close>: the opening
  handshake.  The SHA-1 digest of the \<open>ring\<close> crate is the parameter \<open>sha1\<close>; what the
  handshake relies on is that the client and the server compute the same one.
\<close>

subsection \<open>Building\<close>

definition GUID :: bytes where
  [ws_eval]: "GUID = str ''258EAFA5-E914-47DA-95CA-C5AB0DC85B11''"

definition accept_key :: "(bytes \<Rightarrow> bytes) \<Rightarrow> bytes \<Rightarrow> bytes" where
  [ws_eval]: "accept_key sha1 key = base64_encode (sha1 (key @ GUID))"

definition switching :: "(bytes \<Rightarrow> bytes) \<Rightarrow> bytes \<Rightarrow> bytes option \<Rightarrow> bytes" where
  [ws_eval]: "switching sha1 key protocol =
     str ''HTTP/1.1 101 Switching Protocols'' @ CRLF @ str ''Upgrade: websocket'' @ CRLF @
     str ''Connection: Upgrade'' @ CRLF @ str ''Sec-WebSocket-Accept: '' @ accept_key sha1 key @ CRLF @
     (case protocol of None \<Rightarrow> [] | Some p \<Rightarrow> str ''Sec-WebSocket-Protocol: '' @ p @ CRLF) @ CRLF"

definition reason :: "nat \<Rightarrow> bytes" where
  [ws_eval]: "reason status =
     (if status = 400 then str ''Bad Request''
      else if status = 401 then str ''Unauthorized''
      else if status = 403 then str ''Forbidden''
      else if status = 404 then str ''Not Found''
      else if status = 405 then str ''Method Not Allowed''
      else if status = 408 then str ''Request Timeout''
      else if status = 426 then str ''Upgrade Required''
      else if status = 429 then str ''Too Many Requests''
      else if status = 431 then str ''Request Header Fields Too Large''
      else if status = 500 then str ''Internal Server Error''
      else if status = 503 then str ''Service Unavailable''
      else str ''Error'')"

definition reject :: "nat \<Rightarrow> bytes" where
  [ws_eval]: "reject status =
     (let extra = (if status = 405 then str ''Allow: GET'' @ CRLF
                   else if status = 426 then str ''Upgrade: websocket'' @ CRLF @ str ''Sec-WebSocket-Version: 13'' @ CRLF
                   else [])
      in str ''HTTP/1.1 '' @ format_nat status @ str '' '' @ reason status @ CRLF @
         str ''Connection: close'' @ CRLF @ str ''Content-Length: 0'' @ CRLF @ extra @ CRLF)"

definition client_request :: "url \<Rightarrow> bytes \<Rightarrow> bytes list \<Rightarrow> headers \<Rightarrow> bytes" where
  [ws_eval]: "client_request url key protocols headers =
     str ''GET '' @ url_target url @ str '' HTTP/1.1'' @ CRLF @ str ''Host: '' @ url_authority url @ CRLF @
     str ''Upgrade: websocket'' @ CRLF @ str ''Connection: Upgrade'' @ CRLF @
     str ''Sec-WebSocket-Key: '' @ key @ CRLF @ str ''Sec-WebSocket-Version: 13'' @ CRLF @
     (if protocols \<noteq> [] then str ''Sec-WebSocket-Protocol: '' @ join (str '', '') protocols @ CRLF else []) @
     concat (map (\<lambda>(name, value). name @ str '': '' @ value @ CRLF) headers) @ CRLF"

subsection \<open>The client's check of the response\<close>

definition response :: "(bytes \<Rightarrow> bytes) \<Rightarrow> bytes \<Rightarrow> bytes \<Rightarrow> bytes list \<Rightarrow> bytes + bytes option" where
  [ws_eval]: "response sha1 head key protocols =
     (case http_parse head of None \<Rightarrow> Err (str ''invalid handshake response'') | Some (start, headers) \<Rightarrow>
      case splitn 3 (str '' '') start of
        [version, status, _] \<Rightarrow>
          if version \<noteq> str ''HTTP/1.1'' \<or> length status \<noteq> 3 \<or> \<not> list_all is_ascii_digit status
          then Err (str ''invalid handshake response'')
          else if status \<noteq> str ''101'' then Err (str ''unexpected server response: '' @ status)
          else if \<not> has_token headers (str ''upgrade'') (str ''websocket'') \<or>
            \<not> has_token headers (str ''connection'') (str ''upgrade'')
          then Err (str ''invalid upgrade headers'')
          else if http_one headers (str ''sec-websocket-accept'') \<noteq> Some (accept_key sha1 key)
          then Err (str ''invalid Sec-WebSocket-Accept'')
          else if http_all headers (str ''sec-websocket-extensions'') \<noteq> []
          then Err (str ''server sent an extension that was not offered'')
          else (case http_all headers (str ''sec-websocket-protocol'') of
                  [] \<Rightarrow> Ok None
                | p # rest \<Rightarrow>
                    if rest = [] \<and> p \<in> set protocols then Ok (Some p)
                    else Err (str ''server sent a subprotocol that was not offered''))
      | _ \<Rightarrow> Err (str ''invalid handshake response''))"

subsection \<open>The server's check of the request\<close>

record Request =
  req_target :: bytes
  req_headers :: headers
  req_key :: bytes
  req_protocols :: "bytes list"

definition host_byte :: "byte \<Rightarrow> bool" where
  [ws_eval]: "host_byte b \<longleftrightarrow> is_ascii_alphanumeric b \<or> b \<in> set (str ''-._~!$&'()*+,;=%'')"

definition valid_host :: "bytes \<Rightarrow> bool" where
  [ws_eval]: "valid_host host =
     (let tail_ok = (\<lambda>port. port = [] \<or>
            (case strip_prefix (str '':'') port of None \<Rightarrow> False
             | Some p \<Rightarrow> p \<noteq> [] \<and> length p \<le> 5 \<and> list_all is_ascii_digit p))
      in case strip_prefix (str ''['') host of
           Some v6 \<Rightarrow>
             (case split_once (str '']'') v6 of
                Some (addr, tail) \<Rightarrow> is_ipv6 addr \<and> tail_ok tail
              | None \<Rightarrow> False)
         | None \<Rightarrow>
             let i = (case find_sub (str '':'') host of None \<Rightarrow> length host | Some i \<Rightarrow> i);
                 name = take i host; tail = drop i host
             in name \<noteq> [] \<and> list_all host_byte name \<and> tail_ok tail)"

definition valid_target :: "bytes \<Rightarrow> bool" where
  [ws_eval]: "valid_target target \<longleftrightarrow>
     take 1 target = str ''/'' \<and> \<not> list_ex (\<lambda>b. b \<le> 0x20 \<or> b \<ge> 0x7F \<or> b = 0x23) target"

definition key_ok :: "bytes \<Rightarrow> bool" where
  [ws_eval]: "key_ok key \<longleftrightarrow>
     length key = 24 \<and> (case base64_decode key of None \<Rightarrow> False | Some k \<Rightarrow> length k = 16)"

definition request :: "bytes \<Rightarrow> nat + Request" where
  [ws_eval]: "request head =
     (case http_parse head of None \<Rightarrow> Err 400 | Some (start, headers) \<Rightarrow>
      case split_str (str '' '') start of
        [meth, target, version] \<Rightarrow>
          if version \<noteq> str ''HTTP/1.1'' \<or> \<not> valid_target target then Err 400
          else if meth \<noteq> str ''GET'' then Err 405
          else if (case http_one headers (str ''host'') of None \<Rightarrow> True | Some h \<Rightarrow> \<not> valid_host h) then Err 400
          else if length (http_all headers (str ''origin'')) > 1 then Err 400
          else if http_all headers (str ''transfer-encoding'') \<noteq> [] \<or>
            list_ex (\<lambda>v. v \<noteq> str ''0'') (http_all headers (str ''content-length''))
          then Err 400
          else if \<not> has_token headers (str ''upgrade'') (str ''websocket'') then Err 426
          else if \<not> has_token headers (str ''connection'') (str ''upgrade'') then Err 400
          else if http_one headers (str ''sec-websocket-version'') \<noteq> Some (str ''13'') then Err 426
          else (case http_one headers (str ''sec-websocket-key'') of None \<Rightarrow> Err 400 | Some key \<Rightarrow>
                if \<not> key_ok key then Err 400
                else case tokens headers (str ''sec-websocket-protocol'') of None \<Rightarrow> Err 400 | Some protocols \<Rightarrow>
                Ok \<lparr>req_target = target, req_headers = headers, req_key = key, req_protocols = protocols\<rparr>)
      | _ \<Rightarrow> Err 400)"

end
