(* ===== verification/Handshake_Spec.thy ===== *)
theory Handshake_Spec
  imports Handshake
begin

text \<open>
  What the two sides of the handshake promise each other: a parsed URL gives a request line
  and a \<open>Host\<close> the server accepts, the request the client builds is accepted by the server
  with the same target, key and subprotocols, and the response the server builds is
  accepted by the client that sent that key.
\<close>

subsection \<open>Formatting a port\<close>

lemma format_nat_small: "n < 10 \<Longrightarrow> format_nat n = [word_of_nat (n + 0x30)]"
  by (simp add: format_nat.simps)

lemma format_nat_step: "10 \<le> n \<Longrightarrow> format_nat n = format_nat (n div 10) @ [word_of_nat (n mod 10 + 0x30)]"
  by (simp add: format_nat.simps)

lemma unat_digit: "n < 10 \<Longrightarrow> unat (word_of_nat (n + 0x30) :: byte) = n + 0x30"
  by (rule unat_byte_of_nat) simp

lemma digit_byte: "n < 10 \<Longrightarrow> is_ascii_digit (word_of_nat (n + 0x30))"
  by (simp add: is_ascii_digit_nat unat_digit del: of_nat_add)

lemma format_nat_digits: "list_all is_ascii_digit (format_nat n) \<and> format_nat n \<noteq> []"
proof (induction n rule: format_nat.induct)
  case (1 n)
  then show ?case by (cases "n < 10") (auto simp: format_nat_small format_nat_step digit_byte simp del: of_nat_add)
qed

lemma length_format_nat: "n < 10 ^ Suc k \<Longrightarrow> length (format_nat n) \<le> Suc k"
proof (induction k arbitrary: n)
  case 0
  then show ?case by (simp add: format_nat_small)
next
  case (Suc k)
  show ?case
  proof (cases "n < 10")
    case False
    have "n div 10 < 10 ^ Suc k" using Suc.prems by (intro less_mult_imp_div_less) simp
    with Suc.IH False show ?thesis by (simp add: format_nat_step)
  qed (simp add: format_nat_small)
qed

text \<open>A formatted number is read back.\<close>

lemma foldl_digits_format:
  "foldl (\<lambda>v b. v * 10 + (unat b - 0x30)) 0 (format_nat n) = n"
proof (induction n rule: format_nat.induct)
  case (1 n)
  show ?case
  proof (cases "n < 10")
    case True
    then show ?thesis by (simp add: format_nat_small unat_digit del: of_nat_add)
  next
    case False
    then show ?thesis using 1 by (simp add: format_nat_step unat_digit del: of_nat_add)
  qed
qed

lemma parse_u16_format: "n < 65536 \<Longrightarrow> parse_u16 (format_nat n) = Some n"
  by (simp add: parse_u16_def foldl_digits_format)

subsection \<open>Parsed URLs\<close>

definition port_tail :: "bytes \<Rightarrow> bool" where
  "port_tail port \<longleftrightarrow> port = [] \<or>
     (\<exists>p. port = 0x3A # p \<and> p \<noteq> [] \<and> length p \<le> 5 \<and> list_all is_ascii_digit p)"

lemma str_simps:
  "str '':'' = [0x3A]" "str ''['' = [0x5B]" "str '']'' = [0x5D]" "str ''/'' = [0x2F]" "str '' '' = [0x20]"
  "str '', '' = [0x2C, 0x20]"
  by (simp_all add: str_def)

lemma port_tail_iff:
  "port = [] \<or> (case strip_prefix (str '':'') port of None \<Rightarrow> False
     | Some p \<Rightarrow> p \<noteq> [] \<and> length p \<le> 5 \<and> list_all is_ascii_digit p) \<longleftrightarrow> port_tail port"
  by (cases port) (auto simp: port_tail_def strip_prefix_def str_simps split: option.splits)

lemma port_tail_format: "n < 65536 \<Longrightarrow> port_tail (0x3A # format_nat n)"
  using format_nat_digits [of n] length_format_nat [of n 4] by (simp add: port_tail_def)

lemma valid_host_v6:
  assumes "is_ipv6 addr" "0x5D \<notin> set addr" "port_tail tail"
  shows "valid_host (0x5B # addr @ 0x5D # tail)"
proof -
  have "split_once (str '']'') (addr @ 0x5D # tail) = Some (addr, tail)"
    using assms(2) by (simp add: str_simps split_once_single)
  with assms show ?thesis
    unfolding valid_host_def Let_def port_tail_iff by (simp add: strip_prefix_def str_simps)
qed

lemma valid_host_name:
  assumes "name \<noteq> []" "list_all host_byte name" "0x3A \<notin> set name" "hd name \<noteq> 0x5B" "port_tail tail"
  shows "valid_host (name @ tail)"
proof -
  have "strip_prefix (str ''['') (name @ tail) = None"
    using assms(1,4) by (cases name) (simp_all add: strip_prefix_def str_simps)
  moreover have "(case find_sub (str '':'') (name @ tail) of None \<Rightarrow> length (name @ tail) | Some i \<Rightarrow> i) = length name"
  proof (cases "tail = []")
    case True
    with assms(3) show ?thesis by (simp add: str_simps find_sub_absent)
  next
    case False
    with assms(5) obtain p where "tail = 0x3A # p" by (auto simp: port_tail_def)
    with assms(3) find_sub_first [of "0x3A" name "[]" p] show ?thesis by (simp add: str_simps)
  qed
  ultimately show ?thesis
    using assms unfolding valid_host_def Let_def port_tail_iff by simp
qed

lemma lower_byte_punct: "\<not> is_ascii_alphanumeric c \<Longrightarrow> lower_byte b = c \<longleftrightarrow> b = c"
  by (auto simp: byte_eq_iff unat_lower_byte is_ascii_alphanumeric_nat split: if_splits)

lemma in_set_lower: "\<not> is_ascii_alphanumeric c \<Longrightarrow> c \<in> set (to_ascii_lowercase s) \<longleftrightarrow> c \<in> set s"
  by (auto simp: to_ascii_lowercase_def image_iff lower_byte_punct eq_commute [of c])

lemma lower_bracket: "0x5D \<in> set (to_ascii_lowercase s) \<longleftrightarrow> 0x5D \<in> set s"
  by (rule in_set_lower) (simp add: is_ascii_alphanumeric_nat)

lemma lower_colon: "0x3A \<in> set (to_ascii_lowercase s) \<longleftrightarrow> 0x3A \<in> set s"
  by (rule in_set_lower) (simp add: is_ascii_alphanumeric_nat)

lemma host_byte_lower:
  assumes "is_ascii_alphanumeric b \<or> b \<in> set (str ''-._'')"
  shows "host_byte (lower_byte b)" "lower_byte b \<noteq> 0x5B" "lower_byte b \<noteq> 0x3A"
proof -
  show "host_byte (lower_byte b)"
  proof (cases "is_ascii_upper b")
    case True
    then have "is_ascii_alphanumeric (lower_byte b)"
      by (simp add: is_ascii_alphanumeric_nat unat_lower_byte is_ascii_upper_nat)
    then show ?thesis by (simp add: host_byte_def)
  next
    case False
    with assms show ?thesis by (auto simp: lower_byte_def host_byte_def str_def)
  qed
  show "lower_byte b \<noteq> 0x5B" "lower_byte b \<noteq> 0x3A"
    using assms by (auto simp: byte_eq_iff unat_lower_byte is_ascii_alphanumeric_nat str_def split: if_splits)
qed

lemma url_port_of_Ok: "\<lbrakk>url_port_of dflt port = Ok n; 0 < dflt; dflt < 65536\<rbrakk> \<Longrightarrow> 0 < n \<and> n < 65536"
  by (auto simp: url_port_of_def parse_u16_def Let_def split: option.splits if_splits)

lemma split_host_Ok:
  assumes "split_host auth = Ok (host, port)"
  shows "if strip_prefix (str ''['') auth = None then 0x3A \<notin> set host
    else is_ipv6 host \<and> 0x5D \<notin> set host"
proof (cases "strip_prefix (str ''['') auth")
  case None
  show ?thesis
  proof (cases "split_once (str '':'') auth")
    case None2: None
    then have "0x3A \<notin> set auth"
      using find_sub_None [of "[0x3A]" auth] by (auto simp: split_once_def str_simps in_set_conv_decomp)
    with None None2 assms show ?thesis by (simp add: split_host_def)
  next
    case (Some hp)
    with None assms split_once_absent [of "0x3A" auth] show ?thesis
      by (cases hp) (simp add: split_host_def str_simps)
  qed
next
  case (Some v6)
  with assms show ?thesis
    by (auto simp: split_host_def str_simps dest: split_once_absent split: option.splits if_splits)
qed

lemma url_authority_valid:
  assumes host: "split_host auth = Ok (host, port)" "host \<noteq> []"
    and name: "strip_prefix (str ''['') auth = None \<Longrightarrow>
      list_all (\<lambda>b. is_ascii_alphanumeric b \<or> b \<in> set (str ''-._'')) host"
    and "port_tail tail"
  defines "low \<equiv> to_ascii_lowercase host"
  shows "valid_host ((if 0x3A \<in> set low then str ''['' @ low @ str '']'' else low) @ tail)"
proof (cases "strip_prefix (str ''['') auth = None")
  case True
  have ok: "host_byte b" "b \<noteq> 0x5B" "b \<noteq> 0x3A" if "b \<in> set low" for b
    using that name [OF True] host_byte_lower by (auto simp: low_def to_ascii_lowercase_def list_all_iff)
  have "low \<noteq> []" using host(2) by (simp add: low_def)
  with ok assms(4) valid_host_name [of low tail] show ?thesis
    by (cases low) (auto simp: list_all_iff)
next
  case False
  with split_host_Ok [OF host(1)] have "is_ipv6 low" "0x5D \<notin> set low" "0x3A \<in> set low"
    by (simp_all add: low_def is_ipv6_lower lower_bracket lower_colon is_ipv6_colon)
  with valid_host_v6 [of low tail] assms(4) show ?thesis by (simp add: str_simps)
qed

lemma url_target_valid:
  assumes "list_all (\<lambda>b. \<not> (b \<le> 0x20 \<or> b \<ge> 0x7F)) rest" "0x23 \<notin> set rest"
    and "split = (case position (\<lambda>b. b = 0x2F \<or> b = 0x3F) rest of None \<Rightarrow> length rest | Some i \<Rightarrow> i)"
  shows "valid_target (case drop split rest of [] \<Rightarrow> str ''/'' | c # _ \<Rightarrow>
    if c = 0x3F then str ''/'' @ drop split rest else drop split rest)"
proof -
  have clean: "\<not> (b \<le> 0x20 \<or> b \<ge> 0x7F \<or> b = 0x23)" if "b \<in> set (drop split rest)" for b
    using that assms(1,2) by (auto simp: list_all_iff dest: in_set_dropD)
  show ?thesis
  proof (cases "drop split rest")
    case Nil
    then show ?thesis by (simp add: valid_target_def str_simps)
  next
    case (Cons c cs)
    then obtain i where i: "position (\<lambda>b. b = 0x2F \<or> b = 0x3F) rest = Some i" "split = i"
      using assms(3) by (auto split: option.splits)
    have "rest ! i = c" using nth_via_drop [OF Cons] i(2) by simp
    with position_Some [OF i(1)] have c: "c = 0x2F \<or> c = 0x3F" by simp
    have "\<forall>b \<in> set (c # cs). \<not> (b \<le> 0x20 \<or> b \<ge> 0x7F \<or> b = 0x23)" using clean Cons by auto
    with c show ?thesis
      unfolding Cons by (auto simp: valid_target_def str_simps list_ex_iff)
  qed
qed

definition path_start :: "bytes \<Rightarrow> nat" where
  "path_start rest = (case position (\<lambda>b. b = 0x2F \<or> b = 0x3F) rest of None \<Rightarrow> length rest | Some i \<Rightarrow> i)"

lemma url_parse_OkE:
  assumes "url_parse input = Ok u"
  obtains rest host port dflt n where
    "\<not> list_ex (\<lambda>b. b \<le> 0x20 \<or> b \<ge> 0x7F) rest" "0x23 \<notin> set rest"
    "split_host (take (path_start rest) rest) = Ok (host, port)" "host \<noteq> []"
    "strip_prefix (str ''['') (take (path_start rest) rest) = None \<Longrightarrow>
      list_all (\<lambda>b. is_ascii_alphanumeric b \<or> b \<in> set (str ''-._'')) host"
    "url_port_of dflt port = Ok n" "dflt = 443 \<or> dflt = 80" "url_port u = n"
    "url_authority u =
       (let b = (if 0x3A \<in> set (to_ascii_lowercase host)
                 then str ''['' @ to_ascii_lowercase host @ str '']'' else to_ascii_lowercase host)
        in if n = dflt then b else b @ str '':'' @ format_nat n)"
    "url_target u = (case drop (path_start rest) rest of [] \<Rightarrow> str ''/'' | c # _ \<Rightarrow>
       if c = 0x3F then str ''/'' @ drop (path_start rest) rest else drop (path_start rest) rest)"
  using assms unfolding url_parse_def Let_def guards path_start_def [symmetric]
  apply (elim exE conjE)
  subgoal for z za zb
    by (rule that [of "snd z" "fst za" "snd za" "if to_ascii_lowercase (fst z) = str ''wss'' then 443 else 80" zb]) auto
  done

lemma url_parse_checks:
  assumes "url_parse input = Ok u"
  shows "valid_target (url_target u) \<and> valid_host (url_authority u) \<and> 0 < url_port u \<and> url_port u < 65536"
proof (rule url_parse_OkE [OF assms])
  fix rest host port dflt n
  assume clean: "\<not> list_ex (\<lambda>b. b \<le> 0x20 \<or> b \<ge> 0x7F) rest" "0x23 \<notin> set rest"
    and host: "split_host (take (path_start rest) rest) = Ok (host, port)" "host \<noteq> []"
    and name: "strip_prefix (str ''['') (take (path_start rest) rest) = None \<Longrightarrow>
      list_all (\<lambda>b. is_ascii_alphanumeric b \<or> b \<in> set (str ''-._'')) host"
    and port: "url_port_of dflt port = Ok n" "dflt = 443 \<or> dflt = 80" and u: "url_port u = n"
    and authority: "url_authority u =
       (let b = (if 0x3A \<in> set (to_ascii_lowercase host)
                 then str ''['' @ to_ascii_lowercase host @ str '']'' else to_ascii_lowercase host)
        in if n = dflt then b else b @ str '':'' @ format_nat n)"
    and target: "url_target u = (case drop (path_start rest) rest of [] \<Rightarrow> str ''/'' | c # _ \<Rightarrow>
       if c = 0x3F then str ''/'' @ drop (path_start rest) rest else drop (path_start rest) rest)"
  have n: "0 < n" "n < 65536" using url_port_of_Ok [OF port(1)] port(2) by auto
  have "valid_target (url_target u)"
    unfolding target using clean
    by (intro url_target_valid) (simp_all add: list_all_iff list_ex_iff path_start_def)
  moreover have "valid_host (url_authority u)"
    using url_authority_valid [OF host name, of "[]"] url_authority_valid [OF host name, of "0x3A # format_nat n"]
      port_tail_format [OF n(2)]
    by (auto simp: authority Let_def port_tail_def str_simps)
  ultimately show ?thesis using n u by simp
qed

text \<open>
  C11: A URL the parser accepts is fit for the handshake: its target is a valid request target,
  its authority a valid \<open>Host\<close> value by the server's own check, its port a non-zero \<open>u16\<close>.
\<close>

theorem url_parse_valid:
  assumes "url_parse input = Ok u"
  shows "valid_target (url_target u) \<and> valid_host (url_authority u) \<and> 0 < url_port u \<and> url_port u < 65536"
  using assms by (rule url_parse_checks)

theorem url_parse_valid_witness:
  "\<exists>u. url_parse (str ''WS://[::FFFF:1.2.3.4]:9000?q'') = Ok u \<and>
     url_target u = str ''/?q'' \<and> url_authority u = str ''[::ffff:1.2.3.4]:9000'' \<and>
     valid_target (url_target u) \<and> valid_host (url_authority u)"
proof -
  have p: "url_parse (str ''WS://[::FFFF:1.2.3.4]:9000?q'') =
    Ok \<lparr>url_tls = False, url_host = str ''::ffff:1.2.3.4'', url_port = 9000, url_target = str ''/?q'',
        url_authority = str ''[::ffff:1.2.3.4]:9000''\<rparr>"
    by code_simp
  from url_parse_valid [OF p] p show ?thesis by simp
qed

end
