(* ===== verification/Handshake_Client.thy ===== *)
theory Handshake_Client
  imports Handshake_Spec
begin

text \<open>
  Both directions of the handshake: the server's \<open>request\<close> accepts what the client's
  \<open>client_request\<close> builds, and the client's \<open>response\<close> accepts what the server's \<open>switching\<close>
  builds and reports what its \<open>reject\<close> builds.
\<close>

subsection \<open>The request the client builds\<close>

text \<open>The headers of \<open>client_request\<close>, in order.\<close>

definition request_headers :: "url \<Rightarrow> bytes \<Rightarrow> bytes list \<Rightarrow> headers \<Rightarrow> headers" where
  "request_headers url key protocols headers =
     [(str ''Host'', url_authority url), (str ''Upgrade'', str ''websocket''), (str ''Connection'', str ''Upgrade''),
      (str ''Sec-WebSocket-Key'', key), (str ''Sec-WebSocket-Version'', str ''13'')] @
     (if protocols \<noteq> [] then [(str ''Sec-WebSocket-Protocol'', join (str '', '') protocols)] else []) @ headers"

definition request_line :: "url \<Rightarrow> bytes" where
  "request_line url = str ''GET '' @ url_target url @ str '' HTTP/1.1''"

lemma client_request_print:
  "client_request url key protocols headers = print_head (request_line url) (request_headers url key protocols headers)"
proof -
  have hs: "concat (map (\<lambda>(name, value). name @ str '': '' @ value @ CRLF) headers) = concat (map print_header headers)"
    by (intro arg_cong [of _ _ concat] map_cong) (auto simp: print_header_def)
  have "str ''Host: '' = str ''Host'' @ str '': ''"
    "str ''Upgrade: websocket'' = str ''Upgrade'' @ str '': '' @ str ''websocket''"
    "str ''Connection: Upgrade'' = str ''Connection'' @ str '': '' @ str ''Upgrade''"
    "str ''Sec-WebSocket-Key: '' = str ''Sec-WebSocket-Key'' @ str '': ''"
    "str ''Sec-WebSocket-Version: 13'' = str ''Sec-WebSocket-Version'' @ str '': '' @ str ''13''"
    "str ''Sec-WebSocket-Protocol: '' = str ''Sec-WebSocket-Protocol'' @ str '': ''"
    by (simp_all add: str_def)
  then show ?thesis
    by (simp add: client_request_def print_head_def request_line_def request_headers_def print_header_def hs)
qed

lemma http_all_append: "http_all (xs @ ys) name = http_all xs name @ http_all ys name"
  by (simp add: http_all_def)

lemma http_all_Cons: "http_all (h # hs) name = (if fst h = name then [snd h] else []) @ http_all hs name"
  by (simp add: http_all_def case_prod_beta)

lemma http_all_Nil [simp]: "http_all [] name = []"
  by (simp add: http_all_def)

lemma check_header_Ok:
  "check_header name value = Ok () \<longleftrightarrow> is_token name \<and> is_value value \<and> to_ascii_lowercase name \<notin> set RESERVED"
  by (auto simp: check_header_def)

text \<open>User headers never shadow a header the library manages.\<close>

lemma http_all_user:
  "\<lbrakk>\<forall>h \<in> set headers. check_header (fst h) (snd h) = Ok (); name \<in> set RESERVED\<rbrakk>
    \<Longrightarrow> http_all (map parsed_header headers) name = []"
  by (induction headers) (auto simp: http_all_Cons parsed_header_def check_header_Ok)

lemma join_Cons_hd: "join sep ((c # x) # xs) = c # join sep (x # xs)"
  by (cases xs) simp_all

lemma join_comma: "join [0x2C, 0x20] (p # ps) = join [0x2C] (p # map (Cons 0x20) ps)"
  by (induction ps arbitrary: p) (simp_all add: join_Cons_hd)

lemma map_trim_tokens: "\<forall>p \<in> set ps. is_token p \<Longrightarrow> map trim_blanks ps = ps"
  by (induction ps) (auto intro!: trim_blanks_none is_token_chars(4))

lemma tokens_loop_distinct:
  "\<lbrakk>\<forall>p \<in> set ps. is_token p; distinct ps; set ps \<inter> seen = {}; map trim_blanks items = ps\<rbrakk>
    \<Longrightarrow> tokens_loop items seen out = Some (out @ ps)"
  by (induction items arbitrary: ps seen out) (auto simp: Let_def)

lemma split_protocols:
  assumes "\<forall>p \<in> set (p # ps). is_token p"
  shows "map trim_blanks (split_str [0x2C] (join (str '', '') (p # ps))) = p # ps"
proof -
  have "split_str [0x2C] (join [0x2C] (p # map (Cons 0x20) ps)) = p # map (Cons 0x20) ps"
    using assms by (intro split_str_join) (auto dest: is_token_chars(3))
  moreover have "trim_blanks \<circ> Cons 0x20 = trim_blanks"
    by (simp add: fun_eq_iff trim_blanks_Cons is_blank_def)
  ultimately show ?thesis
    using map_trim_tokens [OF assms] by (simp add: str_simps join_comma)
qed

lemma join_ends:
  assumes "\<forall>p \<in> set (p # ps). is_token p"
  shows "trim_blanks (join sep (p # ps)) = join sep (p # ps)"
proof (rule trim_blanks_id)
  have ne: "q \<noteq> []" "\<forall>b \<in> set q. \<not> is_blank b" if "q \<in> set (p # ps)" for q
    using that assms is_token_chars(4) by (auto simp: is_token_def)
  show "\<not> is_blank (hd (join sep (p # ps)))"
    using ne [of p] by (cases ps) (auto simp: hd_append)
  show "\<not> is_blank (last (join sep (p # ps)))"
    using ne
  proof (induction ps arbitrary: p)
    case (Cons q ps)
    have "\<not> is_blank (last (join sep (q # ps)))" by (rule Cons.IH) (use Cons.prems in auto)
    moreover have "join sep (q # ps) \<noteq> []" using Cons.prems(1) [of q] by (cases ps) auto
    ultimately show ?case by simp
  qed simp
qed

text \<open>Literals are compared as strings.\<close>

lemma str_inject: "str s = str t \<longleftrightarrow> s = t"
proof -
  have "inj (of_char :: char \<Rightarrow> byte)"
  proof (rule injI)
    fix c d :: char
    have "unat (of_char c :: byte) = of_char c" for c :: char
      using unat_byte_of_nat [of "of_char c"] by (simp add: of_nat_of_char)
    moreover assume "(of_char c :: byte) = of_char d"
    ultimately show "c = d" by (metis of_char_eq_iff)
  qed
  then show ?thesis by (simp add: str_def inj_map_eq_map)
qed

subsection \<open>Visible text\<close>

text \<open>Bytes that survive as a header value: visible ASCII.\<close>

definition visible :: "bytes \<Rightarrow> bool" where
  "visible s \<longleftrightarrow> (\<forall>b \<in> set s. 0x20 < b \<and> b < 0x7F)"

lemma visibleD:
  assumes "visible s"
  shows "is_value s" "is_utf8 s" "trim_blanks s = s" "0x20 \<notin> set s"
proof -
  show "is_value s" using assms by (auto simp: visible_def is_value_def list_all_iff)
  show "is_utf8 s"
    using assms by (intro is_utf8_ascii) (auto simp: visible_def word_less_nat_alt)
  show "0x20 \<notin> set s" using assms by (auto simp: visible_def)
  show "trim_blanks s = s" using assms by (intro trim_blanks_none) (auto simp: visible_def is_blank_def word_less_nat_alt)
qed

lemma visible_append [simp]: "visible (s @ t) \<longleftrightarrow> visible s \<and> visible t"
  by (auto simp: visible_def)

lemma visible_token: "is_token s \<Longrightarrow> visible s"
proof -
  assume "is_token s"
  then have "is_ascii_alphanumeric b \<or> b \<in> set (str ''!#$%&'*+-.^_`|~'')" if "b \<in> set s" for b
    using that by (auto simp: is_token_def list_all_iff)
  moreover have "0x20 < unat b \<and> unat b < 0x7F"
    if "is_ascii_alphanumeric b \<or> b \<in> set (str ''!#$%&'*+-.^_`|~'')" for b
    using that by (auto simp: is_ascii_alphanumeric_nat str_def)
  ultimately show ?thesis by (fastforce simp: visible_def word_less_nat_alt)
qed

lemma visible_ALPHABET: "visible ALPHABET"
  by (simp add: visible_def ALPHABET_def str_def)

lemma visible_base64: "visible (base64_encode x)"
proof -
  have "b \<in> set ALPHABET \<or> b = 0x3D" if "b \<in> set (encode_chunk c)" for b c
    using that by (auto simp: encode_chunk_def Let_def low_bits)
  then show ?thesis
    using visible_ALPHABET by (fastforce simp: base64_encode_def visible_def)
qed

lemma length_base64_encode: "length (base64_encode x) = 4 * ((length x + 2) div 3)"
proof -
  have "length (encode_chunk c) = 4" for c by (simp add: encode_chunk_def Let_def)
  moreover have "(5 + n) div 3 = Suc (Suc (Suc n) div 3)" for n :: nat by presburger
  ultimately show ?thesis
    by (induction x rule: unpadded.induct) (simp_all add: base64_encode_simps)
qed

lemma key_ok_base64: "length k = 16 \<Longrightarrow> key_ok (base64_encode k)"
  using base64_decode_round [of k] by (simp add: key_ok_def length_base64_encode)

lemma visible_target: "valid_target t \<Longrightarrow> visible t"
  by (auto simp: valid_target_def visible_def list_ex_iff not_le)

lemma split_host_subset:
  assumes "split_host auth = Ok (host, port)"
  shows "set host \<subseteq> set auth"
proof -
  have "set a \<subseteq> set s" if "split_once p s = Some (a, b)" for p s a b
    using split_once_Some [OF that] by (metis set_append Un_upper1)
  moreover have "set t \<subseteq> set s" if "strip_prefix p s = Some t" for p s t
    using that by (auto simp: strip_prefix_def split: if_splits dest: in_set_dropD)
  ultimately show ?thesis
    using assms by (fastforce simp: split_host_def split: option.splits if_splits)
qed

lemma visible_lower: "visible s \<Longrightarrow> visible (to_ascii_lowercase s)"
  by (auto simp: visible_def to_ascii_lowercase_def word_less_nat_alt unat_lower_byte)

lemma visible_digits: "list_all is_ascii_digit s \<Longrightarrow> visible s"
  by (fastforce simp: list_all_iff is_ascii_digit_nat visible_def word_less_nat_alt)

lemma visible_authority:
  assumes "url_parse input = Ok u"
  shows "visible (url_authority u)"
proof (rule url_parse_OkE [OF assms])
  fix rest host port dflt n
  assume clean: "\<not> list_ex (\<lambda>b. b \<le> 0x20 \<or> b \<ge> 0x7F) rest"
    and host: "split_host (take (path_start rest) rest) = Ok (host, port)"
    and authority: "url_authority u =
       (let b = (if 0x3A \<in> set (to_ascii_lowercase host)
                 then str ''['' @ to_ascii_lowercase host @ str '']'' else to_ascii_lowercase host)
        in if n = dflt then b else b @ str '':'' @ format_nat n)"
  have "set host \<subseteq> set rest" using split_host_subset [OF host] by (meson order_trans set_take_subset)
  then have "visible host" using clean by (fastforce simp: visible_def list_ex_iff not_le)
  then have "visible (to_ascii_lowercase host)" by (rule visible_lower)
  moreover have "visible (str '':'')" "visible (str ''['')" "visible (str '']'')"
    by (simp_all add: visible_def str_simps)
  ultimately show ?thesis
    using format_nat_digits [of n] by (simp add: authority Let_def visible_digits)
qed

subsection \<open>The server accepts the client's request\<close>

text \<open>
  What \<open>connect\<close> checks of its options, and what it does not: at most one \<open>Origin\<close>, and the
  bounds of the server's parser.
\<close>

definition request_ok :: "url \<Rightarrow> bytes \<Rightarrow> bytes list \<Rightarrow> headers \<Rightarrow> bool" where
  "request_ok u key protocols headers \<longleftrightarrow>
     distinct protocols \<and> list_all is_token protocols \<and>
     list_all (\<lambda>(n, v). check_header n v = Ok () \<and> is_utf8 v) headers \<and>
     length (http_all (map parsed_header headers) (str ''origin'')) \<le> 1 \<and>
     length (client_request u key protocols headers) \<le> MAX_HEAD \<and> length headers + 6 \<le> MAX_HEADERS"

lemma request_header_names:
  "to_ascii_lowercase (str ''Host'') = str ''host''" "to_ascii_lowercase (str ''Upgrade'') = str ''upgrade''"
  "to_ascii_lowercase (str ''Connection'') = str ''connection''"
  "to_ascii_lowercase (str ''Sec-WebSocket-Key'') = str ''sec-websocket-key''"
  "to_ascii_lowercase (str ''Sec-WebSocket-Version'') = str ''sec-websocket-version''"
  "to_ascii_lowercase (str ''Sec-WebSocket-Protocol'') = str ''sec-websocket-protocol''"
  "to_ascii_lowercase (str ''Sec-WebSocket-Accept'') = str ''sec-websocket-accept''"
  by (simp_all add: ws_eval)

lemma request_header_tokens:
  "is_token (str ''Host'')" "is_token (str ''Upgrade'')" "is_token (str ''Connection'')"
  "is_token (str ''Sec-WebSocket-Key'')" "is_token (str ''Sec-WebSocket-Version'')"
  "is_token (str ''Sec-WebSocket-Protocol'')" "is_token (str ''Sec-WebSocket-Accept'')"
  "is_token (str ''websocket'')" "is_token (str ''13'')"
  by (simp_all add: ws_eval)

lemma reserved_names:
  "str ''host'' \<in> set RESERVED" "str ''upgrade'' \<in> set RESERVED" "str ''connection'' \<in> set RESERVED"
  "str ''content-length'' \<in> set RESERVED" "str ''transfer-encoding'' \<in> set RESERVED"
  "str ''sec-websocket-key'' \<in> set RESERVED" "str ''sec-websocket-version'' \<in> set RESERVED"
  "str ''sec-websocket-protocol'' \<in> set RESERVED"
  by (simp_all add: RESERVED_def)

lemma http_all_request:
  assumes "\<forall>h \<in> set headers. check_header (fst h) (snd h) = Ok ()"
    and "visible (url_authority u)" "visible key" "\<forall>p \<in> set protocols. is_token p"
  defines "hs \<equiv> map parsed_header (request_headers u key protocols headers)"
  shows "http_all hs (str ''host'') = [url_authority u]"
    and "http_all hs (str ''upgrade'') = [str ''websocket'']"
    and "http_all hs (str ''connection'') = [str ''Upgrade'']"
    and "http_all hs (str ''content-length'') = []"
    and "http_all hs (str ''transfer-encoding'') = []"
    and "http_all hs (str ''sec-websocket-key'') = [key]"
    and "http_all hs (str ''sec-websocket-version'') = [str ''13'']"
    and "http_all hs (str ''sec-websocket-protocol'') = (if protocols = [] then [] else [join (str '', '') protocols])"
    and "http_all hs (str ''origin'') = http_all (map parsed_header headers) (str ''origin'')"
proof -
  have trims: "trim_blanks (url_authority u) = url_authority u" "trim_blanks key = key"
    "trim_blanks (str ''websocket'') = str ''websocket''" "trim_blanks (str ''Upgrade'') = str ''Upgrade''"
    "trim_blanks (str ''13'') = str ''13''"
    using assms(2,3) request_header_tokens by (simp_all add: visibleD(3) visible_token)
  have "protocols \<noteq> [] \<Longrightarrow> trim_blanks (join (str '', '') protocols) = join (str '', '') protocols"
    using assms(4) join_ends by (cases protocols) auto
  then have hs: "hs = [(str ''host'', url_authority u), (str ''upgrade'', str ''websocket''), (str ''connection'', str ''Upgrade''),
      (str ''sec-websocket-key'', key), (str ''sec-websocket-version'', str ''13'')] @
      (if protocols \<noteq> [] then [(str ''sec-websocket-protocol'', join (str '', '') protocols)] else []) @
      map parsed_header headers"
    by (simp add: hs_def request_headers_def parsed_header_def trims request_header_names)
  note user = http_all_user [OF assms(1)]
  note user_none = reserved_names [THEN user]
  show "http_all hs (str ''origin'') = http_all (map parsed_header headers) (str ''origin'')"
    "http_all hs (str ''host'') = [url_authority u]"
    "http_all hs (str ''upgrade'') = [str ''websocket'']"
    "http_all hs (str ''connection'') = [str ''Upgrade'']"
    "http_all hs (str ''content-length'') = []"
    "http_all hs (str ''transfer-encoding'') = []"
    "http_all hs (str ''sec-websocket-key'') = [key]"
    "http_all hs (str ''sec-websocket-version'') = [str ''13'']"
    "http_all hs (str ''sec-websocket-protocol'') = (if protocols = [] then [] else [join (str '', '') protocols])"
    by (simp_all add: hs http_all_append http_all_Cons user_none str_inject)
qed

lemma split_request_line:
  assumes "visible (url_target u)"
  shows "split_str (str '' '') (request_line u) = [str ''GET'', url_target u, str ''HTTP/1.1'']"
proof -
  have "request_line u = join [0x20] [str ''GET'', url_target u, str ''HTTP/1.1'']"
    by (simp add: request_line_def str_def)
  moreover have "split_str [0x20] (join [0x20] [str ''GET'', url_target u, str ''HTTP/1.1''])
      = [str ''GET'', url_target u, str ''HTTP/1.1'']"
    using assms by (intro split_str_join) (auto simp: str_def dest: visibleD(4))
  ultimately show ?thesis by (simp add: str_simps)
qed

lemma has_token_single:
  "\<lbrakk>http_all hs name = [v]; 0x2C \<notin> set v; trim_blanks v = v; eq_ignore_ascii_case v token\<rbrakk> \<Longrightarrow> has_token hs name token"
  by (simp add: has_token_def split_str_absent)

lemma tokens_protocols:
  assumes "http_all hs name = (if ps = [] then [] else [join (str '', '') ps])" "distinct ps" "\<forall>p \<in> set ps. is_token p"
  shows "tokens hs name = Some ps"
proof (cases ps)
  case Nil
  with assms show ?thesis by (simp add: tokens_def)
next
  case (Cons p ps')
  with assms split_protocols [of p ps'] show ?thesis
    using tokens_loop_distinct [of ps "{}" "split_str [0x2C] (join (str '', '') ps)" "[]"]
    by (simp add: tokens_def)
qed

lemma join_all: "\<lbrakk>P sep; P []; \<And>a b. P a \<Longrightarrow> P b \<Longrightarrow> P (a @ b); \<forall>x \<in> set xs. P x\<rbrakk> \<Longrightarrow> P (join sep xs)"
  by (induction sep xs rule: join.induct) auto

lemma is_value_append: "is_value (s @ t) \<longleftrightarrow> is_value s \<and> is_value t"
  by (simp add: is_value_def)

lemma join_value: "\<forall>p \<in> set ps. is_token p \<Longrightarrow> is_value (join (str '', '') ps)"
  by (rule join_all) (auto simp: is_value_append visible_token visibleD(1), simp_all add: is_value_def str_def)

lemma join_utf8: "\<forall>p \<in> set ps. is_token p \<Longrightarrow> is_utf8 (join (str '', '') ps)"
proof (rule is_utf8_join)
  show "is_utf8 (str '', '')" by (rule is_utf8_ascii) (simp add: str_def)
qed (auto simp: visible_token visibleD(2))

lemma request_line_ok:
  assumes "visible (url_target u)"
  shows "is_value (request_line u)" "is_utf8 (request_line u)"
proof -
  show "is_value (request_line u)"
    using visibleD(1) [OF assms] by (simp add: request_line_def is_value_append) (simp add: is_value_def str_def)
  have "is_utf8 (str ''GET '')" "is_utf8 (str '' HTTP/1.1'')" by (rule is_utf8_ascii, simp add: str_def)+
  then show "is_utf8 (request_line u)"
    using visibleD(2) [OF assms] by (simp add: request_line_def is_utf8_appendI)
qed

lemma upgrade_tokens:
  "0x2C \<notin> set (str ''websocket'')" "trim_blanks (str ''websocket'') = str ''websocket''"
  "eq_ignore_ascii_case (str ''websocket'') (str ''websocket'')"
  "0x2C \<notin> set (str ''Upgrade'')" "trim_blanks (str ''Upgrade'') = str ''Upgrade''"
  "eq_ignore_ascii_case (str ''Upgrade'') (str ''upgrade'')"
  by (simp_all add: ws_eval)

lemma request_Ok:
  assumes "http_parse head = Some (start, hs)" "split_str (str '' '') start = [str ''GET'', target, str ''HTTP/1.1'']"
    and "valid_target target" "http_all hs (str ''host'') = [host]" "valid_host host"
    and "length (http_all hs (str ''origin'')) \<le> 1"
    and "http_all hs (str ''transfer-encoding'') = []" "http_all hs (str ''content-length'') = []"
    and "has_token hs (str ''upgrade'') (str ''websocket'')" "has_token hs (str ''connection'') (str ''upgrade'')"
    and "http_all hs (str ''sec-websocket-version'') = [str ''13'']"
    and "http_all hs (str ''sec-websocket-key'') = [key]" "key_ok key"
    and "tokens hs (str ''sec-websocket-protocol'') = Some protocols"
  shows "request head =
    Ok \<lparr>req_target = target, req_headers = hs, req_key = key, req_protocols = protocols\<rparr>"
  using assms by (simp add: request_def http_one_def)

lemma request_headers_ok:
  assumes url: "url_parse input = Ok u" and ok: "request_ok u (base64_encode k) protocols headers"
  shows "\<forall>h \<in> set (request_headers u (base64_encode k) protocols headers).
      is_token (fst h) \<and> is_value (snd h) \<and> is_utf8 (snd h)"
    and "is_value (request_line u)" "is_utf8 (request_line u)"
proof -
  have target: "valid_target (url_target u)" using url_parse_checks [OF url] by auto
  note vis = visible_authority [OF url] visible_base64 [of k] visible_target [OF target]
  have user: "\<forall>h \<in> set headers. check_header (fst h) (snd h) = Ok ()" "\<forall>h \<in> set headers. is_utf8 (snd h)"
    using ok by (auto simp: request_ok_def list_all_iff)
  have join_ok: "is_value (join (str '', '') protocols)" "is_utf8 (join (str '', '') protocols)"
    using ok join_value join_utf8 by (auto simp: request_ok_def list_all_iff)
  show "\<forall>h \<in> set (request_headers u (base64_encode k) protocols headers).
      is_token (fst h) \<and> is_value (snd h) \<and> is_utf8 (snd h)"
    using user vis join_ok request_header_tokens
    by (auto simp: request_headers_def check_header_Ok visibleD visible_token split: if_splits)
  show "is_value (request_line u)" "is_utf8 (request_line u)" using request_line_ok [OF vis(3)] by auto
qed

lemma request_of_client:
  assumes url: "url_parse input = Ok u" and k: "length k = 16"
    and ok: "request_ok u (base64_encode k) protocols headers"
  shows "request (client_request u (base64_encode k) protocols headers) =
    Ok \<lparr>req_target = url_target u,
        req_headers = map parsed_header (request_headers u (base64_encode k) protocols headers),
        req_key = base64_encode k, req_protocols = protocols\<rparr>"
proof -
  let ?hs = "request_headers u (base64_encode k) protocols headers"
  have valid: "valid_target (url_target u)" "valid_host (url_authority u)" using url_parse_checks [OF url] by auto
  note vis = visible_authority [OF url] visible_base64 [of k] visible_target [OF valid(1)]
  have ps: "\<forall>p \<in> set protocols. is_token p" "distinct protocols"
    using ok by (auto simp: request_ok_def list_all_iff)
  have user: "\<forall>h \<in> set headers. check_header (fst h) (snd h) = Ok ()"
    using ok by (auto simp: request_ok_def list_all_iff)
  have "length (print_head (request_line u) ?hs) \<le> MAX_HEAD" "length ?hs \<le> MAX_HEADERS"
    using ok by (auto simp: request_ok_def client_request_print request_headers_def)
  then have parse: "http_parse (client_request u (base64_encode k) protocols headers)
      = Some (request_line u, map parsed_header ?hs)"
    unfolding client_request_print by (intro http_parse_print request_headers_ok [OF url ok])
  note all = http_all_request [OF user vis(1,2) ps(1)]
  show ?thesis
    using ok by (intro request_Ok [OF parse split_request_line [OF vis(3)] valid(1) all(1) valid(2)])
      (auto simp: all request_ok_def key_ok_base64 [OF k] tokens_protocols [OF all(8) ps(2,1)] upgrade_tokens
        intro: has_token_single [OF all(2)] has_token_single [OF all(3)])
qed

text \<open>
  The server accepts what the client builds: for a parsed URL, a fresh key, valid options,
  and a head within the parser's bounds, the request is accepted with exactly that target,
  that key, those subprotocols, and those headers lower-cased and trimmed.
\<close>

lemma request_client_request:
  assumes url: "url_parse input = Ok u" and k: "length k = 16"
    and ok: "request_ok u (base64_encode k) protocols headers"
  shows "request (client_request u (base64_encode k) protocols headers) =
    Ok \<lparr>req_target = url_target u,
        req_headers = map parsed_header (request_headers u (base64_encode k) protocols headers),
        req_key = base64_encode k, req_protocols = protocols\<rparr>"
  using assms by (rule request_of_client)

subsection \<open>What an accepted request guarantees\<close>

lemma tokens_loop_sound:
  "\<lbrakk>tokens_loop items seen out = Some ps; distinct out; list_all is_token out; set out = seen\<rbrakk>
    \<Longrightarrow> distinct ps \<and> list_all is_token ps"
  by (induction items arbitrary: seen out) (auto simp: Let_def split: if_splits)

lemma tokens_sound: "tokens hs name = Some ps \<Longrightarrow> distinct ps \<and> list_all is_token ps"
  using tokens_loop_sound [of _ "{}" "[]" ps] by (simp add: tokens_def)

lemma http_one_iff: "http_one hs name = Some v \<longleftrightarrow> http_all hs name = [v]"
  by (auto simp: http_one_def split: list.splits if_splits)

definition admissible :: "Request \<Rightarrow> bool" where
  "admissible r \<longleftrightarrow>
     valid_target (req_target r) \<and> key_ok (req_key r) \<and> distinct (req_protocols r) \<and>
     list_all is_token (req_protocols r) \<and> list_all header_ok (req_headers r) \<and>
     length (req_headers r) \<le> MAX_HEADERS \<and>
     (\<exists>h. http_all (req_headers r) (str ''host'') = [h] \<and> valid_host h) \<and>
     http_all (req_headers r) (str ''sec-websocket-key'') = [req_key r] \<and>
     length (http_all (req_headers r) (str ''origin'')) \<le> 1 \<and>
     http_all (req_headers r) (str ''transfer-encoding'') = [] \<and>
     list_all (\<lambda>v. v = str ''0'') (http_all (req_headers r) (str ''content-length''))"

definition refusal :: "nat + Request \<Rightarrow> bool" where
  "refusal res \<longleftrightarrow> (case res of Err status \<Rightarrow> status \<in> {400, 405, 426} | Ok _ \<Rightarrow> True)"

lemma refusal_simps [simp]: "refusal (Ok r)" "refusal (Err 400)" "refusal (Err 405)" "refusal (Err 426)"
  by (simp_all add: refusal_def)

lemma refusal_intros:
  "\<lbrakk>refusal x; refusal y\<rbrakk> \<Longrightarrow> refusal (if c then x else y)"
  "\<lbrakk>refusal x; \<And>z. refusal (f z)\<rbrakk> \<Longrightarrow> refusal (case v of None \<Rightarrow> x | Some z \<Rightarrow> f z)"
  "(\<And>a b. refusal (g a b)) \<Longrightarrow> refusal (case p of (a, b) \<Rightarrow> g a b)"
  "\<lbrakk>refusal x; \<And>a b c. refusal (h a b c)\<rbrakk> \<Longrightarrow> refusal (case xs of [a, b, c] \<Rightarrow> h a b c | _ \<Rightarrow> x)"
  by (simp_all split: option.split prod.split list.split)

lemma request_refusal: "refusal (request head)"
  unfolding request_def by (intro refusal_intros refusal_simps)

lemma guard_list3 [guards]:
  "(case xs of [a, b, c] \<Rightarrow> f a b c | _ \<Rightarrow> Err e) = Ok y \<longleftrightarrow> (\<exists>a b c. xs = [a, b, c] \<and> f a b c = Ok y)"
  by (auto split: list.splits)

lemma request_admissible: "request head = Ok r \<Longrightarrow> admissible r"
  unfolding request_def guards
  apply (elim exE conjE)
  subgoal for z meth target version key protocols
    using http_parse_checks [of head "fst z" "snd z"]
    by (auto simp: admissible_def http_one_iff list_all_iff list_ex_iff dest: tokens_sound split: option.splits)
  done

text \<open>
  C9: Every request is either refused with status 400, 405 or 426, or is fit to show to the
  application: a valid target, one valid \<open>Host\<close>, one well-formed key, distinct subprotocol
  tokens, at most one \<open>Origin\<close>, clean headers, and no body that could be read as frames.
\<close>

theorem request_total:
  "case request head of Err status \<Rightarrow> status \<in> {400, 405, 426} | Ok r \<Rightarrow> admissible r"
  using request_refusal [of head] request_admissible [of head] by (auto simp: refusal_def split: sum.splits)

end
