(* ===== verification/Handshake_Server.thy ===== *)
theory Handshake_Server
  imports Handshake_Client "HOL-Library.Sublist"
begin

text \<open>
  The server's replies as the client reads them: the 101 response is accepted by the client
  whose key it answers, a refusal is reported with its status, and the client accepts
  nothing else.
\<close>

definition switching_headers :: "(bytes \<Rightarrow> bytes) \<Rightarrow> bytes \<Rightarrow> bytes option \<Rightarrow> headers" where
  "switching_headers sha1 key protocol =
     [(str ''Upgrade'', str ''websocket''), (str ''Connection'', str ''Upgrade''),
      (str ''Sec-WebSocket-Accept'', accept_key sha1 key)] @
     (case protocol of None \<Rightarrow> [] | Some p \<Rightarrow> [(str ''Sec-WebSocket-Protocol'', p)])"

lemma switching_print:
  "switching sha1 key protocol =
     print_head (str ''HTTP/1.1 101 Switching Protocols'') (switching_headers sha1 key protocol)"
proof -
  have "str ''Upgrade: websocket'' = str ''Upgrade'' @ str '': '' @ str ''websocket''"
    "str ''Connection: Upgrade'' = str ''Connection'' @ str '': '' @ str ''Upgrade''"
    "str ''Sec-WebSocket-Accept: '' = str ''Sec-WebSocket-Accept'' @ str '': ''"
    "str ''Sec-WebSocket-Protocol: '' = str ''Sec-WebSocket-Protocol'' @ str '': ''"
    by (simp_all add: str_def)
  then show ?thesis
    by (simp add: switching_def print_head_def switching_headers_def print_header_def split: option.splits)
qed

lemma visible_accept: "visible (accept_key sha1 key)"
  by (simp add: accept_key_def visible_base64)

lemma http_all_switching:
  fixes sha1 :: "bytes \<Rightarrow> bytes" and key :: bytes
  assumes "case protocol of None \<Rightarrow> True | Some p \<Rightarrow> is_token p"
  defines "hs \<equiv> map parsed_header (switching_headers sha1 key protocol)"
  shows "http_all hs (str ''upgrade'') = [str ''websocket'']"
    and "http_all hs (str ''connection'') = [str ''Upgrade'']"
    and "http_all hs (str ''sec-websocket-accept'') = [accept_key sha1 key]"
    and "http_all hs (str ''sec-websocket-extensions'') = []"
    and "http_all hs (str ''sec-websocket-protocol'') = (case protocol of None \<Rightarrow> [] | Some p \<Rightarrow> [p])"
proof -
  have "trim_blanks (accept_key sha1 key) = accept_key sha1 key" by (rule visibleD(3) [OF visible_accept])
  moreover have "is_token p \<Longrightarrow> trim_blanks p = p" for p by (rule visibleD(3) [OF visible_token])
  ultimately have hs: "hs = [(str ''upgrade'', str ''websocket''), (str ''connection'', str ''Upgrade''),
      (str ''sec-websocket-accept'', accept_key sha1 key)] @
      (case protocol of None \<Rightarrow> [] | Some p \<Rightarrow> [(str ''sec-websocket-protocol'', p)])"
    using assms(1)
    by (auto simp: hs_def switching_headers_def parsed_header_def request_header_names upgrade_tokens split: option.splits)
  show "http_all hs (str ''upgrade'') = [str ''websocket'']"
    "http_all hs (str ''connection'') = [str ''Upgrade'']"
    "http_all hs (str ''sec-websocket-accept'') = [accept_key sha1 key]"
    "http_all hs (str ''sec-websocket-extensions'') = []"
    "http_all hs (str ''sec-websocket-protocol'') = (case protocol of None \<Rightarrow> [] | Some p \<Rightarrow> [p])"
    by (simp_all add: hs http_all_append http_all_Cons str_inject split: option.split)
qed

lemma splitn3_join:
  assumes "0x20 \<notin> set a" "0x20 \<notin> set b"
  shows "splitn 3 (str '' '') (a @ str '' '' @ b @ str '' '' @ c) = [a, b, c]"
  using split_once_single [OF assms(1), of "b @ 0x20 # c"] split_once_single [OF assms(2), of c]
  by (simp add: numeral_3_eq_3 str_simps)

lemma splitn_switching:
  "splitn 3 (str '' '') (str ''HTTP/1.1 101 Switching Protocols'') = [str ''HTTP/1.1'', str ''101'', str ''Switching Protocols'']"
proof -
  have "str ''HTTP/1.1 101 Switching Protocols'' = str ''HTTP/1.1'' @ str '' '' @ str ''101'' @ str '' '' @ str ''Switching Protocols''"
    by (simp add: str_def)
  then show ?thesis using splitn3_join [of "str ''HTTP/1.1''" "str ''101''" "str ''Switching Protocols''"]
    by (simp add: str_def)
qed

lemma status_line_ok: "is_value (str ''HTTP/1.1 101 Switching Protocols'')" "is_utf8 (str ''HTTP/1.1 101 Switching Protocols'')"
proof -
  show "is_value (str ''HTTP/1.1 101 Switching Protocols'')" by (simp add: is_value_def str_def)
  show "is_utf8 (str ''HTTP/1.1 101 Switching Protocols'')" by (rule is_utf8_ascii) (simp add: str_def)
qed

text \<open>
  The client accepts the response the server builds for its key, whatever the digest
  function, and learns exactly the subprotocol the server chose among those offered.
\<close>

lemma response_of_switching:
  assumes offered: "case protocol of None \<Rightarrow> True | Some p \<Rightarrow> p \<in> set protocols \<and> is_token p"
    and len: "length (switching sha1 key protocol) \<le> MAX_HEAD"
  shows "response sha1 (switching sha1 key protocol) key protocols = Ok protocol"
proof -
  let ?hs = "switching_headers sha1 key protocol"
  have "\<forall>h \<in> set ?hs. is_token (fst h) \<and> is_value (snd h) \<and> is_utf8 (snd h)"
    using offered request_header_tokens
    by (auto simp: switching_headers_def visibleD visible_token visible_accept split: option.splits)
  moreover have "length ?hs \<le> MAX_HEADERS"
    by (simp add: switching_headers_def MAX_HEADERS_def split: option.splits)
  ultimately have parse: "http_parse (switching sha1 key protocol)
      = Some (str ''HTTP/1.1 101 Switching Protocols'', map parsed_header ?hs)"
    using len status_line_ok unfolding switching_print by (intro http_parse_print) auto
  have token: "case protocol of None \<Rightarrow> True | Some p \<Rightarrow> is_token p" using offered by (auto split: option.splits)
  note all = http_all_switching [OF token, of sha1 key]
  have "has_token (map parsed_header ?hs) (str ''upgrade'') (str ''websocket'')"
    "has_token (map parsed_header ?hs) (str ''connection'') (str ''upgrade'')"
    using upgrade_tokens by (auto intro: has_token_single [OF all(1)] has_token_single [OF all(2)])
  moreover have "list_all is_ascii_digit (str ''101'')" "length (str ''101'') = 3" by (simp_all add: ws_eval)
  ultimately show ?thesis
    using offered by (auto simp: response_def parse splitn_switching http_one_def all split: option.splits)
qed

text \<open>
  What the client demands of a response: the status line is that of a switch, the connection is upgraded to a
  websocket, the accept value answers the key, no extension is announced, and the subprotocol is the only one
  announced and one of those offered.
\<close>

definition switches :: "(bytes \<Rightarrow> bytes) \<Rightarrow> bytes \<Rightarrow> bytes list \<Rightarrow> bytes option \<Rightarrow> bytes \<Rightarrow> headers \<Rightarrow> bool" where
  "switches sha1 key protocols protocol start hs \<longleftrightarrow>
     prefix (str ''HTTP/1.1 101 '') start \<and>
     has_token hs (str ''upgrade'') (str ''websocket'') \<and> has_token hs (str ''connection'') (str ''upgrade'') \<and>
     http_all hs (str ''sec-websocket-accept'') = [accept_key sha1 key] \<and>
     http_all hs (str ''sec-websocket-extensions'') = [] \<and>
     http_all hs (str ''sec-websocket-protocol'') = (case protocol of None \<Rightarrow> [] | Some p \<Rightarrow> [p]) \<and>
     (case protocol of None \<Rightarrow> True | Some p \<Rightarrow> p \<in> set protocols)"

lemma status_101: "list_all is_ascii_digit (str ''101'')" "length (str ''101'') = 3"
  by (simp_all add: ws_eval)

lemma status_line_101:
  "(\<exists>phrase. splitn 3 (str '' '') start = [str ''HTTP/1.1'', str ''101'', phrase]) \<longleftrightarrow> prefix (str ''HTTP/1.1 101 '') start"
proof -
  have line: "str ''HTTP/1.1'' @ str '' '' @ str ''101'' @ str '' '' @ phrase = str ''HTTP/1.1 101 '' @ phrase" for phrase
    by (simp add: str_def)
  have "start = str ''HTTP/1.1 101 '' @ phrase" if "splitn 3 (str '' '') start = [str ''HTTP/1.1'', str ''101'', phrase]" for phrase
    using that unfolding line [symmetric]
    by (auto simp: numeral_3_eq_3 dest!: split_once_Some split: option.splits)
  moreover have "splitn 3 (str '' '') (str ''HTTP/1.1 101 '' @ phrase) = [str ''HTTP/1.1'', str ''101'', phrase]" for phrase
    unfolding line [symmetric] by (intro splitn3_join) (simp_all add: str_def)
  ultimately show ?thesis by (auto simp: prefix_def)
qed

lemma response_iff:
  "response sha1 head key protocols = Ok protocol \<longleftrightarrow>
     (\<exists>start hs. http_parse head = Some (start, hs) \<and> switches sha1 key protocols protocol start hs)"
proof
  assume "response sha1 head key protocols = Ok protocol"
  then show "\<exists>start hs. http_parse head = Some (start, hs) \<and> switches sha1 key protocols protocol start hs"
    unfolding response_def guards switches_def status_line_101 [symmetric]
    by (elim exE conjE) (auto simp: http_one_iff split: list.splits if_splits)
next
  assume "\<exists>start hs. http_parse head = Some (start, hs) \<and> switches sha1 key protocols protocol start hs"
  then show "response sha1 head key protocols = Ok protocol"
    unfolding switches_def status_line_101 [symmetric]
    using status_101 by (auto simp: response_def http_one_iff split: option.splits)
qed

text \<open>
  C10: The client is not fooled: it accepts a response exactly when its head parses, the status line is
  \<open>HTTP/1.1 101\<close>, the connection is upgraded to a websocket, the accept value answers its own key, no extension is
  announced, and the subprotocol it reports is the only one announced and one it offered (none when none is announced).
\<close>

theorem response_accepts:
  "response sha1 head key protocols = Ok protocol \<longleftrightarrow>
     (\<exists>start hs. http_parse head = Some (start, hs) \<and> prefix (str ''HTTP/1.1 101 '') start \<and>
        has_token hs (str ''upgrade'') (str ''websocket'') \<and> has_token hs (str ''connection'') (str ''upgrade'') \<and>
        http_all hs (str ''sec-websocket-accept'') = [accept_key sha1 key] \<and>
        http_all hs (str ''sec-websocket-extensions'') = [] \<and>
        http_all hs (str ''sec-websocket-protocol'') = (case protocol of None \<Rightarrow> [] | Some p \<Rightarrow> [p]) \<and>
        (case protocol of None \<Rightarrow> True | Some p \<Rightarrow> p \<in> set protocols))"
  using response_iff unfolding switches_def .

subsection \<open>Refusals\<close>

definition reject_headers :: "nat \<Rightarrow> headers" where
  "reject_headers status =
     [(str ''Connection'', str ''close''), (str ''Content-Length'', str ''0'')] @
     (if status = 405 then [(str ''Allow'', str ''GET'')]
      else if status = 426 then [(str ''Upgrade'', str ''websocket''), (str ''Sec-WebSocket-Version'', str ''13'')]
      else [])"

lemma reject_print:
  "reject status = print_head (str ''HTTP/1.1'' @ str '' '' @ format_nat status @ str '' '' @ reason status) (reject_headers status)"
proof -
  have "str ''HTTP/1.1 '' = str ''HTTP/1.1'' @ str '' ''"
    "str ''Connection: close'' = str ''Connection'' @ str '': '' @ str ''close''"
    "str ''Content-Length: 0'' = str ''Content-Length'' @ str '': '' @ str ''0''"
    "str ''Allow: GET'' = str ''Allow'' @ str '': '' @ str ''GET''"
    "str ''Upgrade: websocket'' = str ''Upgrade'' @ str '': '' @ str ''websocket''"
    "str ''Sec-WebSocket-Version: 13'' = str ''Sec-WebSocket-Version'' @ str '': '' @ str ''13''"
    by (simp_all add: str_def)
  then show ?thesis
    by (simp add: reject_def print_head_def reject_headers_def print_header_def Let_def)
qed

lemma length_format_nat3: "\<lbrakk>100 \<le> n; n < 1000\<rbrakk> \<Longrightarrow> length (format_nat n) = 3"
  by (simp add: format_nat_step format_nat_small div_mult2_eq [symmetric] less_mult_imp_div_less)

lemma reason_ok: "is_value (reason status)" "is_utf8 (reason status)" "length (reason status) \<le> 31"
proof -
  define rs where "rs = [str ''Bad Request'', str ''Unauthorized'', str ''Forbidden'', str ''Not Found'',
    str ''Method Not Allowed'', str ''Request Timeout'', str ''Upgrade Required'', str ''Too Many Requests'',
    str ''Request Header Fields Too Large'', str ''Internal Server Error'', str ''Service Unavailable'', str ''Error'']"
  have r: "reason status \<in> set rs" by (simp add: reason_def rs_def)
  have "list_all (\<lambda>r. list_all (\<lambda>b. 0x20 \<le> b \<and> b < 0x7F) r \<and> length r \<le> 31) rs"
    by (simp add: rs_def str_def)
  with r have ok: "\<forall>b \<in> set (reason status). 0x20 \<le> b \<and> b < 0x7F" and "length (reason status) \<le> 31"
    by (auto simp: list_all_iff)
  then show "length (reason status) \<le> 31" by simp
  show "is_value (reason status)" using ok by (auto simp: is_value_def list_all_iff)
  show "is_utf8 (reason status)" using ok by (intro is_utf8_ascii) (auto simp: word_less_nat_alt)
qed

lemma reject_headers_ok: "\<forall>h \<in> set (reject_headers status). is_token (fst h) \<and> is_value (snd h) \<and> is_utf8 (snd h)"
proof -
  have t: "is_token (str ''Connection'')" "is_token (str ''Content-Length'')" "is_token (str ''Allow'')"
    "is_token (str ''close'')" "is_token (str ''0'')" "is_token (str ''GET'')"
    by (simp_all add: ws_eval)
  show ?thesis
    using t request_header_tokens by (auto simp: reject_headers_def visibleD visible_token)
qed

lemma response_of_reject:
  assumes "100 \<le> status" "status < 1000" "status \<noteq> 101"
  shows "response sha1 (reject status) key protocols = Err (str ''unexpected server response: '' @ format_nat status)"
proof -
  let ?start = "str ''HTTP/1.1'' @ str '' '' @ format_nat status @ str '' '' @ reason status"
  note digits = format_nat_digits [of status]
  have vis: "visible (format_nat status)" using digits visible_digits by blast
  have len: "length (format_nat status) = 3" using assms(1,2) by (rule length_format_nat3)
  have "visible (str ''HTTP/1.1'')" by (simp add: visible_def str_def)
  moreover have "is_value (str '' '')" "is_utf8 (str '' '')"
    by (simp add: is_value_def str_def) (rule is_utf8_ascii, simp add: str_def)
  ultimately have start: "is_value ?start" "is_utf8 ?start"
    using vis reason_ok(1,2) [of status] by (auto simp: is_value_append visibleD intro!: is_utf8_appendI)
  have size: "length (print_head ?start (reject_headers status)) \<le> MAX_HEAD" "length (reject_headers status) \<le> MAX_HEADERS"
    using len reason_ok(3) [of status]
    by (auto simp: print_head_def reject_headers_def print_header_def MAX_HEAD_def MAX_HEADERS_def str_def CRLF_def)
  have parse: "http_parse (reject status) = Some (?start, map parsed_header (reject_headers status))"
    unfolding reject_print by (rule http_parse_print [OF start reject_headers_ok size])
  have split: "splitn 3 (str '' '') ?start = [str ''HTTP/1.1'', format_nat status, reason status]"
    using visibleD(4) [OF vis] by (intro splitn3_join) (simp_all add: str_def)
  have "format_nat status \<noteq> str ''101''"
  proof
    assume "format_nat status = str ''101''"
    then have "foldl (\<lambda>v b. v * 10 + (unat b - 0x30)) 0 (str ''101'') = status"
      using foldl_digits_format [of status] by simp
    with assms(3) show False by (simp add: str_def)
  qed
  with digits len show ?thesis by (simp add: response_def parse split)
qed

text \<open>
  A refusal reaches the client as an error that names the status, for every three-digit
  status other than 101.
\<close>

lemma response_reject:
  assumes "100 \<le> status" "status < 1000" "status \<noteq> 101"
  shows "response sha1 (reject status) key protocols = Err (str ''unexpected server response: '' @ format_nat status)"
  using assms by (rule response_of_reject)

end
