(* ===== verification/Head_Stream.thy ===== *)
theory Head_Stream
  imports Http
begin

text \<open>
  \<open>Stream::read_head\<close> of \<open>core/src/net/stream.rs\<close>: reading an HTTP head from the transport in
  whatever pieces it delivers.  The transport is the list of what its successive reads
  return; running out of it is a read still pending.
\<close>

datatype io_read = Data bytes | IoError

datatype head_error = HeadIo | TooLarge

text \<open>One pass of the loop per read; only the last three bytes seen are searched again.\<close>

fun read_head_loop :: "bytes \<Rightarrow> io_read list \<Rightarrow> (head_error + bytes \<times> bytes) option" where
  "read_head_loop buf [] = None"
| "read_head_loop buf (IoError # reads) = Some (Err HeadIo)"
| "read_head_loop buf (Data chunk # reads) =
     (if chunk = [] then Some (Err HeadIo)
      else let from = length buf - 3;
               buf = buf @ chunk;
               stop = map_option (\<lambda>i. i + from) (http_end (drop from buf))
           in if (case stop of None \<Rightarrow> length buf | Some n \<Rightarrow> n) > MAX_HEAD then Some (Err TooLarge)
              else (case stop of
                      Some n \<Rightarrow> Some (Ok (take n buf, drop n buf))
                    | None \<Rightarrow> read_head_loop buf reads))"

definition read_head :: "io_read list \<Rightarrow> (head_error + bytes \<times> bytes) option" where
  [ws_eval]: "read_head reads = read_head_loop [] reads"

subsection \<open>Searching only the new bytes\<close>

lemma find_sub_drop:
  "\<lbrakk>find_sub p s = Some i; k \<le> i\<rbrakk> \<Longrightarrow> find_sub p (drop k s) = Some (i - k)"
proof (induction s arbitrary: i k)
  case (Cons c s)
  then show ?case by (cases k) (auto split: if_splits)
qed (auto split: if_splits)

lemma find_sub_append_Some: "find_sub p s = Some i \<Longrightarrow> find_sub p (s @ t) = Some i"
proof (induction s arbitrary: i)
  case (Cons c s)
  show ?case
  proof (cases "take (length p) (c # s) = p")
    case True
    then have "length p \<le> length (c # s)" by (metis length_take min.cobounded1 nat_le_linear take_all)
    then have "take (length p) ((c # s) @ t) = take (length p) (c # s)" by (simp only: take_append) simp
    with True Cons.prems show ?thesis by simp
  next
    case False
    with Cons.prems obtain j where j: "find_sub p s = Some j" "i = Suc j" by auto
    have "take (length p) ((c # s) @ t) \<noteq> p"
    proof
      assume a: "take (length p) ((c # s) @ t) = p"
      have "length p \<le> length (c # s)" using find_sub_le [OF j(1)] by simp
      then have "take (length p) ((c # s) @ t) = take (length p) (c # s)" by (simp only: take_append) simp
      with a False show False by simp
    qed
    with j Cons.IH [OF j(1)] show ?thesis by simp
  qed
qed (auto split: if_splits)

lemma find_sub_append_None:
  assumes "find_sub p s = None" "find_sub p (s @ t) = Some i"
  shows "length s < i + length p"
proof (rule ccontr)
  assume "\<not> length s < i + length p"
  then have le: "i + length p \<le> length s" by simp
  have "s @ t = take i (s @ t) @ p @ drop (i + length p) (s @ t)" by (rule find_sub_Some [OF assms(2)])
  then have "take (i + length p) (s @ t) = take i (s @ t) @ p"
    using find_sub_le [OF assms(2)] by (metis append_assoc append_eq_conv_conj length_append length_take min.absorb2 add_leD1)
  with le have "take (i + length p) s = take i s @ p" by simp
  then have "s = take i s @ p @ drop (i + length p) s" by (metis append_assoc append_take_drop_id)
  with find_sub_None [OF assms(1)] show False by metis
qed

lemma find_sub_drop_None: "find_sub p s = None \<Longrightarrow> find_sub p (drop k s) = None"
proof (cases "find_sub p (drop k s)")
  case (Some i)
  moreover assume "find_sub p s = None"
  ultimately show ?thesis
    using find_sub_Some [OF Some] find_sub_None by (metis append_assoc append_take_drop_id)
qed simp

lemma http_end_incremental:
  assumes "http_end buf = None"
  shows "map_option (\<lambda>i. i + (length buf - 3)) (http_end (drop (length buf - 3) (buf @ chunk))) = http_end (buf @ chunk)"
proof (cases "find_sub (CRLF @ CRLF) (buf @ chunk)")
  case None
  then show ?thesis by (simp only: http_end_find find_sub_drop_None [OF None]) simp
next
  case (Some i)
  have "find_sub (CRLF @ CRLF) buf = None" using assms by (simp add: http_end_find)
  from find_sub_append_None [OF this Some] have "length buf - 3 \<le> i" by (simp add: CRLF_def)
  with find_sub_drop [OF Some this] Some show ?thesis by (simp add: http_end_find)
qed

lemma http_end_append: "http_end s = Some n \<Longrightarrow> http_end (s @ t) = Some n"
  by (auto simp: http_end_find dest: find_sub_append_Some)

subsection \<open>What read\_head returns\<close>

text \<open>The first \<open>k\<close> reads are just enough for \<open>n\<close> bytes, when \<open>b\<close> bytes were there before.\<close>

definition enough_reads :: "nat \<Rightarrow> nat \<Rightarrow> bytes list \<Rightarrow> nat \<Rightarrow> bool" where
  "enough_reads b n cs k \<longleftrightarrow> 0 < k \<and> k \<le> length cs \<and>
     b + length (concat (take (k - 1) cs)) < n \<and> n \<le> b + length (concat (take k cs))"

text \<open>
  Behind a head of \<open>n\<close> bytes the stream goes on with \<open>rest\<close>, which came with the head, and then with the reads that
  were not needed for it; so no byte is lost between \<open>rest\<close> and the next read.
\<close>

definition carried_over :: "nat \<Rightarrow> bytes list \<Rightarrow> bytes \<Rightarrow> bytes \<Rightarrow> bool" where
  "carried_over n cs behind rest \<longleftrightarrow> (\<exists>k. enough_reads 0 n cs k \<and> behind = rest @ concat (drop k cs))"

lemma carried_over_nil: "carried_over n cs [] rest \<Longrightarrow> rest = []"
  by (auto simp: carried_over_def)

lemma enough_reads_first: "\<lbrakk>b < n; n \<le> b + length c\<rbrakk> \<Longrightarrow> enough_reads b n (c # cs) 1"
  by (simp add: enough_reads_def)

lemma enough_reads_Suc: "enough_reads (b + length c) n cs k \<Longrightarrow> enough_reads b n (c # cs) (Suc k)"
  by (cases k) (simp_all add: enough_reads_def)

text \<open>The number of reads is determined.\<close>

lemma enough_reads_unique:
  assumes "enough_reads b n cs k" "enough_reads b n cs k'"
  shows "k = k'"
proof -
  have mono: "length (concat (take i cs)) \<le> length (concat (take j cs))" if "i \<le> j" for i j
    using that by (metis concat_append le_add_diff_inverse length_append le_add1 take_add)
  have less: "\<not> i < j" if "enough_reads b n cs i" "enough_reads b n cs j" for i j
  proof
    assume "i < j"
    then have "i \<le> j - 1" by simp
    from mono [OF this] that show False by (simp add: enough_reads_def)
  qed
  from less [OF assms] less [OF assms(2,1)] show ?thesis by simp
qed

lemma http_end_beyond: "\<lbrakk>http_end s = None; http_end (s @ t) = Some n\<rbrakk> \<Longrightarrow> length s < n"
  using find_sub_append_None [of "CRLF @ CRLF" s t] by (auto simp: http_end_find CRLF_def)

lemma read_head_loop_exact:
  assumes "http_end buf = None" "length buf \<le> MAX_HEAD" "[] \<notin> set cs"
  defines "whole_input \<equiv> buf @ concat cs"
  shows "case http_end whole_input of
      Some n \<Rightarrow>
        if n \<le> MAX_HEAD
        then \<exists>k. enough_reads (length buf) n cs k \<and>
          read_head_loop buf (map Data cs) = Some (Ok (take n whole_input, drop n (buf @ concat (take k cs))))
        else read_head_loop buf (map Data cs) = Some (Err TooLarge)
    | None \<Rightarrow> read_head_loop buf (map Data cs) = (if length whole_input \<le> MAX_HEAD then None else Some (Err TooLarge))"
  using assms(1-3) unfolding whole_input_def
proof (induction cs arbitrary: buf)
  case (Cons c cs)
  let ?buf = "buf @ c"
  have step: "read_head_loop buf (map Data (c # cs)) =
      (if (case http_end ?buf of None \<Rightarrow> length ?buf | Some n \<Rightarrow> n) > MAX_HEAD then Some (Err TooLarge)
       else (case http_end ?buf of Some n \<Rightarrow> Some (Ok (take n ?buf, drop n ?buf))
             | None \<Rightarrow> read_head_loop ?buf (map Data cs)))"
    unfolding list.map read_head_loop.simps Let_def http_end_incremental [OF Cons.prems(1)]
    using Cons.prems(3) by auto
  show ?case
  proof (cases "http_end ?buf")
    case (Some n)
    have whole: "http_end (buf @ concat (c # cs)) = Some n" using http_end_append [OF Some, of "concat cs"] by simp
    have "n \<le> length ?buf" using http_end_Some(2) [OF Some] .
    then have "take n (buf @ concat (c # cs)) = take n ?buf" by simp
    moreover have "buf @ concat (take 1 (c # cs)) = ?buf" by simp
    moreover have "enough_reads (length buf) n (c # cs) 1"
      using http_end_beyond [OF Cons.prems(1) Some] \<open>n \<le> length ?buf\<close> by (intro enough_reads_first) simp_all
    ultimately show ?thesis unfolding whole step using Some by (auto intro!: exI [of _ "1 :: nat"])
  next
    case None
    show ?thesis
    proof (cases "length ?buf \<le> MAX_HEAD")
      case True
      have rec: "read_head_loop buf (map Data (c # cs)) = read_head_loop ?buf (map Data cs)"
        using step None True by simp
      have shift: "?buf @ concat cs = buf @ concat (c # cs)"
        "?buf @ concat (take k cs) = buf @ concat (take (Suc k) (c # cs))" for k by simp_all
      have "[] \<notin> set cs" using Cons.prems(3) by simp
      note ih = Cons.IH [OF None True this, unfolded shift]
      show ?thesis
      proof (cases "http_end (buf @ concat (c # cs))")
        case (Some n)
        have "enough_reads (length buf) n (c # cs) (Suc k)" if "enough_reads (length ?buf) n cs k" for k
          using that by (intro enough_reads_Suc) simp
        with ih Some show ?thesis unfolding rec Some option.case by (cases "n \<le> MAX_HEAD") (simp_all only: if_True if_False, blast)
      next
        case none: None
        with ih show ?thesis unfolding rec none by simp
      qed
    next
      case False
      then have big: "read_head_loop buf (map Data (c # cs)) = Some (Err TooLarge)" using step None by simp
      have "MAX_HEAD < n" if n: "http_end (buf @ concat (c # cs)) = Some n" for n
      proof -
        have none: "find_sub (CRLF @ CRLF) ?buf = None" using None by (simp add: http_end_find)
        obtain i where i: "find_sub (CRLF @ CRLF) (?buf @ concat cs) = Some i" "n = i + 4"
          using n by (auto simp: http_end_find)
        from find_sub_append_None [OF none i(1)] i(2) False show ?thesis by (simp add: CRLF_def)
      qed
      with big False show ?thesis by (auto split: option.splits simp: not_le)
    qed
  qed
qed simp

lemma read_head_split:
  assumes "[] \<notin> set cs"
  shows "case http_end (concat cs) of
      Some n \<Rightarrow>
        if n \<le> MAX_HEAD
        then \<exists>k rest. read_head (map Data cs) = Some (Ok (take n (concat cs), rest)) \<and>
          take n (concat cs) @ rest @ concat (drop k cs) = concat cs \<and> enough_reads 0 n cs k
        else read_head (map Data cs) = Some (Err TooLarge)
    | None \<Rightarrow> read_head (map Data cs) = (if length (concat cs) \<le> MAX_HEAD then None else Some (Err TooLarge))"
proof -
  have split: "take n (concat cs) @ drop n (concat (take k cs)) @ concat (drop k cs) = concat cs" if "enough_reads 0 n cs k" for n k
  proof -
    have whole: "concat cs = concat (take k cs) @ concat (drop k cs)" by (metis append_take_drop_id concat_append)
    have "n \<le> length (concat (take k cs))" using that by (simp add: enough_reads_def)
    then have "take n (concat cs) = take n (concat (take k cs))" by (subst whole) simp
    then show ?thesis using whole by (metis append_assoc append_take_drop_id)
  qed
  have "http_end [] = None" "length ([] :: bytes) \<le> MAX_HEAD" by (simp_all add: http_end_find CRLF_def)
  note exact = read_head_loop_exact [OF this assms, unfolded append_Nil list.size(3), folded read_head_def]
  show ?thesis
  proof (cases "http_end (concat cs)")
    case None
    with exact show ?thesis by simp
  next
    case (Some n)
    with exact split show ?thesis unfolding Some option.case by (cases "n \<le> MAX_HEAD") (simp_all only: if_True if_False, blast)
  qed
qed

text \<open>
  C12: Whatever pieces the transport delivers, \<open>read_head\<close> splits the stream exactly behind its first blank
  line: when that ends within 16 KiB, it stops at the read that completes the head and returns the head and
  every byte of that read behind it, so that the head, these bytes and the reads that are still to come are the whole
  stream; it refuses a longer head as too large, and otherwise keeps waiting.
\<close>

theorem read_head_exact:
  assumes "[] \<notin> set cs"
  shows "case http_end (concat cs) of
      Some n \<Rightarrow>
        if n \<le> MAX_HEAD
        then \<exists>k rest. read_head (map Data cs) = Some (Ok (take n (concat cs), rest)) \<and>
          take n (concat cs) @ rest @ concat (drop k cs) = concat cs \<and> enough_reads 0 n cs k
        else read_head (map Data cs) = Some (Err TooLarge)
    | None \<Rightarrow> read_head (map Data cs) = (if length (concat cs) \<le> MAX_HEAD then None else Some (Err TooLarge))"
  using read_head_split [OF assms] .

theorem read_head_exact_witness:
  "read_head (map Data [str ''A'' @ [0x0D], [0x0A, 0x0D], 0x0A # str ''B'', str ''C'']) = Some (Ok (str ''A'' @ CRLF @ CRLF, str ''B''))"
proof -
  let ?cs = "[str ''A'' @ [0x0D], [0x0A, 0x0D], 0x0A # str ''B'', str ''C'']"
  have "[] \<notin> set ?cs" by (simp add: str_def)
  note exact = read_head_exact [OF this]
  have "http_end (concat ?cs) = Some 5" by (simp add: http_end_find CRLF_def str_def)
  moreover have "(5 :: nat) \<le> MAX_HEAD" by (simp add: MAX_HEAD_def)
  moreover have head: "take 5 (concat ?cs) = str ''A'' @ CRLF @ CRLF" by (simp add: str_def CRLF_def)
  ultimately obtain k rest where r: "read_head (map Data ?cs) = Some (Ok (str ''A'' @ CRLF @ CRLF, rest))"
    "(str ''A'' @ CRLF @ CRLF) @ rest @ concat (drop k ?cs) = concat ?cs" "enough_reads 0 5 ?cs k"
    using exact by (auto simp only: option.case if_True)
  have "enough_reads 0 5 ?cs 3" by (simp add: enough_reads_def str_def)
  with r(3) have "k = 3" by (rule enough_reads_unique)
  with r show ?thesis by (simp add: str_def CRLF_def)
qed

end
