(* ===== verification/Client.thy ===== *)
theory Client
  imports Conn_Spec Handshake_Server Head_Stream
begin

text \<open>
  The client: its options (\<open>core/src/net/options.rs\<close>), the checks of \<open>connect\<close> and the steps of
  \<open>establish\<close> (\<open>core/src/net/client.rs\<close>), and the handle through which an application uses a
  connection (\<open>Conn\<close> in \<open>core/src/hub.rs\<close>).

  TLS configurations are opaque; name resolution, dialling, the TLS handshake and the reads and
  writes of the transport are given by their results.
\<close>

subsection \<open>Constants and options\<close>

definition MAX_MESSAGE :: nat where [ws_eval]: "MAX_MESSAGE = 1048576"
definition MAX_BUFFER :: nat where [ws_eval]: "MAX_BUFFER = 16777216"
definition HEARTBEAT :: nat where [ws_eval]: "HEARTBEAT = 30 * 1000000000"

text \<open>\<open>next_id\<close>: the counter is a \<open>u64\<close> that wraps; the first number handed out is 1.\<close>

definition next_id :: "nat \<Rightarrow> id \<times> nat" where
  [ws_eval]: "next_id counter = (counter, wrapping_add counter 1)"

record client_options =
  co_protocols :: "bytes list"
  co_headers :: headers
  co_tls :: "nat option"
  co_timeout :: nat
  co_max_message :: nat
  co_max_buffer :: nat
  co_heartbeat :: "nat option"

definition client_default :: client_options where
  [ws_eval]: "client_default =
     \<lparr>co_protocols = [], co_headers = [], co_tls = None, co_timeout = 10 * 1000000000,
      co_max_message = MAX_MESSAGE, co_max_buffer = MAX_BUFFER, co_heartbeat = Some HEARTBEAT\<rparr>"

subsection \<open>Connecting\<close>

text \<open>The loops over the offered subprotocols and the extra headers.\<close>

fun check_protocols :: "bytes list \<Rightarrow> bytes set \<Rightarrow> bytes + unit" where
  "check_protocols [] seen = Ok ()"
| "check_protocols (p # ps) seen =
     (if \<not> is_token p \<or> p \<in> seen then Err (str ''invalid subprotocol: '' @ p)
      else check_protocols ps (insert p seen))"

fun check_headers :: "headers \<Rightarrow> bytes + unit" where
  "check_headers [] = Ok ()"
| "check_headers ((name, value) # hs) =
     (case check_header name value of Err e \<Rightarrow> Err e | Ok _ \<Rightarrow> check_headers hs)"

declare check_protocols.simps [ws_eval] check_headers.simps [ws_eval]

text \<open>
  The checks of \<open>connect\<close>.  \<open>roots\<close> is the result of loading the default TLS configuration,
  \<open>server_name\<close> whether rustls takes the host as a server name, and \<open>runtime\<close> the result of
  starting the shared runtime.
\<close>

definition connect_check ::
  "bytes + nat \<Rightarrow> (bytes \<Rightarrow> bool) \<Rightarrow> bytes + unit \<Rightarrow> nat \<Rightarrow> bytes \<Rightarrow> client_options \<Rightarrow> bytes + url \<times> nat" where
  [ws_eval]: "connect_check roots server_name runtime now input opts =
     (case url_parse input of Err e \<Rightarrow> Err e | Ok url \<Rightarrow>
      if co_max_message opts = 0 \<or> co_max_buffer opts = 0 then Err (str ''limits must be positive'')
      else if co_heartbeat opts = Some 0 then Err (str ''heartbeat must be positive'')
      else case check_protocols (co_protocols opts) {} of Err e \<Rightarrow> Err e | Ok _ \<Rightarrow>
      case check_headers (co_headers opts) of Err e \<Rightarrow> Err e | Ok _ \<Rightarrow>
      if co_tls opts \<noteq> None \<and> \<not> url_tls url then Err (str ''TLS settings need a wss:// URL'')
      else case (if url_tls url
                 then case (case co_tls opts of Some c \<Rightarrow> Ok c | None \<Rightarrow> roots) of
                        Err e \<Rightarrow> Err e
                      | Ok c \<Rightarrow> if server_name (url_host url) then Ok (Some c) else Err (str ''invalid URL host'')
                 else Ok None) of Err e \<Rightarrow> Err e | Ok _ \<Rightarrow>
      case instant_checked_add now (co_timeout opts) of None \<Rightarrow> Err (str ''connection timeout is too large'') | Some deadline \<Rightarrow>
      case runtime of Err e \<Rightarrow> Err (str ''cannot start I/O runtime: '' @ e) | Ok _ \<Rightarrow>
      Ok (url, deadline))"

definition client_config :: "client_options \<Rightarrow> config" where
  [ws_eval]: "client_config opts =
     \<lparr>cf_message = co_max_message opts, cf_buffer = co_max_buffer opts, cf_heartbeat = co_heartbeat opts\<rparr>"

definition connect ::
  "bytes + nat \<Rightarrow> (bytes \<Rightarrow> bool) \<Rightarrow> bytes + unit \<Rightarrow> nat \<Rightarrow> events \<Rightarrow> id \<Rightarrow> bytes \<Rightarrow> (nat \<Rightarrow> mask_key) \<Rightarrow>
   bytes \<Rightarrow> client_options \<Rightarrow> bytes + url \<times> nat \<times> link" where
  [ws_eval]: "connect roots server_name runtime now ev i token rnd input opts =
     (case connect_check roots server_name runtime now input opts of
        Err e \<Rightarrow> Err e
      | Ok (url, deadline) \<Rightarrow> Ok (url, deadline, link_new i False (client_config opts) ev token now rnd))"

text \<open>
  \<open>establish\<close> on the results of its steps: resolving, dialling (an error may be silent), the
  TLS handshake, writing the request, and reading.  \<open>None\<close> is a read that has not completed.
\<close>

definition establish ::
  "(bytes \<Rightarrow> bytes) \<Rightarrow> url \<Rightarrow> client_options \<Rightarrow> bytes \<Rightarrow> bytes + unit \<Rightarrow> bytes option + unit \<Rightarrow> bytes + unit \<Rightarrow>
   (bytes \<Rightarrow> bytes + unit) \<Rightarrow> bytes \<Rightarrow> io_read list \<Rightarrow> (bytes + bytes \<times> bytes option) option" where
  [ws_eval]: "establish sha1 url opts nonce resolved dialled secured write_all io_error input =
     (case resolved of Err e \<Rightarrow> Some (Err (str ''cannot resolve '' @ url_host url @ str '': '' @ e)) | Ok _ \<Rightarrow>
      case dialled of
        Err e \<Rightarrow> Some (Err (case e of None \<Rightarrow> str ''cannot resolve '' @ url_host url | Some e \<Rightarrow> e))
      | Ok _ \<Rightarrow>
      case secured of Err e \<Rightarrow> Some (Err (str ''TLS handshake failed: '' @ e)) | Ok _ \<Rightarrow>
      let key = base64_encode nonce in
      case write_all (client_request url key (co_protocols opts) (co_headers opts)) of Err e \<Rightarrow> Some (Err (str ''handshake failed: '' @ e)) | Ok _ \<Rightarrow>
      case read_head input of
        None \<Rightarrow> None
      | Some (Err TooLarge) \<Rightarrow> Some (Err (str ''handshake response too large''))
      | Some (Err HeadIo) \<Rightarrow> Some (Err (str ''handshake failed: '' @ io_error))
      | Some (Ok (head, rest)) \<Rightarrow>
          (case response sha1 head key (co_protocols opts) of
             Err e \<Rightarrow> Some (Err e)
           | Ok protocol \<Rightarrow> Some (Ok (rest, protocol))))"

text \<open>What the task of \<open>connect\<close> does with the outcome of its \<open>select!\<close>, until its lease ends.\<close>

datatype connect_outcome =
    WorkerStopped
  | WorkerHubClosed
  | WorkerTimedOut
  | WorkerFailed bytes
  | WorkerReady bytes "bytes option"

fun client_task :: "connect_outcome \<Rightarrow> link \<Rightarrow> bool \<times> link" where
  "client_task WorkerStopped l = (False, lease_drop l)"
| "client_task WorkerHubClosed l = (False, lease_drop (link_terminate l))"
| "client_task WorkerTimedOut l = (False, lease_drop (link_fail (str ''handshake timed out'') l))"
| "client_task (WorkerFailed e) l = (False, lease_drop (link_fail e l))"
| "client_task (WorkerReady rest protocol) l = link_start protocol (EvOpen (lk_id l)) l"

declare client_task.simps [ws_eval]

subsection \<open>The application's handle\<close>

definition conn_send_text :: "bytes \<Rightarrow> link \<Rightarrow> (bytes + unit) \<times> link" where
  [ws_eval]: "conn_send_text data l = link_send TEXT data l"

definition conn_send :: "bytes \<Rightarrow> bool \<Rightarrow> link \<Rightarrow> (bytes + unit) \<times> link" where
  [ws_eval]: "conn_send data binary l =
     (if binary then link_send BINARY data l
      else case from_utf8 data of
             Err _ \<Rightarrow> (Err (str ''text must be valid UTF-8; use send(data, true) for binary''), l)
           | Ok text \<Rightarrow> conn_send_text text l)"

definition conn_ping :: "bytes \<Rightarrow> link \<Rightarrow> (bytes + unit) \<times> link" where
  [ws_eval]: "conn_ping data l =
     (if length data > 125 then (Err (str ''ping data must be at most 125 bytes''), l) else link_send PING data l)"

definition conn_close :: "nat \<Rightarrow> u16 \<Rightarrow> bytes \<Rightarrow> link \<Rightarrow> (bytes + unit) \<times> link" where
  [ws_eval]: "conn_close now code why l =
     (if \<not> valid_close_code code then (Err (str ''invalid close code''), l)
      else if length why > 123 then (Err (str ''close reason must be at most 123 bytes''), l)
      else (Ok (), link_close now code why l))"

subsection \<open>What the checks of connect give\<close>

lemma check_protocols_Ok:
  "check_protocols ps seen = Ok () \<longleftrightarrow> distinct ps \<and> list_all is_token ps \<and> set ps \<inter> seen = {}"
  by (induction ps arbitrary: seen) auto

lemma check_headers_Ok: "check_headers hs = Ok () \<longleftrightarrow> list_all (\<lambda>(n, v). check_header n v = Ok ()) hs"
  by (induction hs rule: check_headers.induct) (auto split: sum.splits)

lemma connect_check_Ok:
  assumes "connect_check roots server_name runtime now input opts = Ok (url, deadline)"
  shows "url_parse input = Ok url \<and> distinct (co_protocols opts) \<and> list_all is_token (co_protocols opts) \<and>
    list_all (\<lambda>(n, v). check_header n v = Ok ()) (co_headers opts) \<and>
    0 < co_max_message opts \<and> 0 < co_max_buffer opts \<and> co_heartbeat opts \<noteq> Some 0 \<and>
    (co_tls opts \<noteq> None \<longrightarrow> url_tls url) \<and> deadline = now + co_timeout opts"
  using assms unfolding connect_check_def guards
  by (elim exE conjE)
    (auto simp: check_protocols_Ok check_headers_Ok instant_checked_add_def split: if_splits)

text \<open>What \<open>connect\<close> leaves to the server's bounds; header values are strings, so UTF-8.\<close>

definition head_fits :: "url \<Rightarrow> bytes \<Rightarrow> client_options \<Rightarrow> bool" where
  "head_fits u key opts \<longleftrightarrow>
     list_all (\<lambda>(n, v). is_utf8 v) (co_headers opts) \<and>
     length (http_all (map parsed_header (co_headers opts)) (str ''origin'')) \<le> 1 \<and>
     length (client_request u key (co_protocols opts) (co_headers opts)) \<le> MAX_HEAD \<and>
     length (co_headers opts) + 6 \<le> MAX_HEADERS"

lemma connect_request_ok:
  assumes "connect_check roots server_name runtime now input opts = Ok (u, deadline)" "head_fits u key opts"
  shows "request_ok u key (co_protocols opts) (co_headers opts)"
  using assms(2) connect_check_Ok [OF assms(1)]
  by (auto simp: request_ok_def head_fits_def list_all_iff)

lemma read_head_print:
  assumes head: "start \<noteq> []" "is_value start" "\<forall>h \<in> set hs. is_token (fst h) \<and> is_value (snd h)"
    and len: "length (print_head start hs) \<le> MAX_HEAD"
    and chunks: "[] \<notin> set cs" "concat cs = print_head start hs @ rest"
  shows "\<exists>got. read_head (map Data cs) = Some (Ok (print_head start hs, got)) \<and>
    carried_over (length (print_head start hs)) cs rest got"
proof -
  let ?h = "print_head start hs"
  have stop: "http_end (concat cs) = Some (length ?h)" using http_end_print [OF head, of rest] by (simp add: chunks(2))
  obtain k got where "read_head (map Data cs) = Some (Ok (take (length ?h) (concat cs), got))"
    "take (length ?h) (concat cs) @ got @ concat (drop k cs) = concat cs" "enough_reads 0 (length ?h) cs k"
    using read_head_split [OF chunks(1)] len unfolding stop by auto
  then show ?thesis by (auto simp: chunks(2) carried_over_def)
qed

lemma establish_switching:
  assumes offered: "case protocol of None \<Rightarrow> True | Some p \<Rightarrow> p \<in> set (co_protocols opts) \<and> is_token p"
    and len: "length (switching sha1 (base64_encode nonce) protocol) \<le> MAX_HEAD"
    and chunks: "[] \<notin> set cs" "concat cs = switching sha1 (base64_encode nonce) protocol @ frames"
    and io: "write_all (client_request u (base64_encode nonce) (co_protocols opts) (co_headers opts)) = Ok ()"
  shows "\<exists>rest. establish sha1 u opts nonce (Ok ()) (Ok ()) (Ok ()) write_all e (map Data cs) = Some (Ok (rest, protocol)) \<and>
    carried_over (length (switching sha1 (base64_encode nonce) protocol)) cs frames rest"
proof -
  let ?hs = "switching_headers sha1 (base64_encode nonce) protocol"
  have hs: "\<forall>h \<in> set ?hs. is_token (fst h) \<and> is_value (snd h)"
    using offered request_header_tokens
    by (auto simp: switching_headers_def visibleD visible_token visible_accept split: option.splits)
  have "str ''HTTP/1.1 101 Switching Protocols'' \<noteq> []" by (simp add: str_def)
  from read_head_print [OF this status_line_ok(1) hs len [unfolded switching_print] chunks(1) chunks(2) [unfolded switching_print]]
  obtain rest where "read_head (map Data cs) = Some (Ok (switching sha1 (base64_encode nonce) protocol, rest))"
    "carried_over (length (switching sha1 (base64_encode nonce) protocol)) cs frames rest"
    by (auto simp: switching_print)
  then show ?thesis
    using io response_of_switching [OF offered len] by (auto simp: establish_def Let_def)
qed

subsection \<open>Every use of the handle is a run of the connection\<close>

datatype handle_call =
    CallSend bytes bool
  | CallSendText bytes
  | CallPing bytes
  | CallClose nat u16 bytes
  | CallTerminate
  | CallConsumed nat

fun conn_call :: "handle_call \<Rightarrow> link \<Rightarrow> link" where
  "conn_call (CallSend data binary) l = snd (conn_send data binary l)"
| "conn_call (CallSendText data) l = snd (conn_send_text data l)"
| "conn_call (CallPing data) l = snd (conn_ping data l)"
| "conn_call (CallClose now code why) l = snd (conn_close now code why l)"
| "conn_call CallTerminate l = link_terminate l"
| "conn_call (CallConsumed n) l = consumed n l"

text \<open>The arguments that are strings of Rust are UTF-8; nothing else is asked of the caller.\<close>

fun call_typed :: "handle_call \<Rightarrow> bool" where
  "call_typed (CallSendText data) = is_utf8 data"
| "call_typed (CallClose _ _ why) = is_utf8 why"
| "call_typed _ = True"

lemma conn_send_link:
  "snd (conn_send data binary l) =
     (if binary then snd (link_send BINARY data l) else if is_utf8 data then snd (link_send TEXT data l) else l)"
proof (cases "from_utf8 data")
  case (Inl e)
  then have "\<not> is_utf8 data" using from_utf8_Ok_iff [of data data] by simp
  with Inl show ?thesis by (simp add: conn_send_def)
next
  case (Inr t)
  then have "is_utf8 data" "t = data" by (simp_all add: from_utf8_Ok_iff)
  with Inr show ?thesis by (simp add: conn_send_def conn_send_text_def)
qed

lemma conn_call_steps:
  assumes "call_typed k"
  shows "conn_steps c (c\<lparr>cn_link := conn_call k (cn_link c)\<rparr>)"
proof (cases "conn_call k (cn_link c) = cn_link c")
  case False
  have "conn_step c (c\<lparr>cn_link := conn_call k (cn_link c)\<rparr>)"
    using assms False
    by (cases k)
      (auto simp: conn_send_link conn_send_text_def conn_ping_def conn_close_def
        intro: conn_step.intros split: if_splits)
  then show ?thesis ..
qed simp

lemma conn_calls_steps:
  "list_all call_typed ks \<Longrightarrow> conn_steps c (c\<lparr>cn_link := fold conn_call ks (cn_link c)\<rparr>)"
proof (induction ks arbitrary: c)
  case (Cons k ks)
  then have "conn_steps c (c\<lparr>cn_link := conn_call k (cn_link c)\<rparr>)" by (simp add: conn_call_steps)
  with Cons.IH [of "c\<lparr>cn_link := conn_call k (cn_link c)\<rparr>"] Cons.prems show ?case by simp
qed simp

text \<open>
  C27: The application cannot break a connection: whatever sequence of calls it makes through the
  handle, with whatever bytes, codes and reasons, the connection stays in a reachable state, so
  everything proved of reachable states holds after it; in particular at most one close event
  is ever delivered, and it is the last.
\<close>

theorem conn_calls_safe:
  assumes "reachable i server config c" "list_all call_typed ks"
  shows "reachable i server config (c\<lparr>cn_link := fold conn_call ks (cn_link c)\<rparr>)"
  using reachable_steps [OF assms(1) conn_calls_steps [OF assms(2)]] .

theorem conn_calls_safe_witness:
  "reachable 7 False \<lparr>cf_message = 100, cf_buffer = 10, cf_heartbeat = None\<rparr>
     (demo_open\<lparr>cn_link := fold conn_call [CallSend [0xFF] False, CallPing [], CallClose 9 1000 []] (cn_link demo_open)\<rparr>)"
  by (rule conn_calls_safe [OF demo_states(2)]) (simp add: is_utf8_ascii)

end
