(* ===== verification/Server.thy ===== *)
theory Server
  imports Client
begin

text \<open>
  The server: its options (\<open>core/src/net/options.rs\<close>), creating and closing a listener
  (\<open>core/src/net/server.rs\<close>), admission (\<open>core/src/net/accept.rs\<close>), and the handshake of an
  accepted connection up to the running link (\<open>core/src/net/serve.rs\<close>).

  Binding, the TLS handshake, the reads and writes of the transport and the passing of
  deadlines are given by their results.
\<close>

subsection \<open>Options and listening\<close>

record server_options =
  so_host :: bytes
  so_port :: nat
  so_tls :: "nat option"
  so_max_message :: nat
  so_max_buffer :: nat
  so_heartbeat :: "nat option"
  so_max_connections :: nat

definition server_default :: server_options where
  [ws_eval]: "server_default =
     \<lparr>so_host = str ''0.0.0.0'', so_port = 0, so_tls = None, so_max_message = MAX_MESSAGE,
      so_max_buffer = MAX_BUFFER, so_heartbeat = Some HEARTBEAT, so_max_connections = usize_max\<rparr>"

record shared =
  sh_id :: id
  sh_events :: events
  sh_tls :: "nat option"
  sh_config :: config
  sh_pending :: nat
  sh_stop :: bool
  sh_connections :: nat
  sh_max_connections :: nat

text \<open>The handle; \<open>sv_released\<close> tells whether nobody has taken the channel that reports the release.\<close>

record server =
  sv_id :: id
  sv_addr :: bytes
  sv_released :: bool

datatype io_error = InvalidInput bytes | OtherIo bytes

text \<open>\<open>listen\<close> on the results of starting the runtime and of the socket calls.\<close>

definition listen ::
  "io_error + unit \<Rightarrow> (bytes \<Rightarrow> nat \<Rightarrow> io_error + unit) \<Rightarrow> io_error + unit \<Rightarrow> io_error + bytes \<Rightarrow> io_error + unit \<Rightarrow>
   events \<Rightarrow> id \<Rightarrow> server_options \<Rightarrow> io_error + server \<times> shared" where
  [ws_eval]: "listen runtime bind set_nonblocking local_addr from_std ev i opts =
     (if so_max_message opts = 0 \<or> so_max_buffer opts = 0 \<or> so_max_connections opts = 0
      then Err (InvalidInput (str ''limits must be positive''))
      else if so_heartbeat opts = Some 0 then Err (InvalidInput (str ''heartbeat must be positive''))
      else case runtime of Err e \<Rightarrow> Err e | Ok _ \<Rightarrow>
      case bind (so_host opts) (so_port opts) of Err e \<Rightarrow> Err e | Ok _ \<Rightarrow>
      case set_nonblocking of Err e \<Rightarrow> Err e | Ok _ \<Rightarrow>
      case local_addr of Err e \<Rightarrow> Err e | Ok addr \<Rightarrow>
      case from_std of Err e \<Rightarrow> Err e | Ok _ \<Rightarrow>
      Ok (\<lparr>sv_id = i, sv_addr = addr, sv_released = True\<rparr>,
          \<lparr>sh_id = i, sh_events = ev, sh_tls = so_tls opts,
           sh_config = \<lparr>cf_message = so_max_message opts, cf_buffer = so_max_buffer opts, cf_heartbeat = so_heartbeat opts\<rparr>,
           sh_pending = 0, sh_stop = False, sh_connections = 0, sh_max_connections = so_max_connections opts\<rparr>))"

text \<open>\<open>Server::close\<close>, also run when the handle is dropped; only the first call waits for the release.\<close>

definition server_close :: "server \<times> shared \<Rightarrow> server \<times> shared" where
  [ws_eval]: "server_close s =
     (case s of (sv, sh) \<Rightarrow>
        case signal_set (sh_stop sh) of (stop, _, previous) \<Rightarrow>
          if previous then (sv, sh\<lparr>sh_stop := stop\<rparr>)
          else (sv\<lparr>sv_released := False\<rparr>, sh\<lparr>sh_stop := stop\<rparr>))"

subsection \<open>Admission\<close>

definition MAX_PENDING :: nat where [ws_eval]: "MAX_PENDING = 256"

text \<open>\<open>Permit::acquire\<close> when no other thread interferes with its first round.\<close>

definition permit_acquire :: "nat \<Rightarrow> nat \<Rightarrow> nat option" where
  [ws_eval]: "permit_acquire limit count =
     (case permit_try limit count False count of (c, Won) \<Rightarrow> Some c | (c, Full) \<Rightarrow> None | (c, Retry _) \<Rightarrow> None)"

datatype accepting = Stop | Pause | Continue | Spawn

text \<open>One round of the accept loop; \<open>accepted\<close> tells whether the listener returned a connection.\<close>

definition accept_round :: "bool \<Rightarrow> shared \<Rightarrow> accepting \<times> shared" where
  [ws_eval]: "accept_round accepted sh =
     (if sh_stop sh \<or> ev_closed (sh_events sh) then (Stop, sh)
      else if \<not> accepted then (Pause, sh)
      else case permit_acquire (sh_max_connections sh) (sh_connections sh) of
             None \<Rightarrow> (Continue, sh)
           | Some c \<Rightarrow>
               (case permit_acquire MAX_PENDING (sh_pending sh) of
                  None \<Rightarrow> (Continue, sh\<lparr>sh_connections := permit_drop c\<rparr>)
                | Some p \<Rightarrow> (Spawn, sh\<lparr>sh_connections := c, sh_pending := p\<rparr>)))"

subsection \<open>The handshake\<close>

definition HANDSHAKE_TIMEOUT :: nat where [ws_eval]: "HANDSHAKE_TIMEOUT = 10 * 1000000000"

text \<open>
  The first half of \<open>handshake\<close>, up to asking the application.  On the left of the result,
  \<open>None\<close> gives up silently and \<open>Some status\<close> refuses with that status.  \<open>head\<close> is \<open>None\<close> when the
  deadline passed first; \<open>reply\<close> is the number of the channel for the decision.
\<close>

definition handshake_head ::
  "id \<Rightarrow> bytes option \<Rightarrow> bool \<Rightarrow> (head_error + bytes \<times> bytes) option \<Rightarrow> nat \<Rightarrow> permit \<Rightarrow> events \<Rightarrow>
   (nat option + Request \<times> bytes \<times> upgrade) \<times> events" where
  [ws_eval]: "handshake_head sid peer_addr secured head reply slot ev =
     (case peer_addr of
        None \<Rightarrow> (Inl None, ev)
      | Some addr \<Rightarrow>
          if \<not> secured then (Inl None, ev)
          else case head of
                 None \<Rightarrow> (Inl (Some 408), ev)
               | Some (Err TooLarge) \<Rightarrow> (Inl (Some 431), ev)
               | Some (Err HeadIo) \<Rightarrow> (Inl None, ev)
               | Some (Ok (head, rest)) \<Rightarrow>
                   (case request head of
                      Err status \<Rightarrow> (Inl (Some status), ev)
                    | Ok parsed \<Rightarrow>
                        let req = \<lparr>up_path = req_target parsed, up_headers = req_headers parsed,
                                   up_protocols = req_protocols parsed, up_addr = addr\<rparr>;
                            (sent, ev) = events_send_pending (EvRequest sid req reply) (Some slot) ev
                        in if sent then (Inr (parsed, rest, req), ev) else (Inl None, ev)))"

text \<open>The second half; \<open>decision\<close> is \<open>None\<close> when the deadline passed or nobody can answer any more.\<close>

definition handshake_decide ::
  "(bytes \<Rightarrow> bytes) \<Rightarrow> reply option \<Rightarrow> (bytes \<Rightarrow> bool) \<Rightarrow> Request \<times> bytes \<times> upgrade \<Rightarrow>
   nat option + bytes \<times> bytes option \<times> upgrade" where
  [ws_eval]: "handshake_decide sha1 decision write_all asked =
     (case asked of (parsed, rest, req) \<Rightarrow>
        case decision of
          Some (Accept protocol) \<Rightarrow>
            if (case protocol of None \<Rightarrow> False | Some p \<Rightarrow> p \<notin> set (up_protocols req)) then Inl (Some 500)
            else if write_all (switching sha1 (req_key parsed) protocol) then Inr (rest, protocol, req)
            else Inl None
        | Some (Reject status) \<Rightarrow> Inl (Some (if 400 \<le> status \<and> status \<le> 599 then status else 500))
        | None \<Rightarrow> Inl (Some 503))"

definition handshake ::
  "(bytes \<Rightarrow> bytes) \<Rightarrow> id \<Rightarrow> bytes option \<Rightarrow> bool \<Rightarrow> (head_error + bytes \<times> bytes) option \<Rightarrow> nat \<Rightarrow> permit \<Rightarrow>
   reply option \<Rightarrow> (bytes \<Rightarrow> bool) \<Rightarrow> events \<Rightarrow> (nat option + bytes \<times> bytes option \<times> upgrade) \<times> events" where
  [ws_eval]: "handshake sha1 sid peer_addr secured head reply slot decision write_all ev =
     (case handshake_head sid peer_addr secured head reply slot ev of
        (Inl e, ev) \<Rightarrow> (Inl e, ev)
      | (Inr asked, ev) \<Rightarrow> (handshake_decide sha1 decision write_all asked, ev))"

text \<open>
  \<open>reject\<close>: after the response and the shutdown, what the client still sends is read and dropped,
  up to 64 KiB.  A read is \<open>None\<close> when it fails or the deadline passed; the result is the number of
  bytes drained, or \<open>None\<close> while a read is pending.
\<close>

fun reject_drain :: "nat \<Rightarrow> nat option list \<Rightarrow> nat option" where
  "reject_drain drained rs =
     (if drained < 64 * 1024
      then (case rs of
              [] \<Rightarrow> None
            | None # _ \<Rightarrow> Some drained
            | Some n # rs \<Rightarrow> if n = 0 then Some drained else reject_drain (drained + n) rs)
      else Some drained)"

declare reject_drain.simps [simp del]

definition reject_stream :: "nat \<Rightarrow> (bytes \<Rightarrow> bool) \<Rightarrow> bool \<Rightarrow> nat option list \<Rightarrow> nat option" where
  [ws_eval]: "reject_stream status write_all shutdown rs =
     (if \<not> write_all (reject status) then Some 0
      else if \<not> shutdown then Some 0
      else reject_drain 0 rs)"

text \<open>The rest of \<open>serve\<close>: the link of an accepted connection, started on the bytes left over.\<close>

definition serve ::
  "shared \<Rightarrow> events \<Rightarrow> id \<Rightarrow> bytes \<Rightarrow> nat \<Rightarrow> (nat \<Rightarrow> mask_key) \<Rightarrow> bytes \<times> bytes option \<times> upgrade \<Rightarrow> conn option" where
  [ws_eval]: "serve sh ev i token now rnd accepted =
     (case accepted of (rest, protocol, req) \<Rightarrow>
        if sh_stop sh \<or> ev_closed ev then None
        else let c = conn_new i True (sh_config sh) ev token now rnd in
             case link_start protocol (EvConnection (sh_id sh) i req) (cn_link c) of
               (go_on, l) \<Rightarrow>
                 Some (c\<lparr>cn_link := l, cn_phase := (if go_on then Looping else Ended),
                         cn_reading := reading_new now rest l, cn_writing := (if go_on then Going else Returned)\<rparr>))"

subsection \<open>The two handshakes agree\<close>

lemma read_client_request:
  assumes "url_parse input = Ok u" "request_ok u (base64_encode nonce) protocols headers"
    and "[] \<notin> set cs" "concat cs = client_request u (base64_encode nonce) protocols headers @ frames"
  shows "\<exists>rest. read_head (map Data cs) = Some (Ok (client_request u (base64_encode nonce) protocols headers, rest)) \<and>
    carried_over (length (client_request u (base64_encode nonce) protocols headers)) cs frames rest"
proof -
  have "request_line u \<noteq> []" by (simp add: request_line_def str_def)
  moreover note request_headers_ok [OF assms(1,2)]
  moreover have "length (client_request u (base64_encode nonce) protocols headers) \<le> MAX_HEAD"
    using assms(2) by (simp add: request_ok_def)
  ultimately show ?thesis
    using assms(3,4) unfolding client_request_print by (intro read_head_print) auto
qed

text \<open>
  C24: The two ends of the handshake agree, over any transport.  When \<open>connect\<close> accepts its
  arguments and the request is within the server's bounds, then however its bytes
  arrive the server shows the application the client's target and subprotocols; and when the
  application accepts one of these, then however the server's answer arrives both ends complete
  with that subprotocol; and neither loses or invents a byte sent behind its head: what it keeps is
  exactly what came with the read that completed the head.
\<close>

theorem handshake_agreement:
  assumes check: "connect_check roots server_name runtime now input opts = Ok (u, deadline)"
    and nonce: "length nonce = 16" and fits: "head_fits u (base64_encode nonce) opts"
    and hub: "ev_rx ev" "\<not> ev_closed ev"
    and up: "[] \<notin> set cs" "concat cs = client_request u (base64_encode nonce) (co_protocols opts) (co_headers opts) @ sent"
    and offered: "case protocol of None \<Rightarrow> True | Some p \<Rightarrow> p \<in> set (co_protocols opts)"
    and len: "length (switching sha1 (base64_encode nonce) protocol) \<le> MAX_HEAD"
    and down: "[] \<notin> set ds" "concat ds = switching sha1 (base64_encode nonce) protocol @ answered"
  shows "\<exists>req rest rest'.
    handshake sha1 sid (Some addr) True (read_head (map Data cs)) n slot (Some (Accept protocol)) (\<lambda>_. True) ev =
      (Inr (rest, protocol, req),
       ev\<lparr>ev_tx := ev_tx ev @ [\<lparr>qd_event = EvRequest sid req n, qd_permit = ev_permit ev, qd_pending = Some slot\<rparr>]\<rparr>) \<and>
    up_path req = url_target u \<and> up_protocols req = co_protocols opts \<and> up_addr req = addr \<and>
    carried_over (length (client_request u (base64_encode nonce) (co_protocols opts) (co_headers opts))) cs sent rest \<and>
    establish sha1 u opts nonce (Ok ()) (Ok ()) (Ok ()) (\<lambda>_. Ok ()) e (map Data ds) = Some (Ok (rest', protocol)) \<and>
    carried_over (length (switching sha1 (base64_encode nonce) protocol)) ds answered rest'"
proof -
  note checked = connect_check_Ok [OF check]
  have url: "url_parse input = Ok u" using checked by simp
  note ok = connect_request_ok [OF check fits]
  from read_client_request [OF url ok up] obtain rest where
    r: "read_head (map Data cs) =
      Some (Ok (client_request u (base64_encode nonce) (co_protocols opts) (co_headers opts), rest))"
      "carried_over (length (client_request u (base64_encode nonce) (co_protocols opts) (co_headers opts))) cs sent rest"
    by blast
  have tokens: "case protocol of None \<Rightarrow> True | Some p \<Rightarrow> p \<in> set (co_protocols opts) \<and> is_token p"
    using offered checked by (auto simp: list_all_iff split: option.splits)
  from establish_switching [OF tokens len down, of "\<lambda>_. Ok ()" u e] obtain rest' where
    "establish sha1 u opts nonce (Ok ()) (Ok ()) (Ok ()) (\<lambda>_. Ok ()) e (map Data ds) = Some (Ok (rest', protocol))"
    "carried_over (length (switching sha1 (base64_encode nonce) protocol)) ds answered rest'" by auto
  then show ?thesis
    using r hub offered request_of_client [OF url nonce ok]
    by (auto simp: handshake_def handshake_head_def handshake_decide_def events_send_pending_def Let_def split: option.splits)
qed

theorem handshake_agreement_witness:
  "\<exists>u nonce protocols ds req.
     url_parse (str ''ws://a/x'') = Ok u \<and> protocols = [str ''chat''] \<and>
     fst (handshake (\<lambda>x. [1]) 5 (Some []) True (read_head [Data (client_request u (base64_encode nonce) protocols [])]) 1 2
        (Some (Accept (Some (str ''chat'')))) (\<lambda>_. True) \<lparr>ev_tx = [], ev_rx = True, ev_permit = Some 3, ev_closed = False\<rparr>)
       = Inr ([], Some (str ''chat''), req) \<and> up_path req = str ''/x'' \<and>
     establish (\<lambda>x. [1]) u (client_default\<lparr>co_protocols := protocols\<rparr>) nonce (Ok ()) (Ok ()) (Ok ()) (\<lambda>_. Ok ()) [] (map Data ds)
       = Some (Ok ([], Some (str ''chat'')))"
proof -
  let ?u = "\<lparr>url_tls = False, url_host = str ''a'', url_port = 80, url_target = str ''/x'', url_authority = str ''a''\<rparr>"
  let ?k = "base64_encode (replicate 16 0)" and ?opts = "client_default\<lparr>co_protocols := [str ''chat'']\<rparr>"
  let ?ev = "\<lparr>ev_tx = [], ev_rx = True, ev_permit = Some 3, ev_closed = False\<rparr>"
  let ?req = "client_request ?u ?k [str ''chat''] []" and ?res = "switching (\<lambda>x. [1]) ?k (Some (str ''chat''))"
  have p: "url_parse (str ''ws://a/x'') = Ok ?u" by code_simp
  have t: "is_token (str ''chat'')" by (simp add: ws_eval)
  have check: "connect_check (Err []) (\<lambda>_. True) (Ok ()) 0 (str ''ws://a/x'') ?opts = Ok (?u, 10 * 1000000000)"
    using t by (simp add: connect_check_def p client_default_def MAX_MESSAGE_def MAX_BUFFER_def HEARTBEAT_def
        instant_checked_add_def)
  have fits: "head_fits ?u ?k ?opts"
    by (simp add: head_fits_def client_default_def client_request_def length_base64_encode)
      (simp add: str_def CRLF_def MAX_HEAD_def MAX_HEADERS_def http_all_def)
  have "length (accept_key (\<lambda>x. [1]) ?k) = 4" by (simp add: accept_key_def length_base64_encode)
  then have len: "length ?res \<le> MAX_HEAD" by (simp add: switching_def MAX_HEAD_def str_def CRLF_def)
  have ne: "?req \<noteq> []" "?res \<noteq> []" by (simp_all add: client_request_def switching_def str_def)
  have cs: "[] \<notin> set [?req]" "concat [?req] = client_request ?u ?k (co_protocols ?opts) (co_headers ?opts) @ []"
    "[] \<notin> set [?res]" "concat [?res] = ?res @ []" using ne by (simp_all add: client_default_def)
  have ev: "ev_rx ?ev" "\<not> ev_closed ?ev" "length (replicate 16 (0::byte)) = 16"
    "case Some (str ''chat'') of None \<Rightarrow> True | Some p \<Rightarrow> p \<in> set (co_protocols ?opts)" by simp_all
  from handshake_agreement [OF check ev(3) fits ev(1,2) cs(1,2) ev(4) len cs(3,4), of 5 "[]" 1 2 "[]"]
  obtain req rest rest' where "carried_over (length (client_request ?u ?k (co_protocols ?opts) (co_headers ?opts))) [?req] [] rest" "up_path req = url_target ?u"
    and h: "handshake (\<lambda>x. [1]) 5 (Some []) True (read_head (map Data [?req])) 1 2 (Some (Accept (Some (str ''chat'')))) (\<lambda>_. True) ?ev =
      (Inr (rest, Some (str ''chat''), req),
       ?ev\<lparr>ev_tx := ev_tx ?ev @ [\<lparr>qd_event = EvRequest 5 req 1, qd_permit = ev_permit ?ev, qd_pending = Some 2\<rparr>]\<rparr>)"
    and e: "establish (\<lambda>x. [1]) ?u ?opts (replicate 16 0) (Ok ()) (Ok ()) (Ok ()) (\<lambda>_. Ok ()) [] (map Data [?res])
      = Some (Ok (rest', Some (str ''chat'')))" "carried_over (length ?res) [?res] [] rest'"
    by blast
  then have "rest = []" "rest' = []" "up_path req = str ''/x''" by (auto dest: carried_over_nil)
  with p h e show ?thesis
    by (intro exI [of _ ?u] exI [of _ "replicate 16 0"] exI [of _ "[str ''chat'']"] exI [of _ "[?res]"] exI [of _ req]) (simp only: fst_conv list.map simp_thms)
qed

lemma handshake_head_cases:
  assumes "handshake_head sid peer_addr secured head n slot ev = (res, ev')"
  shows "case res of
      Inl None \<Rightarrow> ev' = ev
    | Inl (Some status) \<Rightarrow> status \<in> {400, 405, 408, 426, 431} \<and> ev' = ev
    | Inr (r, rest, req) \<Rightarrow>
        (\<exists>h. head = Some (Ok (h, rest)) \<and> request h = Ok r) \<and>
        up_path req = req_target r \<and> up_protocols req = req_protocols r \<and> up_headers req = req_headers r \<and>
        ev' = ev\<lparr>ev_tx := ev_tx ev @ [\<lparr>qd_event = EvRequest sid req n, qd_permit = ev_permit ev, qd_pending = Some slot\<rparr>]\<rparr>"
proof -
  have status: "status \<in> {400, 405, 426}" if "request h = Err status" for h status
    using request_refusal [of h] that by (simp add: refusal_def)
  from assms show ?thesis
    by (auto simp: handshake_head_def events_send_pending_def Let_def dest!: status
        split: option.splits sum.splits head_error.splits if_splits)
qed

lemma handshake_decide_cases:
  assumes "handshake_decide sha1 decision write_all (r, rest, req) = res"
  shows "case res of
      Inl None \<Rightarrow> True
    | Inl (Some status) \<Rightarrow> 400 \<le> status \<and> status \<le> 599
    | Inr (rest', protocol, req') \<Rightarrow> rest' = rest \<and> req' = req \<and> decision = Some (Accept protocol) \<and>
        (case protocol of None \<Rightarrow> True | Some p \<Rightarrow> p \<in> set (up_protocols req))"
  using assms by (auto simp: handshake_decide_def split: option.splits reply.splits if_splits)

text \<open>
  C25: How an upgrade ends, whatever arrives and whatever the application answers.  Either the
  connection is dropped without a word because the transport failed or the hub is gone; or it
  is refused with a status from 400 to 599, which any client of this library reports; or the
  application accepted a well-formed request with one of the offered subprotocols, and the client that
  sent it accepts the response.  The application is asked at most once, only about a
  well-formed request, and the question holds both admission slots.
\<close>

theorem handshake_outcome:
  assumes "handshake sha1 sid peer_addr secured head n slot decision write_all ev = (res, ev')"
  shows "(case res of
      Inl None \<Rightarrow> True
    | Inl (Some status) \<Rightarrow> 400 \<le> status \<and> status \<le> 599 \<and>
        (\<forall>key ps. response sha1 (reject status) key ps = Err (str ''unexpected server response: '' @ format_nat status))
    | Inr (rest, protocol, req) \<Rightarrow>
        \<exists>h r. head = Some (Ok (h, rest)) \<and> request h = Ok r \<and> decision = Some (Accept protocol) \<and>
          up_path req = req_target r \<and> up_protocols req = req_protocols r \<and>
          (length (switching sha1 (req_key r) protocol) \<le> MAX_HEAD \<longrightarrow>
             response sha1 (switching sha1 (req_key r) protocol) (req_key r) (req_protocols r) = Ok protocol)) \<and>
    (ev' = ev \<or>
     (\<exists>h rest r req. head = Some (Ok (h, rest)) \<and> request h = Ok r \<and> admissible r \<and>
        ev' = ev\<lparr>ev_tx := ev_tx ev @ [\<lparr>qd_event = EvRequest sid req n, qd_permit = ev_permit ev, qd_pending = Some slot\<rparr>]\<rparr>))"
proof -
  obtain res1 ev1 where head: "handshake_head sid peer_addr secured head n slot ev = (res1, ev1)" by fastforce
  note h = handshake_head_cases [OF head]
  have refused: "response sha1 (reject status) key ps = Err (str ''unexpected server response: '' @ format_nat status)"
    if "400 \<le> status" "status \<le> 599" for status key ps
    using that by (intro response_of_reject) auto
  show ?thesis
  proof (cases res1)
    case (Inl e)
    then have "res = Inl e" "ev' = ev1" using assms head by (simp_all add: handshake_def)
    with h Inl refused show ?thesis by (cases e) auto
  next
    case (Inr asked)
    obtain r rest req where asked: "asked = (r, rest, req)" by (cases asked) auto
    have res: "handshake_decide sha1 decision write_all (r, rest, req) = res" "ev' = ev1"
      using assms head Inr asked by (simp_all add: handshake_def)
    from h Inr asked obtain hd where hd: "head = Some (Ok (hd, rest))" "request hd = Ok r"
      and req: "up_path req = req_target r" "up_protocols req = req_protocols r"
      and ev1: "ev1 = ev\<lparr>ev_tx := ev_tx ev @ [\<lparr>qd_event = EvRequest sid req n, qd_permit = ev_permit ev, qd_pending = Some slot\<rparr>]\<rparr>"
      by auto
    have adm: "admissible r" using request_admissible [OF hd(2)] .
    have resp: "response sha1 (switching sha1 (req_key r) protocol) (req_key r) (req_protocols r) = Ok protocol"
      if "length (switching sha1 (req_key r) protocol) \<le> MAX_HEAD"
        "case protocol of None \<Rightarrow> True | Some p \<Rightarrow> p \<in> set (up_protocols req)" for protocol
      using that adm req(2)
      by (intro response_of_switching) (auto simp: admissible_def list_all_iff split: option.splits)
    have "(ev' = ev \<or>
     (\<exists>h rest r req. head = Some (Ok (h, rest)) \<and> request h = Ok r \<and> admissible r \<and>
        ev' = ev\<lparr>ev_tx := ev_tx ev @ [\<lparr>qd_event = EvRequest sid req n, qd_permit = ev_permit ev, qd_pending = Some slot\<rparr>]\<rparr>))"
      using hd adm ev1 res(2) by blast
    moreover note handshake_decide_cases [OF res(1)]
    ultimately show ?thesis
      using hd req resp refused by (auto split: sum.splits option.splits prod.splits)
  qed
qed

theorem handshake_outcome_witness:
  "fst (handshake (\<lambda>x. x) 5 (Some []) True (Some (Err TooLarge)) 1 2 None (\<lambda>_. True) \<lparr>ev_tx = [], ev_rx = True, ev_permit = None, ev_closed = False\<rparr>) = Inl (Some 431) \<and>
   response (\<lambda>x. x) (reject 431) [] [] = Err (str ''unexpected server response: '' @ format_nat 431)"
proof -
  let ?ev = "\<lparr>ev_tx = [], ev_rx = True, ev_permit = None, ev_closed = False\<rparr>"
  have "handshake (\<lambda>x. x) 5 (Some []) True (Some (Err TooLarge)) 1 2 None (\<lambda>_. True) ?ev = (Inl (Some 431), ?ev)"
    by (simp add: handshake_def handshake_head_def)
  with handshake_outcome [OF this] show ?thesis by simp
qed

text \<open>
  A refusal never reads on without end: whatever the client sends in reads of at most 4096 bytes,
  the drain has stopped before 68 KiB, and it is only pending while the reads so far fit.
\<close>

lemma reject_drain_bounded:
  assumes "list_all (\<lambda>r. case r of None \<Rightarrow> True | Some n \<Rightarrow> n \<le> 4096) rs" "drained < 64 * 1024 + 4096"
  shows "case reject_drain drained rs of Some n \<Rightarrow> n < 64 * 1024 + 4096 | None \<Rightarrow> length rs < 64 * 1024 - drained"
  using assms
proof (induction drained rs rule: reject_drain.induct)
  case (1 drained rs)
  show ?case
  proof (cases "drained < 64 * 1024 \<and> rs \<noteq> []")
    case True
    then obtain r rs' where rs: "rs = r # rs'" by (cases rs) auto
    show ?thesis
    proof (cases r)
      case (Some n)
      show ?thesis
      proof (cases "n = 0")
        case False
        have "case reject_drain (drained + n) rs' of Some n \<Rightarrow> n < 64 * 1024 + 4096 | None \<Rightarrow> length rs' < 64 * 1024 - (drained + n)"
          using 1 True rs Some False by simp
        moreover have "reject_drain drained rs = reject_drain (drained + n) rs'"
          using True rs Some False by (simp add: reject_drain.simps [of drained])
        ultimately show ?thesis using rs False by (auto split: option.splits)
      qed (use True rs Some 1 in \<open>simp add: reject_drain.simps\<close>)
    qed (use True rs 1 in \<open>simp add: reject_drain.simps\<close>)
  qed (use 1 in \<open>auto simp: reject_drain.simps\<close>)
qed

text \<open>
  C34: Refusing a client ends, however much the client sends: with reads of at most 4096 bytes, as the buffer
  allows, the drain has stopped after at most 65536 reads, and has then taken less than 68 KiB.
\<close>

theorem reject_drain_ends:
  assumes "list_all (\<lambda>r. case r of None \<Rightarrow> True | Some n \<Rightarrow> n \<le> 4096) rs" "64 * 1024 \<le> length rs"
  shows "\<exists>drained. reject_drain 0 rs = Some drained \<and> drained < 64 * 1024 + 4096"
  using reject_drain_bounded [OF assms(1), of 0] assms(2) by (auto split: option.splits)

theorem reject_drain_ends_witness:
  "\<exists>drained. reject_drain 0 (replicate (64 * 1024) (Some 4096)) = Some drained \<and> drained < 64 * 1024 + 4096"
  by (rule reject_drain_ends) (simp_all add: list_all_iff)

end
