(* ===== verification/Admission.thy ===== *)
theory Admission
  imports Server
begin

text \<open>
  A whole server: the accept loop (\<open>core/src/net/accept.rs\<close>), one task per accepted connection
  (\<open>serve\<close> in \<open>core/src/net/serve.rs\<close>) with its handshake and then its connection, and the hub
  draining the events (\<open>core/src/queue.rs\<close>), all interleaved in any order.

  A permit is counted until its last reference is gone.  Those of the connection number \<open>k\<close> are
  both called \<open>k\<close>; they are referenced by its running task, by its sender of events, and by its
  events that are still queued.
\<close>

subsection \<open>Tasks\<close>

datatype stage = Shaking events | Deciding "Request \<times> bytes \<times> upgrade" events | Serving conn

fun stage_events :: "stage \<Rightarrow> events" where
  "stage_events (Shaking ev) = ev"
| "stage_events (Deciding _ ev) = ev"
| "stage_events (Serving c) = lk_events (cn_link c)"

fun is_serving :: "stage \<Rightarrow> bool" where
  "is_serving (Serving _) = True"
| "is_serving _ = False"

record task =
  tk_stage :: stage
  tk_running :: bool
  tk_taken :: nat

definition task_new :: "shared \<Rightarrow> permit \<Rightarrow> task" where
  [ws_eval]: "task_new sh k = \<lparr>tk_stage = Shaking (events_admitted (sh_events sh) k), tk_running = True, tk_taken = 0\<rparr>"

definition undrained :: "task \<Rightarrow> queued list" where
  [ws_eval]: "undrained t = drop (tk_taken t) (ev_tx (stage_events (tk_stage t)))"

text \<open>
  Whether a permit is still referenced.  An ended handshake has dropped its sender; the sender of
  a connection lives as long as the application keeps its handle, here forever.
\<close>

definition holds_permit :: "task \<Rightarrow> bool" where
  [ws_eval]: "holds_permit t \<longleftrightarrow>
     tk_running t \<or> (is_serving (tk_stage t) \<and> ev_permit (stage_events (tk_stage t)) \<noteq> None) \<or>
     list_ex (\<lambda>q. qd_permit q \<noteq> None) (undrained t)"

definition holds_pending :: "task \<Rightarrow> bool" where
  [ws_eval]: "holds_pending t \<longleftrightarrow>
     (tk_running t \<and> \<not> is_serving (tk_stage t)) \<or> list_ex (\<lambda>q. qd_pending q \<noteq> None) (undrained t)"

subsection \<open>The steps of a server\<close>

text \<open>Replacing a task by what a step makes of it; a permit without references is dropped.\<close>

definition settle :: "nat \<Rightarrow> task \<Rightarrow> shared \<times> task list \<Rightarrow> shared \<times> task list" where
  [ws_eval]: "settle k t' s =
     (case s of (sh, ts) \<Rightarrow>
        (sh\<lparr>sh_connections := (if holds_permit (ts ! k) \<and> \<not> holds_permit t' then permit_drop (sh_connections sh)
                              else sh_connections sh),
            sh_pending := (if holds_pending (ts ! k) \<and> \<not> holds_pending t' then permit_drop (sh_pending sh)
                           else sh_pending sh)\<rparr>,
         ts[k := t']))"

text \<open>What one task can do, in the order of \<open>serve\<close>.\<close>

inductive task_step :: "shared \<Rightarrow> permit \<Rightarrow> task \<Rightarrow> task \<Rightarrow> bool" for sh k where
  asked: "\<lbrakk>tk_running t; tk_stage t = Shaking ev;
      handshake_head (sh_id sh) peer_addr secured head n k ev = (Inr question, ev')\<rbrakk> \<Longrightarrow>
    task_step sh k t (t\<lparr>tk_stage := Deciding question ev'\<rparr>)"
| refused: "\<lbrakk>tk_running t; tk_stage t = Shaking ev;
      handshake_head (sh_id sh) peer_addr secured head n k ev = (Inl e, ev')\<rbrakk> \<Longrightarrow>
    task_step sh k t (t\<lparr>tk_stage := Shaking ev', tk_running := False\<rparr>)"
| accepted: "\<lbrakk>tk_running t; tk_stage t = Deciding question ev;
      handshake_decide sha1 decision write_all question = Inr answer;
      length token = 8; serve sh ev i token now rnd answer = Some c\<rbrakk> \<Longrightarrow>
    task_step sh k t (t\<lparr>tk_stage := Serving c\<rparr>)"
| declined: "\<lbrakk>tk_running t; tk_stage t = Deciding question ev;
      handshake_decide sha1 decision write_all question = Inl e\<rbrakk> \<Longrightarrow>
    task_step sh k t (t\<lparr>tk_running := False\<rparr>)"
| withdrawn: "\<lbrakk>tk_running t; \<not> is_serving (tk_stage t); sh_stop sh \<or> ev_closed (stage_events (tk_stage t))\<rbrakk> \<Longrightarrow>
    task_step sh k t (t\<lparr>tk_running := False\<rparr>)"
| served: "\<lbrakk>tk_stage t = Serving c; conn_step c c'\<rbrakk> \<Longrightarrow> task_step sh k t (t\<lparr>tk_stage := Serving c'\<rparr>)"
| ended: "\<lbrakk>tk_running t; tk_stage t = Serving c; cn_phase c = Ended\<rbrakk> \<Longrightarrow>
    task_step sh k t (t\<lparr>tk_stage := Serving (c\<lparr>cn_link := lease_drop (cn_link c)\<rparr>), tk_running := False\<rparr>)"
| hub_gone: "\<lbrakk>tk_running t; tk_stage t = Shaking ev\<rbrakk> \<Longrightarrow>
    task_step sh k t (t\<lparr>tk_stage := Shaking (ev\<lparr>ev_rx := rx, ev_closed := closed\<rparr>)\<rparr>)"
| hub_gone_deciding: "\<lbrakk>tk_running t; tk_stage t = Deciding question ev\<rbrakk> \<Longrightarrow>
    task_step sh k t (t\<lparr>tk_stage := Deciding question (ev\<lparr>ev_rx := rx, ev_closed := closed\<rparr>)\<rparr>)"
| received: "undrained t \<noteq> [] \<Longrightarrow> task_step sh k t (t\<lparr>tk_taken := Suc (tk_taken t)\<rparr>)"

inductive server_step :: "shared \<times> task list \<Rightarrow> shared \<times> task list \<Rightarrow> bool" where
  spawn: "accept_round accepted sh = (Spawn, sh') \<Longrightarrow>
    server_step (sh, ts) (sh', ts @ [task_new sh (length ts)])"
| no_spawn: "\<lbrakk>accept_round accepted sh = (res, sh'); res \<noteq> Spawn\<rbrakk> \<Longrightarrow> server_step (sh, ts) (sh', ts)"
| closed: "server_close (sv, sh) = (sv', sh') \<Longrightarrow> server_step (sh, ts) (sh', ts)"
| hub_closed: "server_step (sh, ts) (sh\<lparr>sh_events := events_close (sh_events sh)\<rparr>, ts)"
| task: "\<lbrakk>k < length ts; task_step sh k (ts ! k) t'\<rbrakk> \<Longrightarrow> server_step (sh, ts) (settle k t' (sh, ts))"

subsection \<open>The invariant\<close>

fun stage_ok :: "bool \<Rightarrow> permit \<Rightarrow> stage \<Rightarrow> bool" where
  "stage_ok running k (Shaking ev) \<longleftrightarrow> ev_tx ev = [] \<and> ev_permit ev = Some k"
| "stage_ok running k (Deciding _ ev) \<longleftrightarrow>
     ev_permit ev = Some k \<and> list_all (\<lambda>q. \<not> is_close_event (qd_event q)) (ev_tx ev)"
| "stage_ok running k (Serving c) \<longleftrightarrow>
     (\<exists>fs. conn_inv c fs) \<and> (running \<or> link_state (cn_link c) = Closed) \<and>
     (ev_permit (lk_events (cn_link c)) = Some k \<or> link_state (cn_link c) = Closed)"

definition task_ok :: "permit \<Rightarrow> task \<Rightarrow> bool" where
  "task_ok k t \<longleftrightarrow>
     stage_ok (tk_running t) k (tk_stage t) \<and>
     list_all (\<lambda>q. qd_permit q = Some k) (ev_tx (stage_events (tk_stage t))) \<and>
     tk_taken t \<le> length (ev_tx (stage_events (tk_stage t)))"

lemma closed_no_permit:
  "\<lbrakk>conn_inv c fs; link_state (cn_link c) = Closed\<rbrakk> \<Longrightarrow> ev_permit (lk_events (cn_link c)) = None"
  by (simp add: conn_inv_def link_inv_def)

lemma undrained_permit:
  assumes "task_ok k t"
  shows "list_ex (\<lambda>q. qd_permit q \<noteq> None) (undrained t) \<longleftrightarrow> undrained t \<noteq> []"
proof -
  have "\<forall>q \<in> set (undrained t). qd_permit q = Some k"
    using assms by (auto simp: task_ok_def undrained_def list_all_iff dest: in_set_dropD)
  then show ?thesis by (cases "undrained t") auto
qed

lemma holds_permit_iff: "task_ok k t \<Longrightarrow> holds_permit t \<longleftrightarrow> tk_running t \<or> undrained t \<noteq> []"
  using undrained_permit [of k t]
  by (cases "tk_stage t") (auto simp: holds_permit_def task_ok_def dest: closed_no_permit)

lemma task_new_ok: "ev_tx (sh_events sh) = [] \<Longrightarrow> task_ok k (task_new sh k)"
  by (simp add: task_ok_def task_new_def events_admitted_def)

lemma asked_events:
  assumes "handshake_head sid peer_addr secured head n k ev = (res, ev')" "ev_permit ev = Some k" "ev_tx ev = []"
  shows "case res of Inl e \<Rightarrow> ev' = ev
    | Inr q \<Rightarrow> ev_permit ev' = Some k \<and> (\<exists>req. ev_tx ev' = [\<lparr>qd_event = EvRequest sid req n, qd_permit = Some k, qd_pending = Some k\<rparr>])"
  using handshake_head_cases [OF assms(1)] assms(2,3) by (auto split: sum.splits option.splits)

lemma serve_step:
  assumes "serve sh ev i token now rnd answer = Some c"
  shows "conn_step (conn_new i True (sh_config sh) ev token now rnd) c"
proof -
  obtain rest protocol req where a: "answer = (rest, protocol, req)" by (cases answer) auto
  let ?c = "conn_new i True (sh_config sh) ev token now rnd"
  obtain go_on l where s: "link_start protocol (EvConnection (sh_id sh) i req) (cn_link ?c) = (go_on, l)" by fastforce
  have "cn_phase ?c = Unstarted" "\<not> is_close_event (EvConnection (sh_id sh) i req)" by (simp_all add: conn_new_def Let_def)
  from conn_step.start [OF this s, of now rest] show ?thesis
    using assms a s by (auto simp: serve_def Let_def split: if_splits)
qed

text \<open>What a step of a connection does to its queued events.\<close>

lemma conn_step_events:
  assumes "conn_step c c'" "\<exists>fs. conn_inv c fs" "ev_permit (lk_events (cn_link c)) = Some k \<or> link_state (cn_link c) = Closed"
  shows "\<exists>fs. conn_inv c' fs" "ev_permit (lk_events (cn_link c')) = Some k \<or> link_state (cn_link c') = Closed"
    "link_state (cn_link c) = Closed \<Longrightarrow> link_state (cn_link c') = Closed"
    "\<exists>qs. ev_tx (lk_events (cn_link c')) = ev_tx (lk_events (cn_link c)) @ qs \<and>
      list_all (\<lambda>q. qd_permit q = Some k \<and> qd_pending q = None) qs \<and> (link_state (cn_link c) = Closed \<longrightarrow> qs = [])"
proof -
  obtain fs where "conn_inv c fs" using assms(2) by blast
  from conn_step_inv [OF assms(1) this] obtain gs where c': "conn_inv c' (fs @ gs)" and e: "evolves (cn_link c) (cn_link c')"
    by blast
  then show "\<exists>fs. conn_inv c' fs" by blast
  show closed: "link_state (cn_link c') = Closed" if "link_state (cn_link c) = Closed"
    using that e state_rank_3 [of "link_state (cn_link c')"] by (simp add: evolves_def)
  with e assms(3) show "ev_permit (lk_events (cn_link c')) = Some k \<or> link_state (cn_link c') = Closed"
    by (auto simp: evolves_def)
  obtain qs where qs: "ev_tx (lk_events (cn_link c')) = ev_tx (lk_events (cn_link c)) @ qs"
    "list_all (\<lambda>q. qd_pending q = None \<and> qd_permit q = ev_permit (lk_events (cn_link c))) qs"
    "link_state (cn_link c) = Closed \<longrightarrow> qs = []"
    using e by (auto simp: evolves_def sends_def)
  with assms(3) show "\<exists>qs. ev_tx (lk_events (cn_link c')) = ev_tx (lk_events (cn_link c)) @ qs \<and>
      list_all (\<lambda>q. qd_permit q = Some k \<and> qd_pending q = None) qs \<and> (link_state (cn_link c) = Closed \<longrightarrow> qs = [])"
    by (intro exI [of _ qs]) (auto simp: list_all_iff)
qed

lemma served_ok:
  assumes ok: "task_ok k t" and c: "tk_stage t = Serving c" "conn_step c c'"
    and t': "tk_stage t' = Serving c'" "tk_taken t' = tk_taken t" "tk_running t' = tk_running t \<or> link_state (cn_link c') = Closed"
      "tk_running t' \<longrightarrow> tk_running t"
  shows "task_ok k t' \<and> (holds_permit t' \<longrightarrow> holds_permit t) \<and> (holds_pending t' \<longrightarrow> holds_pending t)"
proof -
  have inv: "\<exists>fs. conn_inv c fs" "ev_permit (lk_events (cn_link c)) = Some k \<or> link_state (cn_link c) = Closed"
    using ok c(1) by (simp_all add: task_ok_def)
  note e = conn_step_events [OF c(2) inv]
  obtain qs where qs: "ev_tx (lk_events (cn_link c')) = ev_tx (lk_events (cn_link c)) @ qs"
    "list_all (\<lambda>q. qd_permit q = Some k \<and> qd_pending q = None) qs" "link_state (cn_link c) = Closed \<longrightarrow> qs = []"
    using e(4) by blast
  have und: "undrained t' = undrained t @ qs" using ok c(1) t' qs(1) by (simp add: undrained_def task_ok_def)
  have ok': "task_ok k t'"
    using ok c(1) t' e(1-3) qs by (auto simp: task_ok_def list_all_iff)
  moreover have "holds_permit t' \<longrightarrow> holds_permit t"
    unfolding holds_permit_iff [OF ok] holds_permit_iff [OF ok'] und using ok c(1) t'(4) qs(3) by (auto simp: task_ok_def)
  moreover have "holds_pending t' \<longrightarrow> holds_pending t"
    unfolding holds_pending_def und using c(1) t'(1) qs(2) by (auto simp: list_all_iff list_ex_iff)
  ultimately show ?thesis by blast
qed

lemma task_step_ok:
  assumes "task_step sh k t t'" "task_ok k t"
  shows "task_ok k t' \<and> (holds_permit t' \<longrightarrow> holds_permit t) \<and> (holds_pending t' \<longrightarrow> holds_pending t)"
  using assms
proof (induction rule: task_step.induct)
  case (asked t ev peer_addr secured head n question ev')
  then have "ev_permit ev = Some k" "ev_tx ev = []" by (simp_all add: task_ok_def)
  from asked_events [OF asked(3) this] asked show ?case
    by (auto simp: task_ok_def holds_permit_def holds_pending_def)
next
  case (refused t ev peer_addr secured head n e ev')
  then have "ev_permit ev = Some k" "ev_tx ev = []" by (simp_all add: task_ok_def)
  from asked_events [OF refused(3) this] refused show ?case
    by (auto simp: task_ok_def holds_permit_def holds_pending_def undrained_def)
next
  case (accepted t question ev sha1 decision write_all answer token i now rnd c)
  let ?c = "conn_new i True (sh_config sh) ev token now rnd"
  have ev: "ev_permit ev = Some k" "list_all (\<lambda>q. \<not> is_close_event (qd_event q)) (ev_tx ev)"
    "list_all (\<lambda>q. qd_permit q = Some k) (ev_tx ev)" "tk_taken t \<le> length (ev_tx ev)"
    using accepted by (simp_all add: task_ok_def)
  have new: "lk_events (cn_link ?c) = ev" by (simp add: conn_new_def link_new_def Let_def)
  have "conn_inv ?c []" using ev(2) accepted(4) by (intro conn_new_inv) simp_all
  with ev(1) new have "\<exists>fs. conn_inv ?c fs" "ev_permit (lk_events (cn_link ?c)) = Some k \<or> link_state (cn_link ?c) = Closed"
    by auto
  from conn_step_events [OF serve_step [OF accepted(5)] this] ev accepted(1) new show ?case
    by (auto simp: task_ok_def holds_permit_def holds_pending_def list_all_iff accepted(2))
next
  case (ended t c)
  show ?case
    by (rule served_ok [OF ended(4) ended(2) conn_step.lease]) (simp_all add: lease_drop_def ended(1))
next
  case (served t c c')
  show ?case by (rule served_ok [OF served(3,1,2)]) simp_all
next
  case (withdrawn t)
  then show ?case
    by (cases "tk_stage t") (auto simp: task_ok_def holds_permit_def holds_pending_def undrained_def)
next
  case (received t)
  let ?t = "t\<lparr>tk_taken := Suc (tk_taken t)\<rparr>"
  have "set (undrained ?t) \<subseteq> set (undrained t)" by (simp add: undrained_def set_drop_subset_set_drop)
  moreover have "task_ok k ?t" using received by (simp add: task_ok_def undrained_def)
  ultimately show ?case by (auto simp: holds_permit_def holds_pending_def list_ex_iff)
qed (auto simp: task_ok_def holds_permit_def holds_pending_def undrained_def)

subsection \<open>Counting\<close>

lemma length_filter_snoc: "length (filter P (xs @ [x])) = length (filter P xs) + (if P x then 1 else 0)"
  by simp

lemma length_filter_update:
  "k < length xs \<Longrightarrow>
     length (filter P (xs[k := x])) + (if P (xs ! k) then 1 else 0) = length (filter P xs) + (if P x then 1 else 0)"
proof (induction xs arbitrary: k)
  case (Cons y ys)
  then show ?case by (cases k) auto
qed simp

lemma permit_drop_filter:
  assumes "k < length ts" "n = length (filter P ts)" "P t' \<longrightarrow> P (ts ! k)"
  shows "(if P (ts ! k) \<and> \<not> P t' then permit_drop n else n) = length (filter P (ts[k := t']))"
  using length_filter_update [of k ts P t'] assms by (auto simp: permit_drop_def)

definition server_inv :: "nat \<Rightarrow> shared \<times> task list \<Rightarrow> bool" where
  "server_inv m s \<longleftrightarrow>
     (case s of (sh, ts) \<Rightarrow>
        sh_max_connections sh = m \<and> ev_tx (sh_events sh) = [] \<and> (\<forall>k < length ts. task_ok k (ts ! k)) \<and>
        sh_connections sh = length (filter holds_permit ts) \<and> sh_connections sh \<le> m \<and>
        sh_pending sh = length (filter holds_pending ts) \<and> sh_pending sh \<le> MAX_PENDING)"

lemma permit_acquire_eq: "permit_acquire limit n = (if n < limit then Some (n + 1) else None)"
  by (simp add: permit_acquire_def permit_try_def)

lemma accept_round_eq:
  "accept_round accepted sh =
     (if sh_stop sh \<or> ev_closed (sh_events sh) then (Stop, sh)
      else if \<not> accepted then (Pause, sh)
      else if sh_connections sh < sh_max_connections sh \<and> sh_pending sh < MAX_PENDING
      then (Spawn, sh\<lparr>sh_connections := sh_connections sh + 1, sh_pending := sh_pending sh + 1\<rparr>)
      else (Continue, sh))"
  by (simp add: accept_round_def permit_acquire_eq permit_drop_def)

lemma task_new_holds: "holds_permit (task_new sh k)" "holds_pending (task_new sh k)"
  by (simp_all add: holds_permit_def holds_pending_def task_new_def)

lemma server_step_inv:
  assumes "server_step s s'" "server_inv m s"
  shows "server_inv m s'"
  using assms
proof (induction rule: server_step.induct)
  case (spawn accepted sh sh' ts)
  then have sh': "sh' = sh\<lparr>sh_connections := sh_connections sh + 1, sh_pending := sh_pending sh + 1\<rparr>"
    "sh_connections sh < m" "sh_pending sh < MAX_PENDING"
    by (auto simp: accept_round_eq server_inv_def split: if_splits)
  have "task_ok (length ts) (task_new sh (length ts))" using spawn by (intro task_new_ok) (simp add: server_inv_def)
  with spawn sh' show ?case
    by (auto simp: server_inv_def nth_append less_Suc_eq task_new_holds)
next
  case (task k ts sh t')
  have "task_ok k (ts ! k)" using task by (simp add: server_inv_def)
  note step = task_step_ok [OF task(2) this]
  have "\<forall>j < length (ts[k := t']). task_ok j (ts[k := t'] ! j)"
    using step task(1,3) by (auto simp: server_inv_def nth_list_update)
  moreover note permit_drop_filter [OF task(1), of _ holds_permit t'] permit_drop_filter [OF task(1), of _ holds_pending t']
  moreover have "permit_drop n \<le> n" if "0 < n" for n using that by (simp add: permit_drop_def)
  ultimately show ?case
    using step task(1,3) length_filter_update [OF task(1), of holds_permit t'] length_filter_update [OF task(1), of holds_pending t']
    by (auto simp: server_inv_def settle_def split: if_splits)
qed (auto simp: server_inv_def accept_round_eq server_close_def signal_set_def events_close_def split: if_splits)

lemma server_steps_inv: "\<lbrakk>server_step\<^sup>*\<^sup>* s s'; server_inv m s\<rbrakk> \<Longrightarrow> server_inv m s'"
  by (induction rule: rtranclp_induct) (auto intro: server_step_inv)

lemma listen_inv:
  assumes "listen runtime bound nonblocking local_addr from_std ev i opts = Ok (sv, sh)" "ev_tx ev = []"
  shows "server_inv (so_max_connections opts) (sh, []) \<and> 0 < so_max_connections opts"
  using assms unfolding listen_def guards by (elim exE conjE) (auto simp: server_inv_def)

text \<open>What occupies capacity.\<close>

definition connections :: "task list \<Rightarrow> nat" where
  "connections ts = length (filter (\<lambda>t. tk_running t \<or> undrained t \<noteq> []) ts)"

definition handshakes :: "task list \<Rightarrow> nat" where
  "handshakes ts =
     length (filter (\<lambda>t. tk_running t \<and> \<not> is_serving (tk_stage t) \<or> list_ex (\<lambda>q. qd_pending q \<noteq> None) (undrained t)) ts)"

text \<open>
  C26: Admission is exact.  In every state that a server can reach, under every interleaving of its
  accept loop, handshakes, connections, the application's calls and the hub, the connection counter is
  the number of connections whose task runs or whose events are not all drained (a handle that
  the application keeps does not count), and the handshake counter the number of those
  whose handshake runs or whose question is not drained; both are within their limits; and the
  next connection is admitted exactly when the listener and the hub are open and both are below
  them, so no capacity is ever lost.
\<close>

theorem admission_exact:
  assumes "listen runtime bound nonblocking local_addr from_std ev i opts = Ok (sv, sh0)" "ev_tx ev = []"
    and "server_step\<^sup>*\<^sup>* (sh0, []) (sh, ts)"
  shows "sh_connections sh = connections ts \<and> connections ts \<le> so_max_connections opts \<and>
    sh_pending sh = handshakes ts \<and> handshakes ts \<le> MAX_PENDING \<and>
    (fst (accept_round True sh) = Spawn \<longleftrightarrow>
       \<not> sh_stop sh \<and> \<not> ev_closed (sh_events sh) \<and>
       connections ts < so_max_connections opts \<and> handshakes ts < MAX_PENDING)"
proof -
  have inv: "server_inv (so_max_connections opts) (sh, ts)"
    using server_steps_inv [OF assms(3)] listen_inv [OF assms(1,2)] by blast
  have "filter holds_permit ts = filter (\<lambda>t. tk_running t \<or> undrained t \<noteq> []) ts"
    using inv by (intro filter_cong refl) (auto simp: server_inv_def in_set_conv_nth holds_permit_iff)
  with inv show ?thesis by (auto simp: server_inv_def connections_def handshakes_def holds_pending_def [abs_def] accept_round_eq)
qed

theorem admission_exact_witness:
  "\<exists>sv sh0 sh t. listen (Ok ()) (\<lambda>_ _. Ok ()) (Ok ()) (Ok []) (Ok ())
       \<lparr>ev_tx = [], ev_rx = True, ev_permit = None, ev_closed = False\<rparr> 5 (server_default\<lparr>so_max_connections := 1\<rparr>) = Ok (sv, sh0) \<and>
     server_step\<^sup>*\<^sup>* (sh0, []) (sh, [t]) \<and> sh_connections sh = 1 \<and> connections [t] = 1 \<and> handshakes [t] = 1 \<and>
     fst (accept_round True sh) \<noteq> Spawn"
proof -
  let ?ev = "\<lparr>ev_tx = [], ev_rx = True, ev_permit = None, ev_closed = False\<rparr>"
  let ?opts = "server_default\<lparr>so_max_connections := 1\<rparr>"
  let ?init = "\<lparr>sh_id = 5, sh_events = ?ev, sh_tls = None,
    sh_config = \<lparr>cf_message = MAX_MESSAGE, cf_buffer = MAX_BUFFER, cf_heartbeat = Some HEARTBEAT\<rparr>,
    sh_pending = 0, sh_stop = False, sh_connections = 0, sh_max_connections = 1\<rparr>"
  let ?sh = "?init\<lparr>sh_connections := 1, sh_pending := 1\<rparr>"
  have l: "listen (Ok ()) (\<lambda>_ _. Ok ()) (Ok ()) (Ok []) (Ok ()) ?ev 5 ?opts
      = Ok (\<lparr>sv_id = 5, sv_addr = [], sv_released = True\<rparr>, ?init)"
    by (simp add: listen_def server_default_def MAX_MESSAGE_def MAX_BUFFER_def HEARTBEAT_def)
  have "accept_round True ?init = (Spawn, ?sh)" by (simp add: accept_round_eq MAX_PENDING_def)
  from server_step.spawn [OF this, of "[]"] have s: "server_step\<^sup>*\<^sup>* (?init, []) (?sh, [task_new ?init 0])" by simp
  from admission_exact [OF l _ s]
  have "sh_connections ?sh = connections [task_new ?init 0]" "sh_pending ?sh = handshakes [task_new ?init 0]"
    "fst (accept_round True ?sh) = Spawn \<longrightarrow> connections [task_new ?init 0] < 1" by simp_all
  with l s show ?thesis
    by (intro exI [of _ "\<lparr>sv_id = 5, sv_addr = [], sv_released = True\<rparr>"] exI [of _ ?init] exI [of _ ?sh]
        exI [of _ "task_new ?init 0"]) simp
qed

end
