(* ===== verification/Net.thy ===== *)
theory Net
  imports Client
begin

text \<open>
  The rest of the network layer: staggered dialling (\<open>core/src/net/dial.rs\<close>), name resolution
  (\<open>dns.rs\<close>), the reusable timer (\<open>timer.rs\<close>), transport progress (\<open>activity.rs\<close>), the runtime's
  size and deadlines (\<open>runtime.rs\<close>), the write sizes of a transport (\<open>transport.rs\<close>), and loading TLS
  material (\<open>core/src/tls.rs\<close>).

  Sockets, the OS resolver, tokio's sleep and rustls are given by their results.
\<close>

subsection \<open>Dialling\<close>

definition STAGGER :: nat where [ws_eval]: "STAGGER = 250 * 1000000"

text \<open>
  How an attempt ends: connected, refused, or with its task broken.  An attempt is the number of its
  address.  What \<open>select!\<close> sees next is one of the running attempts or the end of the stagger.
\<close>

datatype attempt_end = Connected | Refused bytes | Broken bytes

datatype dial_event = Joined nat | Staggered

record dialling =
  dl_attempts :: "nat list"
  dl_next :: nat
  dl_error :: "bytes option"

definition dial_start :: "nat \<Rightarrow> dialling \<Rightarrow> dialling" where
  [ws_eval]: "dial_start count d =
     (if dl_next d < count then d\<lparr>dl_attempts := dl_attempts d @ [dl_next d], dl_next := dl_next d + 1\<rparr> else d)"

text \<open>
  The loop over \<open>count\<close> addresses, with \<open>fate\<close> the end of each attempt; \<open>None\<close> while it still waits.
  \<open>Joined i\<close> is the end of the \<open>i\<close>-th of the running attempts, counted around.
\<close>

fun dial_loop :: "nat \<Rightarrow> (nat \<Rightarrow> attempt_end) \<Rightarrow> dialling \<Rightarrow> dial_event list \<Rightarrow> (bytes option + nat) option" where
  "dial_loop count fate d evs =
     (if dl_attempts d = [] then Some (Err (dl_error d))
      else case evs of
        [] \<Rightarrow> None
      | Staggered # evs \<Rightarrow> dial_loop count fate (dial_start count d) evs
      | Joined i # evs \<Rightarrow>
          let k = dl_attempts d ! (i mod length (dl_attempts d));
              d = d\<lparr>dl_attempts := remove1 k (dl_attempts d)\<rparr>
          in (case fate k of
                Connected \<Rightarrow> Some (Ok k)
              | Refused e \<Rightarrow> dial_loop count fate (dial_start count (d\<lparr>dl_error := Some e\<rparr>)) evs
              | Broken e \<Rightarrow> dial_loop count fate (d\<lparr>dl_error := Some (str ''cannot connect: '' @ e)\<rparr>) evs))"

declare dial_loop.simps [simp del]

definition dial :: "nat \<Rightarrow> (nat \<Rightarrow> attempt_end) \<Rightarrow> dial_event list \<Rightarrow> (bytes option + nat) option" where
  [ws_eval]: "dial count fate evs =
     dial_loop count fate (dial_start count \<lparr>dl_attempts = [], dl_next = 0, dl_error = None\<rparr>) evs"

text \<open>The addresses not yet started are the last ones, and each other one runs or was refused.\<close>

definition dial_inv :: "nat \<Rightarrow> (nat \<Rightarrow> attempt_end) \<Rightarrow> dialling \<Rightarrow> bool" where
  "dial_inv count fate d \<longleftrightarrow>
     dl_next d \<le> count \<and> distinct (dl_attempts d) \<and> (\<forall>k \<in> set (dl_attempts d). k < dl_next d) \<and>
     (\<forall>k < dl_next d. k \<notin> set (dl_attempts d) \<longrightarrow> (\<exists>e. fate k = Refused e)) \<and>
     (dl_attempts d = [] \<longrightarrow> dl_next d = count) \<and>
     (dl_error d = None \<longrightarrow> length (dl_attempts d) = dl_next d) \<and>
     (\<forall>e. dl_error d = Some e \<longrightarrow> (\<exists>k < dl_next d. fate k = Refused e))"

lemma dial_start_inv:
  assumes "dl_next d \<le> count" "distinct (dl_attempts d)" "\<forall>k \<in> set (dl_attempts d). k < dl_next d"
    "\<forall>k < dl_next d. k \<notin> set (dl_attempts d) \<longrightarrow> (\<exists>e. fate k = Refused e)"
    "dl_error d = None \<longrightarrow> length (dl_attempts d) = dl_next d" "\<forall>e. dl_error d = Some e \<longrightarrow> (\<exists>k < dl_next d. fate k = Refused e)"
  shows "dial_inv count fate (dial_start count d)"
proof (cases "dl_next d < count")
  case True
  have "dl_next d \<notin> set (dl_attempts d)" using assms(3) by auto
  with True assms show ?thesis by (auto simp: dial_inv_def dial_start_def less_Suc_eq)
next
  case False
  with assms show ?thesis by (auto simp: dial_inv_def dial_start_def)
qed

definition joins :: "dial_event list \<Rightarrow> nat" where
  "joins evs = length (filter (\<lambda>e. e \<noteq> Staggered) evs)"

text \<open>What is still to be joined.\<close>

definition dial_left :: "nat \<Rightarrow> dialling \<Rightarrow> nat" where
  "dial_left count d = length (dl_attempts d) + (count - dl_next d)"

lemma dial_start_left [simp]: "dial_left count (dial_start count d) = dial_left count d"
  by (cases "dl_next d < count") (simp_all add: dial_left_def dial_start_def)

lemma dial_loop_result:
  assumes "\<forall>k < count. \<forall>e. fate k \<noteq> Broken e" "dial_inv count fate d"
  shows "case dial_loop count fate d evs of
      None \<Rightarrow> joins evs < dial_left count d
    | Some (Ok k) \<Rightarrow> k < count \<and> fate k = Connected
    | Some (Err e) \<Rightarrow> (\<forall>k < count. \<exists>e. fate k = Refused e) \<and>
        (case e of None \<Rightarrow> count = 0 | Some e \<Rightarrow> \<exists>k < count. fate k = Refused e)"
  using assms(2)
proof (induction evs arbitrary: d)
  case Nil
  show ?case
  proof (cases "dl_attempts d = []")
    case True
    with Nil show ?thesis by (auto simp: dial_loop.simps dial_inv_def split: option.splits)
  next
    case False
    then show ?thesis by (simp add: dial_loop.simps joins_def dial_left_def)
  qed
next
  case (Cons ev evs)
  show ?case
  proof (cases "dl_attempts d = []")
    case True
    with Cons.prems show ?thesis by (auto simp: dial_loop.simps dial_inv_def split: option.splits)
  next
    case False
    show ?thesis
    proof (cases ev)
      case Staggered
      have "dial_inv count fate (dial_start count d)" using Cons.prems by (intro dial_start_inv) (auto simp: dial_inv_def)
      with Cons.IH [OF this] False Staggered show ?thesis
        by (auto simp: dial_loop.simps [of _ _ d] joins_def split: option.split sum.split)
    next
      case (Joined i)
      define k where "k = dl_attempts d ! (i mod length (dl_attempts d))"
      have k: "k \<in> set (dl_attempts d)" using False by (simp add: k_def)
      then have "k < dl_next d" "dl_next d \<le> count" using Cons.prems by (auto simp: dial_inv_def)
      then have count: "k < count" by simp
      show ?thesis
      proof (cases "fate k")
        case Connected
        with False Joined count show ?thesis by (simp add: dial_loop.simps k_def Let_def)
      next
        case (Broken e)
        with assms(1) count show ?thesis by blast
      next
        case (Refused e)
        let ?d = "d\<lparr>dl_attempts := remove1 k (dl_attempts d), dl_error := Some e\<rparr>"
        have inv: "dial_inv count fate (dial_start count ?d)"
          using Cons.prems k Refused by (intro dial_start_inv) (auto simp: dial_inv_def dest: notin_set_remove1)
        have "dial_loop count fate d (ev # evs) = dial_loop count fate (dial_start count ?d) evs"
          using False Joined Refused by (simp add: dial_loop.simps [of _ _ d] k_def Let_def)
        moreover have "dial_left count d = Suc (dial_left count ?d)"
          using k length_pos_if_in_set [OF k] by (simp add: dial_left_def length_remove1)
        ultimately show ?thesis
          using Cons.IH [OF inv] Joined by (auto simp: joins_def split: option.splits sum.splits)
      qed
    qed
  qed
qed

text \<open>
  C33: Dialling ends, and with the right answer: unless a task breaks, the loop has returned when
  as many attempts have ended as there are addresses, in whatever order they end and however often the stagger
  ran out; it returns a connection exactly if some address can be connected, and otherwise the error of an
  address it tried, having tried all of them, or no error if there was no address.
\<close>

theorem dial_ends:
  assumes "\<forall>k < count. \<forall>e. fate k \<noteq> Broken e" "count \<le> joins evs"
  shows "\<exists>res. dial count fate evs = Some res \<and>
    (case res of
       Ok k \<Rightarrow> k < count \<and> fate k = Connected
     | Err e \<Rightarrow> (\<forall>k < count. \<exists>e. fate k = Refused e) \<and>
         (case e of None \<Rightarrow> count = 0 | Some e \<Rightarrow> \<exists>k < count. fate k = Refused e))"
proof -
  let ?d = "\<lparr>dl_attempts = [], dl_next = 0, dl_error = None\<rparr>"
  have "dial_inv count fate (dial_start count ?d)" by (intro dial_start_inv) simp_all
  note result = dial_loop_result [OF assms(1) this, of evs]
  have "dial_left count (dial_start count ?d) = count" by (subst dial_start_left) (simp add: dial_left_def)
  with result assms(2) show ?thesis
    unfolding dial_def by (cases "dial_loop count fate (dial_start count ?d) evs") simp_all
qed

theorem dial_ends_witness:
  "dial 2 (\<lambda>k. if k = 0 then Refused [1] else Connected) [Staggered, Joined 0, Joined 0] = Some (Ok 1)"
proof -
  let ?fate = "\<lambda>k :: nat. if k = 0 then Refused [1] else Connected" and ?evs = "[Staggered, Joined 0, Joined 0]"
  have "\<forall>k < 2. \<forall>e. ?fate k \<noteq> Broken e" "2 \<le> joins ?evs" by (simp_all add: joins_def)
  from dial_ends [OF this] obtain res where res: "dial 2 ?fate ?evs = Some res"
    "case res of Ok k \<Rightarrow> k < 2 \<and> ?fate k = Connected | Err e \<Rightarrow> (\<forall>k < 2. \<exists>e. ?fate k = Refused e) \<and>
       (case e of None \<Rightarrow> (2::nat) = 0 | Some e \<Rightarrow> \<exists>k < 2. ?fate k = Refused e)" by blast
  have "res = Ok 1"
  proof (cases res)
    case (Inl e)
    with res(2) have "\<forall>k < 2. \<exists>e. ?fate k = Refused e" by simp
    from this [rule_format, of 1] show ?thesis by simp
  next
    case (Inr k)
    with res(2) have "k < 2" "k \<noteq> 0" by (auto split: if_splits)
    with Inr show ?thesis by simp
  qed
  with res(1) show ?thesis by simp
qed

subsection \<open>Name resolution\<close>

definition LIMIT :: nat where [ws_eval]: "LIMIT = 16"

datatype ip_addr = IpText bytes | Ipv6Localhost | Ipv4Localhost | IpResolved nat

definition is_ip :: "bytes \<Rightarrow> bool" where
  [ws_eval]: "is_ip s \<longleftrightarrow> read_ipv4_addr s = Some [] \<or> is_ipv6 s"

text \<open>\<open>resolve\<close>; the operating system's answer for a host is the argument \<open>lookup\<close>.\<close>

definition resolve :: "(bytes \<Rightarrow> nat \<Rightarrow> bytes + (ip_addr \<times> nat) list) \<Rightarrow> bytes \<Rightarrow> nat \<Rightarrow> bytes + (ip_addr \<times> nat) list" where
  [ws_eval]: "resolve lookup host port =
     (if is_ip host then Ok [(IpText host, port)]
      else if eq_ignore_ascii_case (case strip_suffix (str ''.'') host of None \<Rightarrow> host | Some name \<Rightarrow> name) (str ''localhost'')
      then Ok [(Ipv6Localhost, port), (Ipv4Localhost, port)]
      else lookup host port)"

text \<open>
  \<open>blocking\<close>: the slots of the resolver.  A caller waits for a slot; the slot is held by the operation, which
  runs to its end also when its caller is cancelled.
\<close>

record slots =
  sl_free :: nat
  sl_running :: nat
  sl_waiting :: nat

datatype slot_event = Ask | Begin | CancelWaiting | CancelRunning | Finish

fun slot_step :: "slot_event \<Rightarrow> slots \<Rightarrow> slots" where
  "slot_step Ask s = s\<lparr>sl_waiting := sl_waiting s + 1\<rparr>"
| "slot_step Begin s =
     (if 0 < sl_free s \<and> 0 < sl_waiting s
      then s\<lparr>sl_free := sl_free s - 1, sl_running := sl_running s + 1, sl_waiting := sl_waiting s - 1\<rparr> else s)"
| "slot_step CancelWaiting s = s\<lparr>sl_waiting := sl_waiting s - 1\<rparr>"
| "slot_step CancelRunning s = s"
| "slot_step Finish s =
     (if 0 < sl_running s then s\<lparr>sl_free := sl_free s + 1, sl_running := sl_running s - 1\<rparr> else s)"

definition slots_new :: slots where
  [ws_eval]: "slots_new = \<lparr>sl_free = LIMIT, sl_running = 0, sl_waiting = 0\<rparr>"

lemma slot_steps: "sl_free (fold slot_step evs s) + sl_running (fold slot_step evs s) = sl_free s + sl_running s"
proof (induction evs arbitrary: s)
  case (Cons e evs)
  have "sl_free (slot_step e s) + sl_running (slot_step e s) = sl_free s + sl_running s" by (cases e) auto
  with Cons show ?case by simp
qed simp

text \<open>At most \<open>LIMIT\<close> operations of the resolver run, whoever is cancelled; no slot is lost.\<close>

lemma resolver_bounded:
  "sl_running (fold slot_step evs slots_new) \<le> LIMIT"
  "sl_running (fold slot_step evs slots_new) = 0 \<Longrightarrow> sl_free (fold slot_step evs slots_new) = LIMIT"
  using slot_steps [of evs slots_new] by (simp_all add: slots_new_def)

subsection \<open>The reusable timer\<close>

text \<open>
  \<open>Timer\<close>: the deadline wanted and the one the registered sleep is armed for.  One poll reports whether
  the sleep is over; \<open>passed\<close> tells which deadlines have passed.
\<close>

record timer =
  tm_target :: "nat option"
  tm_armed :: "(nat \<times> nat) option"

definition timer_set :: "nat option \<Rightarrow> timer \<Rightarrow> timer" where
  [ws_eval]: "timer_set deadline t = t\<lparr>tm_target := deadline\<rparr>"

definition timer_poll :: "(nat \<Rightarrow> bool) \<Rightarrow> timer \<Rightarrow> bool \<times> timer" where
  [ws_eval]: "timer_poll passed t =
     (case tm_target t of
        None \<Rightarrow> (False, t)
      | Some target \<Rightarrow>
          let (previous, sleep) = (case tm_armed t of None \<Rightarrow> (target, target) | Some a \<Rightarrow> a);
              sleep = (if previous \<noteq> target then target else sleep)
          in (passed sleep, t\<lparr>tm_armed := Some (target, sleep)\<rparr>))"

fun timer_ops :: "(nat option + (nat \<Rightarrow> bool)) list \<Rightarrow> timer \<Rightarrow> timer" where
  "timer_ops [] t = t"
| "timer_ops (Inl deadline # ops) t = timer_ops ops (timer_set deadline t)"
| "timer_ops (Inr passed # ops) t = timer_ops ops (snd (timer_poll passed t))"

definition timer_ok :: "timer \<Rightarrow> bool" where
  "timer_ok t \<longleftrightarrow> (case tm_armed t of None \<Rightarrow> True | Some (previous, sleep) \<Rightarrow> sleep = previous)"

lemma timer_ops_ok: "timer_ok t \<Longrightarrow> timer_ok (timer_ops ops t)"
proof (induction ops t rule: timer_ops.induct)
  case (3 passed ops t)
  have "timer_ok (snd (timer_poll passed t))"
    using 3(2) by (auto simp: timer_ok_def timer_poll_def Let_def split: option.splits prod.splits)
  with 3(1) show ?case by simp
qed (simp_all add: timer_ok_def timer_set_def)

text \<open>However often it was set and polled before, the timer is ready exactly when its present deadline has passed.\<close>

lemma timer_reuse:
  assumes "t = timer_ops ops \<lparr>tm_target = None, tm_armed = None\<rparr>"
  shows "fst (timer_poll passed t) \<longleftrightarrow> (\<exists>deadline. tm_target t = Some deadline \<and> passed deadline)"
proof -
  have "timer_ok t" unfolding assms by (rule timer_ops_ok) (simp add: timer_ok_def)
  then show ?thesis by (auto simp: timer_ok_def timer_poll_def Let_def split: option.splits prod.splits)
qed

subsection \<open>Transport progress\<close>

text \<open>\<open>Activity\<close>: bound once to a connection; its clock counts nanoseconds from \<open>born\<close> in 64 bits.\<close>

record activity =
  ac_born :: "nat option"

definition activity_bind :: "nat \<Rightarrow> activity \<Rightarrow> activity" where
  [ws_eval]: "activity_bind born a = (case ac_born a of None \<Rightarrow> a\<lparr>ac_born := Some born\<rparr> | Some _ \<Rightarrow> a)"

definition activity_progress :: "nat \<Rightarrow> bool \<Rightarrow> activity \<Rightarrow> nat \<times> nat \<Rightarrow> nat \<times> nat" where
  [ws_eval]: "activity_progress now inbound a clocks =
     (case ac_born a of
        None \<Rightarrow> clocks
      | Some born \<Rightarrow>
          let ns = (if now - born \<le> usize_max then now - born else usize_max) in
          case clocks of (written, received) \<Rightarrow>
            if inbound then (written, saturating_add ns 1) else (ns, received))"

text \<open>
  The two wrapped operations, on what the transport returns: \<open>None\<close> is pending, an error is \<open>Inl\<close>.  Only bytes
  that moved count.
\<close>

definition observed_read :: "nat \<Rightarrow> nat \<Rightarrow> (bytes + nat) option \<Rightarrow> activity \<Rightarrow> nat \<times> nat \<Rightarrow> nat \<times> nat" where
  [ws_eval]: "observed_read now before result a clocks =
     (case result of Some (Ok filled) \<Rightarrow> if filled > before then activity_progress now True a clocks else clocks | _ \<Rightarrow> clocks)"

definition observed_write :: "nat \<Rightarrow> (bytes + nat) option \<Rightarrow> activity \<Rightarrow> nat \<times> nat \<Rightarrow> nat \<times> nat" where
  [ws_eval]: "observed_write now result a clocks =
     (case result of Some (Ok n) \<Rightarrow> if n > 0 then activity_progress now False a clocks else clocks | _ \<Rightarrow> clocks)"

text \<open>An outage moves neither clock, and inbound progress is always told apart from none, which is 0.\<close>

lemma observed_quiet:
  "observed_read now before None a clocks = clocks" "observed_read now before (Some (Err e)) a clocks = clocks"
  "observed_read now before (Some (Ok before)) a clocks = clocks"
  "observed_write now None a clocks = clocks" "observed_write now (Some (Err e)) a clocks = clocks"
  "observed_write now (Some (Ok 0)) a clocks = clocks"
  by (simp_all add: observed_read_def observed_write_def)

lemma observed_read_progress:
  "\<lbrakk>before < filled; ac_born a = Some born\<rbrakk> \<Longrightarrow> 0 < snd (observed_read now before (Some (Ok filled)) a clocks)"
  by (cases clocks) (simp add: observed_read_def activity_progress_def Let_def saturating_add_def usize_max_def)

subsection \<open>The runtime and the transport\<close>

definition runtime_workers :: "nat option \<Rightarrow> nat" where
  [ws_eval]: "runtime_workers parallelism = max 2 (min 4 (case parallelism of None \<Rightarrow> 2 | Some n \<Rightarrow> n))"

text \<open>\<open>until\<close>: the result of a task, or \<open>None\<close> when the deadline came first.\<close>

definition until :: "('e + 'a) option \<Rightarrow> 'e \<Rightarrow> 'e + 'a" where
  [ws_eval]: "until result timed_out = (case result of None \<Rightarrow> Err timed_out | Some r \<Rightarrow> r)"

definition transport_chunk :: "'c option \<Rightarrow> nat" where
  [ws_eval]: "transport_chunk tls = (if tls \<noteq> None then 16 * 1024 else 64 * 1024)"

lemma transport_chunk_pos [simp]: "0 < transport_chunk tls"
  by (simp add: transport_chunk_def)

subsection \<open>TLS material\<close>

text \<open>
  What the code takes from rustls and the file system: the certificates and the key in PEM data, whether a root
  is accepted, whether the provider supports the default versions, whether a chain and a key fit, and the
  contents of a file.
\<close>

record tls_lib =
  pem_certs :: "bytes \<Rightarrow> bytes + bytes list"
  pem_key :: "bytes \<Rightarrow> bytes + bytes"
  root_add :: "bytes \<Rightarrow> bytes option"
  versions_error :: "bytes option"
  single_cert :: "bytes list \<Rightarrow> bytes \<Rightarrow> bytes option"
  read_file :: "bytes \<Rightarrow> bytes + bytes"

record pem =
  pem_data :: bytes
  pem_name :: bytes

definition is_pem_text :: "bytes \<Rightarrow> bool" where
  [ws_eval]: "is_pem_text source \<longleftrightarrow> find_sub (str ''-----BEGIN'') source \<noteq> None \<or> 0x0A \<in> set source \<or> 0x0D \<in> set source"

definition pem_load :: "tls_lib \<Rightarrow> bytes \<Rightarrow> bytes + pem" where
  [ws_eval]: "pem_load lib source =
     (if is_pem_text source then Ok \<lparr>pem_data = source, pem_name = str ''PEM text''\<rparr>
      else case read_file lib source of
        Err e \<Rightarrow> Err (str ''cannot read '' @ source @ str '': '' @ e)
      | Ok contents \<Rightarrow> Ok \<lparr>pem_data = contents, pem_name = source\<rparr>)"

definition certs :: "tls_lib \<Rightarrow> pem \<Rightarrow> bytes + bytes list" where
  [ws_eval]: "certs lib p =
     (case pem_certs lib (pem_data p) of
        Err e \<Rightarrow> Err (str ''invalid certificates in '' @ pem_name p @ str '': '' @ e)
      | Ok cs \<Rightarrow> if cs = [] then Err (str ''no certificates in '' @ pem_name p) else Ok cs)"

definition key :: "tls_lib \<Rightarrow> pem \<Rightarrow> bytes + bytes" where
  [ws_eval]: "key lib p =
     (case pem_key lib (pem_data p) of
        Err e \<Rightarrow> Err (str ''invalid private key in '' @ pem_name p @ str '': '' @ e)
      | Ok k \<Rightarrow> Ok k)"

text \<open>A client's configuration is the list of its roots, \<open>None\<close> for Mozilla's.\<close>

definition build_client :: "tls_lib \<Rightarrow> bytes list option \<Rightarrow> bytes + bytes list option" where
  [ws_eval]: "build_client lib roots = (case versions_error lib of Some e \<Rightarrow> Err e | None \<Rightarrow> Ok roots)"

fun add_roots :: "tls_lib \<Rightarrow> bytes \<Rightarrow> bytes list \<Rightarrow> bytes list \<Rightarrow> bytes + bytes list" where
  "add_roots lib name roots [] = Ok roots"
| "add_roots lib name roots (c # cs) =
     (case root_add lib c of
        Some e \<Rightarrow> Err (str ''invalid CA certificate in '' @ name @ str '': '' @ e)
      | None \<Rightarrow> add_roots lib name (roots @ [c]) cs)"

text \<open>\<open>client\<close>; the outer \<open>None\<close> is the panic of \<open>expect\<close>, when the provider lacks the default versions.\<close>

definition tls_client :: "tls_lib \<Rightarrow> bytes option \<Rightarrow> (bytes + bytes list option) option" where
  [ws_eval]: "tls_client lib ca =
     (case ca of
        Some ca \<Rightarrow>
          Some (case pem_load lib ca of
                  Err e \<Rightarrow> Err e
                | Ok p \<Rightarrow>
                    (case certs lib p of
                       Err e \<Rightarrow> Err e
                     | Ok cs \<Rightarrow>
                         (case add_roots lib (pem_name p) [] cs of
                            Err e \<Rightarrow> Err e
                          | Ok roots \<Rightarrow> build_client lib (Some roots))))
      | None \<Rightarrow> (case build_client lib None of Err _ \<Rightarrow> None | Ok config \<Rightarrow> Some (Ok config)))"

definition tls_server :: "tls_lib \<Rightarrow> bytes \<Rightarrow> bytes \<Rightarrow> bytes + bytes list \<times> bytes" where
  [ws_eval]: "tls_server lib cert source =
     (case pem_load lib cert of
        Err e \<Rightarrow> Err e
      | Ok p \<Rightarrow>
          (case certs lib p of
             Err e \<Rightarrow> Err e
           | Ok chain \<Rightarrow>
               (case pem_load lib source of
                  Err e \<Rightarrow> Err e
                | Ok q \<Rightarrow>
                    (case key lib q of
                       Err e \<Rightarrow> Err e
                     | Ok k \<Rightarrow>
                         (case versions_error lib of
                            Some e \<Rightarrow> Err e
                          | None \<Rightarrow>
                              (case single_cert lib chain k of
                                 Some e \<Rightarrow> Err (str ''invalid certificate or key: '' @ e)
                               | None \<Rightarrow> Ok (chain, k)))))))"

lemma add_roots_all: "add_roots lib name roots cs = Ok roots' \<Longrightarrow> roots' = roots @ cs \<and> (\<forall>c \<in> set cs. root_add lib c = None)"
  by (induction cs arbitrary: roots) (fastforce split: option.splits)+

text \<open>A client that names a CA trusts exactly its certificates, at least one, each of them accepted.\<close>

lemma tls_client_roots:
  assumes "tls_client lib (Some ca) = Some (Ok config)"
  obtains p cs where "pem_load lib ca = Ok p" "pem_certs lib (pem_data p) = Ok cs" "cs \<noteq> []" "config = Some cs"
    "\<forall>c \<in> set cs. root_add lib c = None"
  using assms by (fastforce simp: tls_client_def certs_def build_client_def
    split: sum.splits if_splits option.splits dest: add_roots_all)

text \<open>
  C35: PEM text, which may hold a private key, is never taken for a file name and never shows in an
  error: if two certificates and two keys are given as text, and the PEM parser says the same of each pair, then
  the server's configuration or error is the same for both, whatever the file system holds, so an error tells
  no more of the text than the parser's own message; and likewise a client's for two texts of a CA.
\<close>

theorem tls_errors_hide_text:
  assumes "is_pem_text c" "is_pem_text c'" "pem_certs lib c = pem_certs lib c'"
    and "is_pem_text k" "is_pem_text k'" "pem_key lib k = pem_key lib k'"
  shows "tls_server (lib\<lparr>read_file := files\<rparr>) c k = tls_server (lib\<lparr>read_file := files'\<rparr>) c' k' \<and>
    tls_client (lib\<lparr>read_file := files\<rparr>) (Some c) = tls_client (lib\<lparr>read_file := files'\<rparr>) (Some c')"
proof -
  have "add_roots (lib\<lparr>read_file := files\<rparr>) name roots cs = add_roots (lib\<lparr>read_file := files'\<rparr>) name roots cs" for name roots cs
    by (induction cs arbitrary: roots) (simp_all split: option.split)
  with assms show "tls_server (lib\<lparr>read_file := files\<rparr>) c k = tls_server (lib\<lparr>read_file := files'\<rparr>) c' k' \<and>
    tls_client (lib\<lparr>read_file := files\<rparr>) (Some c) = tls_client (lib\<lparr>read_file := files'\<rparr>) (Some c')"
    by (cases "pem_certs lib c'"; cases "pem_key lib k'")
      (simp_all add: tls_server_def tls_client_def pem_load_def certs_def key_def build_client_def
        split: option.split sum.split)
qed

text \<open>A library that finds nothing in any text, and two keys that differ.\<close>

definition demo_lib :: tls_lib where
  "demo_lib = \<lparr>pem_certs = (\<lambda>_. Ok [[1]]), pem_key = (\<lambda>_. Err (str ''no items found'')), root_add = (\<lambda>_. None),
     versions_error = None, single_cert = (\<lambda>_ _. None), read_file = (\<lambda>_. Err (str ''not found''))\<rparr>"

theorem tls_errors_hide_text_witness:
  "tls_server (demo_lib\<lparr>read_file := (\<lambda>_. Ok [])\<rparr>) [0x0A] (str ''-----BEGIN KEY'') =
   Err (str ''invalid private key in PEM text: no items found'')"
proof -
  have "tls_server (demo_lib\<lparr>read_file := (\<lambda>_. Ok [])\<rparr>) [0x0A] (str ''-----BEGIN KEY'') =
        tls_server (demo_lib\<lparr>read_file := read_file demo_lib\<rparr>) [0x0D] [0x41, 0x0A]"
    by (rule tls_errors_hide_text [THEN conjunct1]) (simp_all add: demo_lib_def is_pem_text_def str_def)
  also have "\<dots> = Err (str ''invalid private key in PEM text: no items found'')"
    by (simp add: demo_lib_def tls_server_def pem_load_def is_pem_text_def certs_def key_def str_def)
  finally show ?thesis .
qed

subsection \<open>Reading through TLS\<close>

text \<open>
  \<open>Tls::poll_read\<close>, on what rustls returns: the read's result, the error of the empty write that exposes a
  deferred reply, and whether rustls then has something to write.  The result and whether the writer is woken.
\<close>

definition tls_poll_read :: "(bytes + nat) option \<Rightarrow> bytes option \<Rightarrow> bool \<Rightarrow> (bytes + nat) option \<times> bool" where
  [ws_eval]: "tls_poll_read result exposed wants_write =
     (let failed = (case result of Some (Err _) \<Rightarrow> True | _ \<Rightarrow> False) in
      case (if failed then None else exposed) of
        Some e \<Rightarrow> (Some (Err e), False)
      | None \<Rightarrow> (result, wants_write))"

text \<open>What a read leaves to be written wakes the writer, unless the connection already failed.\<close>

lemma tls_poll_read_wakes:
  "tls_poll_read result exposed True = (res, woken) \<Longrightarrow> woken \<or> (\<exists>e. exposed = Some e \<and> res = Some (Err e))"
  by (auto simp: tls_poll_read_def Let_def split: option.splits if_splits)

end
