(* ===== verification/Lua.thy ===== *)
theory Lua
  imports Complex_Main Rust_Str
begin

text \<open>
  What the Lua layer uses of Lua: its values, tables and truth.  A number is the rational it denotes;
  \<open>LInfinite True\<close> and \<open>LInfinite False\<close> are the positive and the negative infinite one.  A function is its number, and \<open>LOther\<close> is any userdata or
  thread.  A table is the list of its pairs in the order in which \<open>pairs\<close> visits them; metatables are not used
  by the code on the tables it is given.
\<close>

datatype lua_value =
    LNil
  | LBool bool
  | LNumber rat
  | LInfinite bool
  | LNaN
  | LStr bytes
  | LFun nat
  | LTable "(lua_value \<times> lua_value) list"
  | LOther

definition truthy :: "lua_value \<Rightarrow> bool" where
  [ws_eval]: "truthy v \<longleftrightarrow> v \<noteq> LNil \<and> v \<noteq> LBool False"

definition lua_get :: "(lua_value \<times> lua_value) list \<Rightarrow> lua_value \<Rightarrow> lua_value" where
  [ws_eval]: "lua_get t k = (case map_of t k of None \<Rightarrow> LNil | Some v \<Rightarrow> v)"

text \<open>\<open>t.name\<close>, where the code writes \<open>t or {}\<close> first.\<close>

definition lua_field :: "lua_value \<Rightarrow> bytes \<Rightarrow> lua_value" where
  [ws_eval]: "lua_field v name = (case v of LTable t \<Rightarrow> lua_get t (LStr name) | _ \<Rightarrow> LNil)"

text \<open>\<open>ipairs\<close>: the values at 1, 2, ... up to the first \<open>nil\<close>; a table has no more of them than pairs.\<close>

fun ipairs_from :: "(lua_value \<times> lua_value) list \<Rightarrow> nat \<Rightarrow> nat \<Rightarrow> lua_value list" where
  "ipairs_from t i 0 = []"
| "ipairs_from t i (Suc n) =
     (let v = lua_get t (LNumber (of_nat i)) in if v = LNil then [] else v # ipairs_from t (Suc i) n)"

definition ipairs :: "(lua_value \<times> lua_value) list \<Rightarrow> lua_value list" where
  [ws_eval]: "ipairs t = ipairs_from t 1 (length t)"

definition lua_array :: "lua_value list \<Rightarrow> (lua_value \<times> lua_value) list" where
  [ws_eval]: "lua_array vs = zip (map (\<lambda>i. LNumber (of_nat i)) [1..<Suc (length vs)]) vs"

lemma lua_array_get: "i < length vs \<Longrightarrow> lua_get (lua_array vs) (LNumber (of_nat (Suc i))) = vs ! i"
proof -
  assume i: "i < length vs"
  have "distinct (map (\<lambda>i. LNumber (of_nat i)) [1..<Suc (length vs)])" by (simp add: distinct_map inj_on_def)
  moreover have "map (\<lambda>i. LNumber (of_nat i)) [1..<Suc (length vs)] ! i = LNumber (of_nat (Suc i))" using i by (simp del: upt_Suc)
  ultimately have "map_of (lua_array vs) (LNumber (of_nat (Suc i))) = Some (vs ! i)"
    unfolding lua_array_def using map_of_zip_nth [of "map (\<lambda>i. LNumber (of_nat i)) [1..<Suc (length vs)]" vs i] i
    by (simp del: upt_Suc)
  then show ?thesis by (simp add: lua_get_def)
qed

lemma ipairs_lua_array: "LNil \<notin> set vs \<Longrightarrow> ipairs (lua_array vs) = vs"
proof -
  assume nil: "LNil \<notin> set vs"
  have "ipairs_from (lua_array vs) (Suc i) n = drop i vs" if "i + n = length vs" for i n
    using that
  proof (induction n arbitrary: i)
    case (Suc n)
    then have i: "i < length vs" by simp
    then have "vs ! i \<noteq> LNil" using nil nth_mem by metis
    with Suc i show ?case by (simp add: lua_array_get Cons_nth_drop_Suc del: of_nat_Suc)
  qed simp
  from this [of 0 "length vs"] show ?thesis by (simp add: ipairs_def lua_array_def del: upt_Suc)
qed

end
