(* ===== verification/Script_Opts.thy ===== *)
theory Script_Opts
  imports Lua Http "HOL-Library.Multiset"
begin

text \<open>
  Option tables (\<open>ws/opts.lua\<close>): the kinds of options, the check of a table against a specification, and
  the specifications of \<open>ws.connect\<close> and \<open>ws.listen\<close>.  How \<open>table.sort\<close> orders header lines, which depends on the
  locale, and how \<open>tostring\<close> prints a key are arguments.
\<close>

subsection \<open>Kinds\<close>

datatype kind = KString | KFunction | KSeconds | KHeartbeat | KSize | KPort | KList | KHeaders

definition lua_integer :: "lua_value \<Rightarrow> int \<Rightarrow> int \<Rightarrow> bool" where
  [ws_eval]: "lua_integer v mn mx =
     (case v of LNumber x \<Rightarrow> of_int \<lfloor>x\<rfloor> = x \<and> of_int mn \<le> x \<and> x \<le> of_int mx | _ \<Rightarrow> False)"

text \<open>The pattern of \<open>list\<close>.\<close>

definition lua_token :: "bytes \<Rightarrow> bool" where
  [ws_eval]: "lua_token s \<longleftrightarrow>
     s \<noteq> [] \<and> list_all (\<lambda>b. is_ascii_alphanumeric b \<or> b \<in> set (str ''!#$%&'*+.^_`|~-'')) s"

text \<open>The loop over the items: \<open>seen\<close> has the same items as \<open>out\<close>.\<close>

fun list_items :: "lua_value list \<Rightarrow> bytes list \<Rightarrow> bytes list option" where
  "list_items [] out = Some out"
| "list_items (item # items) out =
     (case item of
        LStr s \<Rightarrow> if \<not> lua_token s \<or> s \<in> set out then None else list_items items (out @ [s])
      | _ \<Rightarrow> None)"

definition kind_list :: "lua_value \<Rightarrow> bytes + lua_value" where
  [ws_eval]: "kind_list v =
     (case (case v of LStr s \<Rightarrow> LTable (lua_array [v]) | _ \<Rightarrow> v) of
        LTable t \<Rightarrow>
          (case list_items (ipairs t) [] of
             None \<Rightarrow> Err (str ''an array of distinct nonempty tokens'')
           | Some out \<Rightarrow>
               if list_all (\<lambda>(k, _). lua_integer k 1 (int (length out))) t then Ok (LTable (lua_array (map LStr out)))
               else Err (str ''a dense array of tokens''))
      | _ \<Rightarrow> Err (str ''a string or an array of strings''))"

text \<open>\<open>%c\<close> is a control character, \<open>%z\<close> the character 0.\<close>

definition header_pair :: "lua_value \<times> lua_value \<Rightarrow> (bytes \<times> bytes) option" where
  [ws_eval]: "header_pair p =
     (case p of
        (LStr name, LStr val) \<Rightarrow>
          if list_ex (\<lambda>b. b < 0x20 \<or> b = 0x7F \<or> b = 0x3A) name \<or> list_ex (\<lambda>b. b = 0x0D \<or> b = 0x0A \<or> b = 0) val then None
          else Some (name, val)
      | _ \<Rightarrow> None)"

fun header_pairs :: "(lua_value \<times> lua_value) list \<Rightarrow> (bytes \<times> bytes) list option" where
  "header_pairs [] = Some []"
| "header_pairs (p # ps) =
     (case header_pair p of None \<Rightarrow> None | Some h \<Rightarrow> map_option (Cons h) (header_pairs ps))"

definition header_line :: "bytes \<times> bytes \<Rightarrow> bytes" where
  [ws_eval]: "header_line h = fst h @ str '':'' @ snd h @ [0x0A]"

definition kind_headers :: "(bytes list \<Rightarrow> bytes list) \<Rightarrow> lua_value \<Rightarrow> bytes + lua_value" where
  [ws_eval]: "kind_headers sorting v =
     (case v of
        LTable t \<Rightarrow>
          (case header_pairs t of
             None \<Rightarrow> Err (str ''a table of valid header names and values'')
           | Some hs \<Rightarrow> Ok (LStr (concat (sorting (map header_line hs)))))
      | _ \<Rightarrow> Err (str ''a table of strings''))"

text \<open>Each kind returns the value to use, or what was expected.\<close>

fun kinds :: "(bytes list \<Rightarrow> bytes list) \<Rightarrow> kind \<Rightarrow> lua_value \<Rightarrow> bytes + lua_value" where
  "kinds sorting KString v = (case v of LStr _ \<Rightarrow> Ok v | _ \<Rightarrow> Err (str ''a string''))"
| "kinds sorting KFunction v = (case v of LFun _ \<Rightarrow> Ok v | _ \<Rightarrow> Err (str ''a function''))"
| "kinds sorting KSeconds v =
     (case v of LNumber x \<Rightarrow> if x > 0 then Ok v else Err (str ''a positive number of seconds'')
      | _ \<Rightarrow> Err (str ''a positive number of seconds''))"
| "kinds sorting KHeartbeat v =
     (if v = LBool False \<or> (case v of LNumber x \<Rightarrow> x > 0 \<and> x \<le> 1000000 | _ \<Rightarrow> False) then Ok v
      else Err (str ''a positive number of seconds or false''))"
| "kinds sorting KSize v = (if lua_integer v 1 (2 ^ 53) then Ok v else Err (str ''a positive integer''))"
| "kinds sorting KPort v = (if lua_integer v 0 65535 then Ok v else Err (str ''an integer from 0 to 65535''))"
| "kinds sorting KList v = kind_list v"
| "kinds sorting KHeaders v = kind_headers sorting v"

subsection \<open>Checking a table\<close>

datatype spec = Kind kind | Nested "(bytes \<times> spec) list"

definition option_name :: "(lua_value \<Rightarrow> bytes) \<Rightarrow> bytes option \<Rightarrow> lua_value \<Rightarrow> bytes" where
  [ws_eval]: "option_name tostring path key =
     (case path of None \<Rightarrow> tostring key | Some p \<Rightarrow> p @ str ''.'' @ tostring key)"

definition quoted :: "bytes \<Rightarrow> bytes" where
  [ws_eval]: "quoted s = [0x27] @ s @ [0x27]"

definition spec_get :: "(bytes \<times> spec) list \<Rightarrow> lua_value \<Rightarrow> spec option" where
  [ws_eval]: "spec_get s key = (case key of LStr k \<Rightarrow> map_of s k | _ \<Rightarrow> None)"

function (sequential)
  opts_check :: "(bytes list \<Rightarrow> bytes list) \<Rightarrow> (lua_value \<Rightarrow> bytes) \<Rightarrow> (bytes \<times> spec) list \<Rightarrow> bytes option \<Rightarrow> lua_value \<Rightarrow>
    bytes + (lua_value \<times> lua_value) list" and
  check_pairs :: "(bytes list \<Rightarrow> bytes list) \<Rightarrow> (lua_value \<Rightarrow> bytes) \<Rightarrow> (bytes \<times> spec) list \<Rightarrow> bytes option \<Rightarrow>
    (lua_value \<times> lua_value) list \<Rightarrow> bytes + (lua_value \<times> lua_value) list" where
  "opts_check sorting tostring s path LNil = Ok []"
| "opts_check sorting tostring s path (LTable t) = check_pairs sorting tostring s path t"
| "opts_check sorting tostring s path v =
     Err (case path of None \<Rightarrow> str ''options must be a table''
          | Some p \<Rightarrow> str ''option '' @ quoted p @ str '' must be a table'')"
| "check_pairs sorting tostring s path [] = Ok []"
| "check_pairs sorting tostring s path ((key, val) # rest) =
     (let name = option_name tostring path key in
      case spec_get s key of
        None \<Rightarrow> Err (str ''unknown option '' @ quoted name)
      | Some k \<Rightarrow>
          (case (case k of
                   Nested sub \<Rightarrow>
                     (case opts_check sorting tostring sub (Some name) val of Err e \<Rightarrow> Err e | Ok t \<Rightarrow> Ok (LTable t))
                 | Kind k \<Rightarrow>
                     (case kinds sorting k val of
                        Err expected \<Rightarrow> Err (str ''option '' @ quoted name @ str '' must be '' @ expected)
                      | Ok v \<Rightarrow> Ok v)) of
             Err e \<Rightarrow> Err e
           | Ok v \<Rightarrow>
               (case check_pairs sorting tostring s path rest of Err e \<Rightarrow> Err e | Ok out \<Rightarrow> Ok ((key, v) # out))))"
  by pat_completeness auto
termination
  by (relation "measure (\<lambda>x. case x of Inl (_, _, _, _, v) \<Rightarrow> 2 * size v | Inr (_, _, _, _, ps) \<Rightarrow> 1 + 2 * size_list (size_prod size size) ps)") auto

subsection \<open>The specifications\<close>

definition client_spec :: "(bytes \<times> spec) list" where
  [ws_eval]: "client_spec =
     [(str ''protocols'', Kind KList), (str ''headers'', Kind KHeaders), (str ''timeout'', Kind KSeconds),
      (str ''heartbeat'', Kind KHeartbeat), (str ''tls'', Nested [(str ''ca'', Kind KString)]),
      (str ''limits'', Nested [(str ''message'', Kind KSize), (str ''buffer'', Kind KSize)])]"

definition server_spec :: "(bytes \<times> spec) list" where
  [ws_eval]: "server_spec =
     [(str ''port'', Kind KPort), (str ''host'', Kind KString), (str ''protocols'', Kind KList), (str ''accept'', Kind KFunction),
      (str ''heartbeat'', Kind KHeartbeat), (str ''tls'', Nested [(str ''cert'', Kind KString), (str ''key'', Kind KString)]),
      (str ''limits'', Nested [(str ''message'', Kind KSize), (str ''buffer'', Kind KSize), (str ''connections'', Kind KSize)])]"

subsection \<open>What an accepted table holds\<close>

lemma lua_token_iff: "lua_token s \<longleftrightarrow> is_token s"
proof -
  have ab: "''!#$%&'*+.^_`|~-'' = ''!#$%&'*+'' @ ''.^_`|~'' @ ''-''" "''!#$%&'*+-.^_`|~'' = ''!#$%&'*+'' @ ''-'' @ ''.^_`|~''" by simp_all
  have "set (str (x @ y @ z)) = set (str (x @ z @ y))" for x y z by (auto simp: str_def)
  from this [of "''!#$%&'*+''" "''.^_`|~''" "''-''"] show ?thesis unfolding lua_token_def is_token_def ab by (rule arg_cong)
qed

lemma list_items_ok:
  "\<lbrakk>list_items vs out = Some ts; distinct out; \<forall>t \<in> set out. is_token t\<rbrakk> \<Longrightarrow>
     distinct ts \<and> (\<forall>t \<in> set ts. is_token t) \<and> map LStr ts = map LStr out @ vs"
proof (induction vs arbitrary: out)
  case (Cons v vs)
  obtain s where v: "v = LStr s" "is_token s" "s \<notin> set out" "list_items vs (out @ [s]) = Some ts"
    using Cons.prems(1) by (cases v) (simp_all add: lua_token_iff split: if_split_asm)
  with Cons.IH [OF v(4)] Cons.prems show ?case by auto
qed auto

text \<open>A list of subprotocols is accepted as the distinct tokens it names, and nothing else is.\<close>

lemma kind_list_ok:
  assumes "kind_list v = Ok v'"
  obtains ts where "v' = LTable (lua_array (map LStr ts))" "distinct ts" "\<forall>t \<in> set ts. is_token t"
    "case v of LStr s \<Rightarrow> ts = [s] | LTable t \<Rightarrow> map LStr ts = ipairs t | _ \<Rightarrow> False"
proof -
  obtain t ts where t: "(case v of LStr s \<Rightarrow> LTable (lua_array [v]) | _ \<Rightarrow> v) = LTable t" "list_items (ipairs t) [] = Some ts"
    "v' = LTable (lua_array (map LStr ts))"
    using assms by (auto simp: kind_list_def split: lua_value.splits option.splits if_splits)
  note ts = list_items_ok [OF t(2)]
  have "case v of LStr s \<Rightarrow> ts = [s] | LTable t \<Rightarrow> map LStr ts = ipairs t | _ \<Rightarrow> False"
  proof (cases v)
    case (LStr s)
    then have "ipairs t = [LStr s]" using t(1) ipairs_lua_array [of "[LStr s]"] by simp
    with ts LStr show ?thesis by auto
  qed (use t ts in auto)
  with ts show thesis by (intro that [OF t(3)]) simp_all
qed

definition clean_header :: "bytes \<times> bytes \<Rightarrow> bool" where
  "clean_header h \<longleftrightarrow> 0x0A \<notin> set (fst h) \<and> 0x3A \<notin> set (fst h) \<and> 0x0A \<notin> set (snd h) \<and> 0x0D \<notin> set (snd h)"

lemma clean_headerI:
  assumes "\<not> list_ex (\<lambda>b. b < 0x20 \<or> b = 0x7F \<or> b = 0x3A) name" "\<not> list_ex (\<lambda>b. b = 0x0D \<or> b = 0x0A \<or> b = 0) val"
  shows "clean_header (name, val)"
proof -
  have "b \<notin> set name" if "b < 0x20 \<or> b = 0x7F \<or> b = 0x3A" for b using assms(1) that unfolding list_ex_iff by blast
  moreover have "b \<notin> set val" if "b = 0x0D \<or> b = 0x0A \<or> b = 0" for b using assms(2) that unfolding list_ex_iff by blast
  ultimately show ?thesis by (simp add: clean_header_def)
qed

lemma header_pairs_ok:
  "header_pairs ps = Some hs \<Longrightarrow> (\<forall>h \<in> set hs. clean_header h) \<and> ps = map (\<lambda>(k, v). (LStr k, LStr v)) hs"
proof (induction ps arbitrary: hs)
  case (Cons p ps)
  obtain h hs' where h: "header_pair p = Some h" "hs = h # hs'" "header_pairs ps = Some hs'"
    using Cons.prems by (auto split: option.splits)
  obtain k v where p: "p = (k, v)" by (cases p)
  have "clean_header h \<and> p = (LStr (fst h), LStr (snd h))"
    using h(1) unfolding p by (cases k; cases v) (auto simp: header_pair_def simp del: list_ex_iff intro!: clean_headerI split: if_split_asm)
  with Cons.IH [OF h(3)] h(2) show ?case by (auto simp: case_prod_beta)
qed simp

lemma kind_headers_ok:
  assumes "kind_headers sorting v = Ok v'"
  obtains hs where "v = LTable (map (\<lambda>(k, x). (LStr k, LStr x)) hs)" "v' = LStr (concat (sorting (map header_line hs)))"
    "\<forall>h \<in> set hs. clean_header h"
proof -
  obtain t hs where t: "v = LTable t" "header_pairs t = Some hs" "v' = LStr (concat (sorting (map header_line hs)))"
    using assms by (cases v) (simp_all add: kind_headers_def split: option.split_asm)
  with header_pairs_ok [OF t(2)] that show thesis by blast
qed

text \<open>Every pair of the result comes from a pair of the table, checked by the specification of its key.\<close>

lemma check_pairs_field:
  assumes "check_pairs sorting tostring s path t = Ok out"
  shows "lua_get out (LStr name) = LNil \<and> lua_get t (LStr name) = LNil \<and> map_of t (LStr name) = None \<or>
    (\<exists>val v. map_of t (LStr name) = Some val \<and> lua_get out (LStr name) = v \<and>
      ((\<exists>k. map_of s name = Some (Kind k) \<and> kinds sorting k val = Ok v) \<or>
       (\<exists>sub p r. map_of s name = Some (Nested sub) \<and> opts_check sorting tostring sub p val = Ok r \<and> v = LTable r)))"
  using assms
proof (induction t arbitrary: out)
  case Nil
  then show ?case by (simp add: lua_get_def)
next
  case (Cons kv t)
  obtain key val where kv: "kv = (key, val)" by (cases kv)
  with Cons.prems obtain k v rest where step: "spec_get s key = Some k" "out = (key, v) # rest"
    "check_pairs sorting tostring s path t = Ok rest"
    "(\<exists>k'. k = Kind k' \<and> kinds sorting k' val = Ok v) \<or>
     (\<exists>sub p r. k = Nested sub \<and> opts_check sorting tostring sub p val = Ok r \<and> v = LTable r)"
    by (auto simp: Let_def split: option.splits sum.splits spec.splits) blast
  show ?case
  proof (cases "key = LStr name")
    case True
    with step kv show ?thesis by (auto simp: lua_get_def spec_get_def)
  next
    case False
    with Cons.IH [OF step(3)] step(2) kv show ?thesis by (simp add: lua_get_def)
  qed
qed

end
