(* ===== verification/Hub.thy ===== *)
theory Hub
  imports Server
begin

text \<open>
  The hub (\<open>Hub\<close> in \<open>core/src/hub.rs\<close>): the receiving end of the event channel, and what
  happens to the connections when it is dropped.

  Connections are shared; \<open>links\<close> gives the one with each number, and \<open>mine\<close> tells which of them
  send to this hub.
\<close>

record hub =
  hb_queue :: "queued list"
  hb_closed :: bool

definition hub_default :: hub where
  [ws_eval]: "hub_default = \<lparr>hb_queue = [], hb_closed = False\<rparr>"

text \<open>
  \<open>Hub::recv\<close> once nothing more will arrive in time: without a queued event it gives up after its
  timeout, and without a timeout it waits on, for which the result is \<open>None\<close>.  The hub keeps
  a sender of its own, so its channel is never disconnected.
\<close>

definition hub_recv :: "nat option \<Rightarrow> hub \<Rightarrow> (event option \<times> hub) option" where
  [ws_eval]: "hub_recv timeout h =
     (case hb_queue h of
        [] \<Rightarrow> (case timeout of None \<Rightarrow> None | Some _ \<Rightarrow> Some (None, h))
      | q # qs \<Rightarrow> Some (Some (qd_event q), h\<lparr>hb_queue := qs\<rparr>))"

text \<open>\<open>Hub::connect\<close> and \<open>Hub::listen\<close> number what they create.\<close>

definition hub_connect ::
  "bytes + nat \<Rightarrow> (bytes \<Rightarrow> bool) \<Rightarrow> bytes + unit \<Rightarrow> nat \<Rightarrow> events \<Rightarrow> bytes \<Rightarrow> (nat \<Rightarrow> mask_key) \<Rightarrow>
   bytes \<Rightarrow> client_options \<Rightarrow> nat \<Rightarrow> (bytes + url \<times> nat \<times> link) \<times> nat" where
  [ws_eval]: "hub_connect roots server_name runtime now tx token rnd url opts counter =
     (case next_id counter of (i, counter) \<Rightarrow>
        (connect roots server_name runtime now tx i token rnd url opts, counter))"

definition hub_listen ::
  "io_error + unit \<Rightarrow> (bytes \<Rightarrow> nat \<Rightarrow> io_error + unit) \<Rightarrow> io_error + unit \<Rightarrow> io_error + bytes \<Rightarrow> io_error + unit \<Rightarrow>
   events \<Rightarrow> server_options \<Rightarrow> nat \<Rightarrow> (io_error + server \<times> shared) \<times> nat" where
  [ws_eval]: "hub_listen runtime bound nonblocking local_addr from_std tx opts counter =
     (case next_id counter of (i, counter) \<Rightarrow>
        (listen runtime bound nonblocking local_addr from_std tx i opts, counter))"

text \<open>\<open>Drop for Hub\<close>: the flag that all senders share is set, then the queued connections are ended.\<close>

fun hub_drain :: "queued list \<Rightarrow> (id \<Rightarrow> link) \<Rightarrow> id \<Rightarrow> link" where
  "hub_drain [] links = links"
| "hub_drain (q # qs) links =
     hub_drain qs
       (case qd_event q of
          EvConnection _ i _ \<Rightarrow> links(i := link_terminate (links i))
        | _ \<Rightarrow> links)"

definition hub_drop :: "(id \<Rightarrow> bool) \<Rightarrow> hub \<Rightarrow> (id \<Rightarrow> link) \<Rightarrow> hub \<times> (id \<Rightarrow> link)" where
  [ws_eval]: "hub_drop mine h links =
     (let links = (\<lambda>i. if mine i then (links i)\<lparr>lk_events := events_close (lk_events (links i))\<rparr> else links i)
      in (h\<lparr>hb_queue := [], hb_closed := True\<rparr>, hub_drain (hb_queue h) links))"

subsection \<open>After the hub\<close>

lemma link_terminate_events [simp]: "ev_closed (lk_events (link_terminate l)) = ev_closed (lk_events l)"
  by (simp add: link_terminate_def finish_def Let_def events_send_def events_send_pending_def stop_writer_def
      split: prod.splits)

lemma link_terminate_state [simp]: "link_state (link_terminate l) = Closed"
  by (simp add: link_terminate_def finish_eq finished_def)

lemma hub_drain_closed_flag [simp]: "ev_closed (lk_events (hub_drain qs links i)) = ev_closed (lk_events (links i))"
  by (induction qs arbitrary: links) (auto split: event.splits)

lemma hub_drain_keeps: "link_state (links i) = Closed \<Longrightarrow> link_state (hub_drain qs links i) = Closed"
  by (induction qs arbitrary: links) (auto split: event.splits)

lemma hub_drain_ends: "EvConnection sid i req \<in> qd_event ` set qs \<Longrightarrow> link_state (hub_drain qs links i) = Closed"
  by (induction qs arbitrary: links) (force simp: hub_drain_keeps split: event.splits)+

lemma emit_after_hub: "ev_closed (lk_events l) \<Longrightarrow> link_state (emit e l) = Closed"
  by (cases "link_state l = Closed")
    (auto simp: emit_closed emit_live Let_def events_send_def events_send_pending_def)

lemma link_start_after_hub:
  "ev_closed (lk_events l) \<Longrightarrow> fst (link_start protocol e l) = False \<and> link_state (snd (link_start protocol e l)) = Closed"
  by (simp add: link_start_def Let_def lease_drop_def events_send_def events_send_pending_def split: prod.splits)

lemma hub_drain_other: "\<forall>sid req. EvConnection sid i req \<notin> qd_event ` set qs \<Longrightarrow> hub_drain qs links i = links i"
proof (induction qs arbitrary: links)
  case (Cons q qs)
  then show ?case by (cases "qd_event q") auto
qed simp

text \<open>
  C28: Nothing outlives the hub.  Dropping it closes every connection that was still queued for the
  application; every other connection of it finds the hub closed, so it closes with the next event
  it would send, and one that is still connecting never opens.  The connections of other hubs that are not
  queued here are left alone.
\<close>

theorem hub_drop_ends:
  assumes "hub_drop mine h links = (h', links')"
  shows "hb_closed h' \<and> hb_queue h' = [] \<and>
    (\<forall>sid i req. EvConnection sid i req \<in> qd_event ` set (hb_queue h) \<longrightarrow> link_state (links' i) = Closed) \<and>
    (\<forall>i. mine i \<longrightarrow> (\<forall>e. link_state (emit e (links' i)) = Closed) \<and>
       (\<forall>protocol e. fst (link_start protocol e (links' i)) = False \<and>
          link_state (snd (link_start protocol e (links' i))) = Closed)) \<and>
    (\<forall>i. \<not> mine i \<and> (\<forall>sid req. EvConnection sid i req \<notin> qd_event ` set (hb_queue h)) \<longrightarrow> links' i = links i)"
proof -
  have h': "hb_closed h'" "hb_queue h' = []" using assms by (auto simp: hub_drop_def Let_def)
  have flag: "ev_closed (lk_events (links' i))" if "mine i" for i
    using assms that by (auto simp: hub_drop_def Let_def events_close_def)
  have queued: "link_state (links' i) = Closed" if "EvConnection sid i req \<in> qd_event ` set (hb_queue h)" for sid i req
    using assms hub_drain_ends [OF that] by (auto simp: hub_drop_def Let_def)
  have other: "links' i = links i" if "\<not> mine i" "\<forall>sid req. EvConnection sid i req \<notin> qd_event ` set (hb_queue h)" for i
    using assms that(1) hub_drain_other [OF that(2)] by (auto simp: hub_drop_def Let_def)
  show ?thesis using h' flag queued other emit_after_hub link_start_after_hub by blast
qed

theorem hub_drop_ends_witness:
  "\<exists>h links h' links'. hb_queue h = [\<lparr>qd_event = EvConnection 1 7 \<lparr>up_path = [], up_headers = [], up_protocols = [], up_addr = []\<rparr>, qd_permit = None, qd_pending = None\<rparr>] \<and>
     link_state (links 7) = Open \<and> hub_drop (\<lambda>i. i = 7) h links = (h', links') \<and>
     link_state (links' 7) = Closed \<and> links' 8 = links 8"
proof -
  let ?h = "\<lparr>hb_queue = [\<lparr>qd_event = EvConnection 1 7 \<lparr>up_path = [], up_headers = [], up_protocols = [], up_addr = []\<rparr>, qd_permit = None, qd_pending = None\<rparr>], hb_closed = False\<rparr>"
  obtain h' links' where d: "hub_drop (\<lambda>i. i = 7) ?h (\<lambda>_. cn_link demo_open) = (h', links')" by fastforce
  have "link_state (cn_link demo_open) = Open" by (simp add: ws_eval)
  moreover from hub_drop_ends [OF d] have "link_state (links' 7) = Closed" "links' 8 = cn_link demo_open" by auto
  ultimately show ?thesis using d
    by (intro exI [of _ ?h] exI [of _ "\<lambda>_. cn_link demo_open"] exI [of _ h'] exI [of _ links']) simp
qed

end
