(* ===== verification/Native.thy ===== *)
theory Native
  imports Hub Complex_Main
begin

text \<open>
  The C interface (\<open>native/src\<close>): the handle registry, and every exported call as a function on
  its state.

  Connections, listeners and reply channels are shared objects; the registry holds their numbers
  and \<open>nt_links\<close>, \<open>nt_listeners\<close> and \<open>nt_answers\<close> their state.  \<open>nt_home\<close> is the hub whose channel a
  connection sends to.  A borrowed string is \<open>None\<close> when its pointer is null, a floating-point
  number is the rational it denotes, and its conversion to nanoseconds is the argument \<open>nanos\<close>.
  A call that fails records its message for \<open>ws_error\<close>.
\<close>

subsection \<open>The registry and errors\<close>

type_synonym ws_str = "bytes option"

definition OK :: nat where [ws_eval]: "OK = 0"
definition SOFT :: nat where [ws_eval]: "SOFT = 1"
definition FATAL :: nat where [ws_eval]: "FATAL = 2"

record native =
  nt_hubs :: "nat \<rightharpoonup> hub"
  nt_conns :: "id set"
  nt_servers :: "id set"
  nt_owners :: "id \<rightharpoonup> nat"
  nt_replies :: "nat \<rightharpoonup> nat \<times> nat"
  nt_next :: nat
  nt_error :: bytes
  nt_links :: "id \<Rightarrow> link"
  nt_home :: "id \<Rightarrow> nat"
  nt_listeners :: "id \<Rightarrow> server \<times> shared"
  nt_answers :: "(nat \<times> reply) list"
  nt_counter :: nat

text \<open>The registry starts empty; the first number drawn is 1.\<close>

definition native_default :: "(id \<Rightarrow> link) \<Rightarrow> (id \<Rightarrow> nat) \<Rightarrow> (id \<Rightarrow> server \<times> shared) \<Rightarrow> native" where
  [ws_eval]: "native_default links home listeners =
     \<lparr>nt_hubs = Map.empty, nt_conns = {}, nt_servers = {}, nt_owners = Map.empty, nt_replies = Map.empty, nt_next = 0,
      nt_error = [], nt_links = links, nt_home = home, nt_listeners = listeners, nt_answers = [], nt_counter = 1\<rparr>"

definition ffi_fail :: "nat \<Rightarrow> bytes \<Rightarrow> native \<Rightarrow> nat \<times> native" where
  [ws_eval]: "ffi_fail status message nt = (status, nt\<lparr>nt_error := message\<rparr>)"

definition ws_error :: "native \<Rightarrow> bytes \<times> native" where
  [ws_eval]: "ws_error nt = (nt_error nt, nt\<lparr>nt_error := []\<rparr>)"

definition registry_token :: "native \<Rightarrow> nat \<times> native" where
  [ws_eval]: "registry_token nt = (let next = wrapping_add (nt_next nt) 1 in (next, nt\<lparr>nt_next := next\<rparr>))"

text \<open>The operator \<open>?\<close> in the closures of the calls.\<close>

type_synonym 'a attempted = "(nat + 'a) \<times> native"

definition attempt :: "'a attempted \<Rightarrow> ('a \<Rightarrow> native \<Rightarrow> 'b attempted) \<Rightarrow> 'b attempted" where
  [ws_eval]: "attempt r f = (case r of (Err e, nt) \<Rightarrow> (Err e, nt) | (Ok x, nt) \<Rightarrow> f x nt)"

definition raise_error :: "nat \<Rightarrow> bytes \<Rightarrow> native \<Rightarrow> 'a attempted" where
  [ws_eval]: "raise_error status message nt = (case ffi_fail status message nt of (e, nt) \<Rightarrow> (Err e, nt))"

definition ws_text :: "ws_str \<Rightarrow> bytes \<Rightarrow> native \<Rightarrow> bytes option attempted" where
  [ws_eval]: "ws_text s what nt =
     (case s of
        None \<Rightarrow> (Ok None, nt)
      | Some b \<Rightarrow>
          (case from_utf8 b of
             Ok t \<Rightarrow> (Ok (Some t), nt)
           | Err _ \<Rightarrow> raise_error FATAL (what @ str '' must be valid UTF-8'') nt))"

subsection \<open>Calls on a connection\<close>

definition sent :: "bytes + unit \<Rightarrow> native \<Rightarrow> nat \<times> native" where
  [ws_eval]: "sent r nt = (case r of Err e \<Rightarrow> ffi_fail SOFT e nt | Ok _ \<Rightarrow> (OK, nt))"

definition with_conn :: "id \<Rightarrow> (link \<Rightarrow> (bytes + unit) \<times> link) \<Rightarrow> native \<Rightarrow> nat \<times> native" where
  [ws_eval]: "with_conn i f nt =
     (if i \<in> nt_conns nt
      then case f (nt_links nt i) of (r, l) \<Rightarrow> sent r (nt\<lparr>nt_links := (nt_links nt)(i := l)\<rparr>)
      else ffi_fail SOFT (str ''closed'') nt)"

definition ws_send :: "id \<Rightarrow> ws_str \<Rightarrow> bool \<Rightarrow> native \<Rightarrow> nat \<times> native" where
  [ws_eval]: "ws_send i data binary nt =
     (let data = (case data of None \<Rightarrow> [] | Some d \<Rightarrow> d) in
      if binary then with_conn i (conn_send data True) nt
      else case from_utf8 data of
             Ok t \<Rightarrow> with_conn i (conn_send_text t) nt
           | Err _ \<Rightarrow> ffi_fail FATAL (str ''text must be valid UTF-8; use send(data, true) for binary'') nt)"

definition ws_ping :: "id \<Rightarrow> ws_str \<Rightarrow> native \<Rightarrow> nat \<times> native" where
  [ws_eval]: "ws_ping i data nt =
     (let data = (case data of None \<Rightarrow> [] | Some d \<Rightarrow> d) in
      if length data > 125 then ffi_fail FATAL (str ''ping data must be at most 125 bytes'') nt
      else with_conn i (conn_ping data) nt)"

definition ws_close :: "nat \<Rightarrow> id \<Rightarrow> int \<Rightarrow> ws_str \<Rightarrow> native \<Rightarrow> nat \<times> native" where
  [ws_eval]: "ws_close now i code why nt =
     (if \<not> (0 \<le> code \<and> code < 65536 \<and> valid_close_code (word_of_int code))
      then ffi_fail FATAL (str ''invalid close code'') nt
      else case ws_text why (str ''close reason'') nt of
             (Err e, nt) \<Rightarrow> (e, nt)
           | (Ok r, nt) \<Rightarrow>
               let r = (case r of None \<Rightarrow> [] | Some r \<Rightarrow> r) in
               if length r > 123 then ffi_fail FATAL (str ''close reason must be at most 123 bytes'') nt
               else if i \<in> nt_conns nt
               then case conn_close now (word_of_int code) r (nt_links nt i) of
                      (Err e, l) \<Rightarrow> ffi_fail FATAL e (nt\<lparr>nt_links := (nt_links nt)(i := l)\<rparr>)
                    | (Ok _, l) \<Rightarrow> (OK, nt\<lparr>nt_links := (nt_links nt)(i := l)\<rparr>)
               else (OK, nt))"

definition ws_terminate :: "id \<Rightarrow> native \<Rightarrow> native" where
  [ws_eval]: "ws_terminate i nt =
     (if i \<in> nt_conns nt then nt\<lparr>nt_links := (nt_links nt)(i := link_terminate (nt_links nt i))\<rparr> else nt)"

definition ws_state :: "id \<Rightarrow> native \<Rightarrow> nat" where
  [ws_eval]: "ws_state i nt =
     (case (if i \<in> nt_conns nt then link_state (nt_links nt i) else Closed) of
        Connecting \<Rightarrow> 0 | Open \<Rightarrow> 1 | Closing \<Rightarrow> 2 | Closed \<Rightarrow> 3)"

definition ws_protocol :: "id \<Rightarrow> native \<Rightarrow> ws_str" where
  [ws_eval]: "ws_protocol i nt = (if i \<in> nt_conns nt then link_protocol (nt_links nt i) else None)"

definition ws_buffered :: "id \<Rightarrow> native \<Rightarrow> nat" where
  [ws_eval]: "ws_buffered i nt = (if i \<in> nt_conns nt then link_buffered (nt_links nt i) else 0)"

subsection \<open>Hubs\<close>

definition ws_hub :: "native \<Rightarrow> nat \<times> native" where
  [ws_eval]: "ws_hub nt =
     (case registry_token nt of (i, nt) \<Rightarrow> (i, nt\<lparr>nt_hubs := (nt_hubs nt)(i \<mapsto> hub_default)\<rparr>))"

text \<open>
  \<open>ws_shutdown\<close>: what the hub owns is taken out of the registry, then the listeners are dropped,
  the connections terminated and the hub dropped.
\<close>

definition ws_shutdown :: "nat \<Rightarrow> native \<Rightarrow> native" where
  [ws_eval]: "ws_shutdown hub_id nt =
     (let owned = (\<lambda>i. nt_owners nt i = Some hub_id);
          conns = {i \<in> nt_conns nt. owned i};
          servers = {i \<in> nt_servers nt. owned i};
          hub = nt_hubs nt hub_id;
          nt = nt\<lparr>nt_owners := (\<lambda>i. if owned i then None else nt_owners nt i),
                  nt_conns := nt_conns nt - conns, nt_servers := nt_servers nt - servers,
                  nt_replies := (\<lambda>t. case nt_replies nt t of
                                       None \<Rightarrow> None
                                     | Some (h, tx) \<Rightarrow> if h = hub_id then None else Some (h, tx)),
                  nt_hubs := (nt_hubs nt)(hub_id := None)\<rparr>;
          nt = nt\<lparr>nt_listeners := (\<lambda>i. if i \<in> servers then server_close (nt_listeners nt i) else nt_listeners nt i)\<rparr>;
          nt = nt\<lparr>nt_links := (\<lambda>i. if i \<in> conns then link_terminate (nt_links nt i) else nt_links nt i)\<rparr>
      in case hub of
           None \<Rightarrow> nt
         | Some h \<Rightarrow> nt\<lparr>nt_links := snd (hub_drop (\<lambda>i. nt_home nt i = hub_id) h (nt_links nt))\<rparr>)"

definition ffi_hub :: "nat \<Rightarrow> native \<Rightarrow> hub attempted" where
  [ws_eval]: "ffi_hub i nt =
     (case nt_hubs nt i of Some h \<Rightarrow> (Ok h, nt) | None \<Rightarrow> raise_error FATAL (str ''unknown hub'') nt)"

subsection \<open>Options\<close>

text \<open>\<open>str::lines\<close>: a final line may lack its terminator, and a carriage return belongs to the terminator.\<close>

definition strip_cr :: "bytes \<Rightarrow> bytes" where
  [ws_eval]: "strip_cr s = (if s \<noteq> [] \<and> last s = 0x0D then butlast s else s)"

fun str_lines :: "bytes \<Rightarrow> bytes \<Rightarrow> bytes list" where
  "str_lines acc [] = (if acc = [] then [] else [acc])"
| "str_lines acc (b # bs) = (if b = 0x0A then strip_cr acc # str_lines [] bs else str_lines (acc @ [b]) bs)"

definition ffi_lines :: "ws_str \<Rightarrow> bytes \<Rightarrow> native \<Rightarrow> bytes list attempted" where
  [ws_eval]: "ffi_lines s what nt =
     attempt (ws_text s what nt) (\<lambda>t nt. (Ok (str_lines [] (case t of None \<Rightarrow> [] | Some t \<Rightarrow> t)), nt))"

fun header_lines :: "bytes list \<Rightarrow> headers \<Rightarrow> native \<Rightarrow> headers attempted" where
  "header_lines [] hs nt = (Ok hs, nt)"
| "header_lines (line # ls) hs nt =
     (case split_once (str '':'') line of
        None \<Rightarrow> raise_error FATAL (str ''invalid header'') nt
      | Some (name, value) \<Rightarrow> header_lines ls (hs @ [(name, value)]) nt)"

declare str_lines.simps [ws_eval] header_lines.simps [ws_eval]

definition heartbeat_from :: "(rat \<Rightarrow> nat) \<Rightarrow> rat \<Rightarrow> nat option \<Rightarrow> nat option" where
  [ws_eval]: "heartbeat_from nanos seconds dflt =
     (if seconds < 0 then dflt else if seconds = 0 then None else Some (nanos (min seconds 1000000)))"

definition ffi_size :: "nat \<Rightarrow> nat \<Rightarrow> nat" where
  [ws_eval]: "ffi_size n dflt = (if n = 0 then dflt else if n \<le> usize_max then n else usize_max)"

definition hub_tx :: "hub \<Rightarrow> events" where
  [ws_eval]: "hub_tx h = \<lparr>ev_tx = [], ev_rx = True, ev_permit = None, ev_closed = hb_closed h\<rparr>"

text \<open>
  \<open>ws_connect\<close>, with the number of the new connection when it succeeds.  \<open>tls_client\<close> and \<open>roots\<close> load a
  TLS configuration from a certificate file and from the default roots; the other arguments are those of
  \<open>connect\<close>.
\<close>

definition ws_connect ::
  "(bytes \<Rightarrow> bytes + nat) \<Rightarrow> bytes + nat \<Rightarrow> (bytes \<Rightarrow> bool) \<Rightarrow> bytes + unit \<Rightarrow> nat \<Rightarrow> bytes \<Rightarrow> (nat \<Rightarrow> mask_key) \<Rightarrow>
   (rat \<Rightarrow> nat) \<Rightarrow> nat \<Rightarrow> ws_str \<Rightarrow> ws_str \<Rightarrow> ws_str \<Rightarrow> ws_str \<Rightarrow> rat \<Rightarrow> nat \<Rightarrow> nat \<Rightarrow> rat \<Rightarrow> native \<Rightarrow> id attempted" where
  [ws_eval]: "ws_connect tls_client roots server_name runtime now token rnd nanos
       hub_id url protocols headers ca timeout maxi buffer beat nt =
     attempt (ffi_hub hub_id nt) (\<lambda>h nt.
     attempt (ws_text url (str ''url'') nt) (\<lambda>url nt.
     attempt (ffi_lines protocols (str ''protocols'') nt) (\<lambda>ps nt.
     attempt (ffi_lines headers (str ''headers'') nt) (\<lambda>ls nt.
     attempt (header_lines ls [] nt) (\<lambda>hs nt.
     attempt (ws_text ca (str ''tls.ca'') nt) (\<lambda>ca nt.
     attempt (case ca of
                None \<Rightarrow> (Ok None, nt)
              | Some ca \<Rightarrow> (case tls_client ca of Err e \<Rightarrow> raise_error FATAL e nt | Ok c \<Rightarrow> (Ok (Some c), nt))) (\<lambda>tls nt.
     let opts = client_default\<lparr>co_protocols := ps, co_headers := hs, co_tls := tls,
           co_timeout := (if timeout > 0 then nanos (min timeout 1000000) else co_timeout client_default),
           co_max_message := ffi_size maxi (co_max_message client_default),
           co_max_buffer := ffi_size buffer (co_max_buffer client_default),
           co_heartbeat := heartbeat_from nanos beat (co_heartbeat client_default)\<rparr>
     in case hub_connect roots server_name runtime now (hub_tx h) token rnd
               (case url of None \<Rightarrow> [] | Some u \<Rightarrow> u) opts (nt_counter nt) of
          (Err e, counter) \<Rightarrow> raise_error FATAL e (nt\<lparr>nt_counter := counter\<rparr>)
        | (Ok (_, _, l), counter) \<Rightarrow>
            (Ok (lk_id l),
             nt\<lparr>nt_counter := counter, nt_links := (nt_links nt)(lk_id l := l), nt_home := (nt_home nt)(lk_id l := hub_id),
                nt_conns := insert (lk_id l) (nt_conns nt), nt_owners := (nt_owners nt)(lk_id l \<mapsto> hub_id)\<rparr>))))))))"

subsection \<open>Servers and decisions\<close>

definition ws_listen ::
  "(bytes \<Rightarrow> bytes \<Rightarrow> bytes + nat) \<Rightarrow> io_error + unit \<Rightarrow> (bytes \<Rightarrow> nat \<Rightarrow> io_error + unit) \<Rightarrow> io_error + unit \<Rightarrow>
   io_error + bytes \<Rightarrow> io_error + unit \<Rightarrow> (io_error \<Rightarrow> bytes) \<Rightarrow> (rat \<Rightarrow> nat) \<Rightarrow>
   nat \<Rightarrow> ws_str \<Rightarrow> nat \<Rightarrow> ws_str \<Rightarrow> ws_str \<Rightarrow> nat \<Rightarrow> nat \<Rightarrow> nat \<Rightarrow> rat \<Rightarrow> native \<Rightarrow> id attempted" where
  [ws_eval]: "ws_listen tls_server runtime bound nonblocking local_addr from_std to_string nanos
       hub_id host port cert key maxi buffer limit beat nt =
     attempt (ffi_hub hub_id nt) (\<lambda>h nt.
     attempt (if 0 < limit
              then if limit \<le> usize_max then (Ok limit, nt)
                   else raise_error FATAL (str ''connection limit is too large'') nt
              else (Ok (so_max_connections server_default), nt)) (\<lambda>limit nt.
     attempt (ws_text host (str ''host'') nt) (\<lambda>host nt.
     attempt (ws_text cert (str ''tls.cert'') nt) (\<lambda>cert nt.
     attempt (ws_text key (str ''tls.key'') nt) (\<lambda>key nt.
     attempt (case (cert, key) of
                (Some cert, Some key) \<Rightarrow>
                  (case tls_server cert key of Err e \<Rightarrow> raise_error FATAL e nt | Ok c \<Rightarrow> (Ok (Some c), nt))
              | (None, None) \<Rightarrow> (Ok None, nt)
              | _ \<Rightarrow> raise_error FATAL (str ''options 'tls.cert' and 'tls.key' go together'') nt) (\<lambda>tls nt.
     let opts = server_default\<lparr>so_port := port, so_max_connections := limit,
           so_host := (case host of None \<Rightarrow> so_host server_default | Some host \<Rightarrow> host),
           so_max_message := ffi_size maxi (so_max_message server_default),
           so_max_buffer := ffi_size buffer (so_max_buffer server_default),
           so_heartbeat := heartbeat_from nanos beat (so_heartbeat server_default), so_tls := tls\<rparr>
     in case hub_listen runtime bound nonblocking local_addr from_std (hub_tx h) opts (nt_counter nt) of
          (Err e, counter) \<Rightarrow> raise_error SOFT (to_string e) (nt\<lparr>nt_counter := counter\<rparr>)
        | (Ok (sv, sh), counter) \<Rightarrow>
            (Ok (sv_id sv),
             nt\<lparr>nt_counter := counter, nt_listeners := (nt_listeners nt)(sv_id sv := (sv, sh)),
                nt_servers := insert (sv_id sv) (nt_servers nt), nt_owners := (nt_owners nt)(sv_id sv \<mapsto> hub_id)\<rparr>)))))))"

text \<open>The port of an address is the argument \<open>port_of\<close>.\<close>

definition ws_port :: "(bytes \<Rightarrow> nat) \<Rightarrow> id \<Rightarrow> native \<Rightarrow> nat" where
  [ws_eval]: "ws_port port_of i nt = (if i \<in> nt_servers nt then port_of (sv_addr (fst (nt_listeners nt i))) else 0)"

definition ws_unlisten :: "id \<Rightarrow> native \<Rightarrow> native" where
  [ws_eval]: "ws_unlisten i nt =
     (let found = i \<in> nt_servers nt;
          nt = nt\<lparr>nt_owners := (nt_owners nt)(i := None), nt_servers := nt_servers nt - {i}\<rparr>
      in if found then nt\<lparr>nt_listeners := (nt_listeners nt)(i := server_close (nt_listeners nt i))\<rparr> else nt)"

definition ws_reply :: "nat \<Rightarrow> nat \<Rightarrow> ws_str \<Rightarrow> native \<Rightarrow> nat \<times> native" where
  [ws_eval]: "ws_reply t status protocol nt =
     (case nt_replies nt t of
        None \<Rightarrow> (OK, nt)
      | Some (_, tx) \<Rightarrow>
          let nt = nt\<lparr>nt_replies := (nt_replies nt)(t := None)\<rparr>;
              (reply, result, nt) =
                (case ws_text protocol (str ''protocol'') nt of
                   (Err e, nt) \<Rightarrow> (Reject 500, e, nt)
                 | (Ok p, nt) \<Rightarrow>
                     if status = 0 then (Accept p, OK, nt)
                     else if 400 \<le> status \<and> status \<le> 599 then (Reject status, OK, nt)
                     else case ffi_fail FATAL (str ''status must be from 400 to 599'') nt of
                            (e, nt) \<Rightarrow> (Reject 500, e, nt))
          in (result, nt\<lparr>nt_answers := nt_answers nt @ [(tx, reply)]\<rparr>))"

subsection \<open>Events\<close>

definition EV_OPEN :: nat where [ws_eval]: "EV_OPEN = 1"
definition EV_MESSAGE :: nat where [ws_eval]: "EV_MESSAGE = 2"
definition EV_PING :: nat where [ws_eval]: "EV_PING = 3"
definition EV_PONG :: nat where [ws_eval]: "EV_PONG = 4"
definition EV_ERROR :: nat where [ws_eval]: "EV_ERROR = 5"
definition EV_CLOSE :: nat where [ws_eval]: "EV_CLOSE = 6"
definition EV_REQUEST :: nat where [ws_eval]: "EV_REQUEST = 7"
definition EV_CONNECTION :: nat where [ws_eval]: "EV_CONNECTION = 8"
definition EV_DRAIN :: nat where [ws_eval]: "EV_DRAIN = 9"

record ws_event =
  we_kind :: nat
  we_id :: nat
  we_server :: nat
  we_code :: nat
  we_data :: bytes

text \<open>\<open>pack\<close>; how an address prints its host and port are the arguments \<open>ip\<close> and \<open>port\<close>.\<close>

definition pack :: "(bytes \<Rightarrow> bytes) \<Rightarrow> (bytes \<Rightarrow> bytes) \<Rightarrow> upgrade \<Rightarrow> bytes" where
  [ws_eval]: "pack ip port req =
     up_path req @ [0x0A] @ ip (up_addr req) @ [0x0A] @ port (up_addr req) @ [0x0A] @
     join (str '','') (up_protocols req) @ [0x0A] @
     concat (map (\<lambda>(name, value). name @ str '':'' @ value @ [0x0A]) (up_headers req))"

definition take_data :: "id \<Rightarrow> bytes \<Rightarrow> native \<Rightarrow> native" where
  [ws_eval]: "take_data i data nt =
     (if i \<in> nt_conns nt then nt\<lparr>nt_links := (nt_links nt)(i := consumed (length data) (nt_links nt i))\<rparr> else nt)"

fun flatten :: "(bytes \<Rightarrow> bytes) \<Rightarrow> (bytes \<Rightarrow> bytes) \<Rightarrow> nat \<Rightarrow> event \<Rightarrow> native \<Rightarrow> (nat \<times> nat \<times> nat \<times> nat \<times> bytes) \<times> native" where
  "flatten ip port h (EvOpen i) nt = ((EV_OPEN, i, 0, 0, []), nt)"
| "flatten ip port h (EvMessage i data binary) nt =
     ((EV_MESSAGE, i, 0, if binary then 1 else 0, data), take_data i data nt)"
| "flatten ip port h (EvPing i data) nt = ((EV_PING, i, 0, 0, data), take_data i data nt)"
| "flatten ip port h (EvPong i data) nt = ((EV_PONG, i, 0, 0, data), take_data i data nt)"
| "flatten ip port h (EvError i error) nt = ((EV_ERROR, i, 0, 0, error), nt)"
| "flatten ip port h (EvDrain i) nt = ((EV_DRAIN, i, 0, 0, []), nt)"
| "flatten ip port h (EvClose i code why) nt =
     ((EV_CLOSE, i, 0, unat code, why),
      nt\<lparr>nt_conns := nt_conns nt - {i}, nt_owners := (nt_owners nt)(i := None)\<rparr>)"
| "flatten ip port h (EvRequest server req reply) nt =
     (case registry_token nt of
        (t, nt) \<Rightarrow> ((EV_REQUEST, t, server, 0, pack ip port req), nt\<lparr>nt_replies := (nt_replies nt)(t \<mapsto> (h, reply))\<rparr>))"
| "flatten ip port h (EvConnection server i req) nt =
     ((EV_CONNECTION, i, server, 0, pack ip port req),
      nt\<lparr>nt_conns := insert i (nt_conns nt), nt_owners := (nt_owners nt)(i \<mapsto> h)\<rparr>)"

declare flatten.simps [ws_eval]

text \<open>
  \<open>ws_wait\<close>: \<open>-2\<close> for an unknown hub, 0 when the time is over, and 1 with an event; \<open>None\<close> while it
  waits without a timeout.
\<close>

definition ws_wait ::
  "(bytes \<Rightarrow> bytes) \<Rightarrow> (bytes \<Rightarrow> bytes) \<Rightarrow> (rat \<Rightarrow> nat) \<Rightarrow> nat \<Rightarrow> rat \<Rightarrow> native \<Rightarrow> (int \<times> ws_event option \<times> native) option" where
  [ws_eval]: "ws_wait ip port nanos hub_id timeout nt =
     (case nt_hubs nt hub_id of
        None \<Rightarrow> (case ffi_fail FATAL (str ''unknown hub'') nt of (e, nt) \<Rightarrow> Some (- int e, None, nt))
      | Some h \<Rightarrow>
          (case hub_recv (if timeout \<ge> 0 then Some (nanos (min timeout 1000000)) else None) h of
             None \<Rightarrow> None
           | Some (None, h) \<Rightarrow> Some (0, None, nt)
           | Some (Some event, h) \<Rightarrow>
               (case flatten ip port hub_id event (nt\<lparr>nt_hubs := (nt_hubs nt)(hub_id \<mapsto> h)\<rparr>) of
                  ((kind, i, server, code, data), nt) \<Rightarrow>
                    Some (1, Some \<lparr>we_kind = kind, we_id = i, we_server = server, we_code = code, we_data = data\<rparr>, nt))))"

end
