(* ===== verification/Glue.thy ===== *)
theory Glue
  imports Lua Native
begin

text \<open>
  The C layer between Lua and the native calls (\<open>native/values.c\<close>, \<open>calls.c\<close>, \<open>ws.c\<close>): the checks of arguments,
  the results, and every call of \<open>ws.core\<close>.

  An argument error is the number of the argument it blames.  How Lua converts a value to an integer or a
  number is given by \<open>lua_api\<close>; the copying of strings between the two memories is not modelled.
\<close>

subsection \<open>Arguments\<close>

record lua_api =
  api_integer :: "lua_value \<Rightarrow> int option"
  api_number :: "lua_value \<Rightarrow> rat option"

text \<open>What the code relies on: a number stands for itself, and one that is an integer in 64 bits converts exactly.\<close>

definition api_ok :: "lua_api \<Rightarrow> bool" where
  "api_ok api \<longleftrightarrow> (\<forall>x. api_number api (LNumber x) = Some x) \<and>
     (\<forall>n. \<bar>n\<bar> < 2 ^ 63 \<longrightarrow> api_integer api (LNumber (of_int n)) = Some n)"

definition opt_str :: "lua_value \<Rightarrow> nat \<Rightarrow> nat + ws_str" where
  [ws_eval]: "opt_str v i = (case v of LNil \<Rightarrow> Ok None | LStr s \<Rightarrow> Ok (Some s) | _ \<Rightarrow> Err i)"

definition check_id :: "lua_api \<Rightarrow> lua_value \<Rightarrow> nat \<Rightarrow> nat + nat" where
  [ws_eval]: "check_id api v i = (case api_integer api v of Some n \<Rightarrow> if n > 0 then Ok (nat n) else Err i | None \<Rightarrow> Err i)"

definition opt_number :: "lua_api \<Rightarrow> lua_value \<Rightarrow> nat \<Rightarrow> rat \<Rightarrow> nat + rat" where
  [ws_eval]: "opt_number api v i dflt =
     (if v = LNil then Ok dflt else case api_number api v of Some n \<Rightarrow> Ok n | None \<Rightarrow> Err i)"

definition opt_integer :: "lua_api \<Rightarrow> lua_value \<Rightarrow> nat \<Rightarrow> int \<Rightarrow> nat + int" where
  [ws_eval]: "opt_integer api v i dflt =
     (if v = LNil then Ok dflt else case api_integer api v of Some n \<Rightarrow> Ok n | None \<Rightarrow> Err i)"

definition opt_size :: "lua_api \<Rightarrow> lua_value \<Rightarrow> nat \<Rightarrow> nat + nat" where
  [ws_eval]: "opt_size api v i =
     (case opt_number api v i 0 of
        Err e \<Rightarrow> Err e
      | Ok n \<Rightarrow> if 0 \<le> n \<and> n \<le> 9007199254740992 \<and> of_int \<lfloor>n\<rfloor> = n then Ok (nat \<lfloor>n\<rfloor>) else Err i)"

definition opt_heartbeat :: "lua_api \<Rightarrow> lua_value \<Rightarrow> nat \<Rightarrow> nat + rat" where
  [ws_eval]: "opt_heartbeat api v i =
     (case v of
        LNil \<Rightarrow> Ok (- 1)
      | LBool b \<Rightarrow> if b then Err i else Ok 0
      | _ \<Rightarrow> (case api_number api v of
               Some n \<Rightarrow> if n > 0 \<and> n \<le> 1000000 then Ok n else Err i
             | None \<Rightarrow> Err i))"

subsection \<open>Results\<close>

definition glue_result :: "nat \<Rightarrow> native \<Rightarrow> lua_value list \<times> native" where
  [ws_eval]: "glue_result rc nt =
     (if rc = OK then ([LBool True], nt)
      else case ws_error nt of (message, nt) \<Rightarrow> ([LNil, LStr message, LBool (rc = FATAL)], nt))"

definition glue_handle :: "nat + id \<Rightarrow> native \<Rightarrow> lua_value list \<times> native" where
  [ws_eval]: "glue_handle r nt = (case r of Err rc \<Rightarrow> glue_result rc nt | Ok i \<Rightarrow> ([LNumber (of_nat i)], nt))"

text \<open>A call raises an argument error, or returns values and the native state it leaves.\<close>

type_synonym called = "nat + lua_value list \<times> native"

subsection \<open>Calls\<close>

definition l_wait ::
  "lua_api \<Rightarrow> (bytes \<Rightarrow> bytes) \<Rightarrow> (bytes \<Rightarrow> bytes) \<Rightarrow> (rat \<Rightarrow> nat) \<Rightarrow> lua_value \<Rightarrow> lua_value \<Rightarrow> native \<Rightarrow> called option" where
  [ws_eval]: "l_wait api ip port nanos a1 a2 nt =
     (case check_id api a1 1 of
        Err i \<Rightarrow> Some (Err i)
      | Ok hub \<Rightarrow>
          (case opt_number api a2 2 (- 1) of
             Err i \<Rightarrow> Some (Err i)
           | Ok timeout \<Rightarrow>
               map_option (\<lambda>(rc, ev, nt).
                 if rc < 0 then Ok (glue_result (nat (- rc)) nt)
                 else case ev of
                   None \<Rightarrow> Ok ([], nt)
                 | Some ev \<Rightarrow> Ok ([LNumber (of_nat (we_kind ev)), LNumber (of_nat (we_id ev)), LStr (we_data ev),
                                   LNumber (of_nat (we_code ev)), LNumber (of_nat (we_server ev))], nt))
                 (ws_wait ip port nanos hub timeout nt)))"

record connect_args =
  ca_hub :: nat
  ca_url :: ws_str
  ca_protocols :: ws_str
  ca_headers :: ws_str
  ca_ca :: ws_str
  ca_timeout :: rat
  ca_max :: nat
  ca_buffer :: nat
  ca_heartbeat :: rat

text \<open>The arguments of \<open>l_connect\<close> in the order in which they are read.\<close>

definition connect_arguments :: "lua_api \<Rightarrow> lua_value list \<Rightarrow> nat + connect_args" where
  [ws_eval]: "connect_arguments api a =
     (case check_id api (a ! 0) 1 of Err e \<Rightarrow> Err e | Ok hub \<Rightarrow>
     (case opt_str (a ! 1) 2 of Err e \<Rightarrow> Err e | Ok url \<Rightarrow>
     (case opt_str (a ! 2) 3 of Err e \<Rightarrow> Err e | Ok protocols \<Rightarrow>
     (case opt_str (a ! 3) 4 of Err e \<Rightarrow> Err e | Ok headers \<Rightarrow>
     (case opt_str (a ! 4) 5 of Err e \<Rightarrow> Err e | Ok ca \<Rightarrow>
     (case opt_number api (a ! 5) 6 0 of Err e \<Rightarrow> Err e | Ok timeout \<Rightarrow>
     (case opt_size api (a ! 6) 7 of Err e \<Rightarrow> Err e | Ok maxi \<Rightarrow>
     (case opt_size api (a ! 7) 8 of Err e \<Rightarrow> Err e | Ok buffer \<Rightarrow>
     (case opt_heartbeat api (a ! 8) 9 of Err e \<Rightarrow> Err e | Ok beat \<Rightarrow>
        Ok \<lparr>ca_hub = hub, ca_url = url, ca_protocols = protocols, ca_headers = headers, ca_ca = ca, ca_timeout = timeout,
            ca_max = maxi, ca_buffer = buffer, ca_heartbeat = beat\<rparr>)))))))))"

lemma connect_arguments_ok:
  "\<lbrakk>check_id api a0 1 = Ok hub; opt_str a1 2 = Ok url; opt_str a2 3 = Ok protocols; opt_str a3 4 = Ok hs; opt_str a4 5 = Ok ca;
    opt_number api a5 6 0 = Ok timeout; opt_size api a6 7 = Ok maxi; opt_size api a7 8 = Ok buffer; opt_heartbeat api a8 9 = Ok beat\<rbrakk>
   \<Longrightarrow> connect_arguments api [a0, a1, a2, a3, a4, a5, a6, a7, a8] =
     Ok \<lparr>ca_hub = hub, ca_url = url, ca_protocols = protocols, ca_headers = hs, ca_ca = ca, ca_timeout = timeout,
         ca_max = maxi, ca_buffer = buffer, ca_heartbeat = beat\<rparr>"
  by (simp add: connect_arguments_def)

text \<open>What the two creating calls take from outside, as the arguments of \<^const>\<open>ws_connect\<close> and \<^const>\<open>ws_listen\<close>.\<close>

record net_env =
  en_tls_client :: "bytes \<Rightarrow> bytes + nat"
  en_roots :: "bytes + nat"
  en_server_name :: "bytes \<Rightarrow> bool"
  en_connect_runtime :: "bytes + unit"
  en_now :: nat
  en_token :: bytes
  en_rnd :: "nat \<Rightarrow> mask_key"
  en_nanos :: "rat \<Rightarrow> nat"
  en_tls_server :: "bytes \<Rightarrow> bytes \<Rightarrow> bytes + nat"
  en_runtime :: "io_error + unit"
  en_bound :: "bytes \<Rightarrow> nat \<Rightarrow> io_error + unit"
  en_nonblocking :: "io_error + unit"
  en_local_addr :: "io_error + bytes"
  en_from_std :: "io_error + unit"
  en_to_string :: "io_error \<Rightarrow> bytes"

definition l_connect :: "net_env \<Rightarrow> lua_api \<Rightarrow> lua_value list \<Rightarrow> native \<Rightarrow> called" where
  [ws_eval]: "l_connect en api a nt =
     (case connect_arguments api a of
        Err i \<Rightarrow> Err i
      | Ok c \<Rightarrow>
          (case ws_connect (en_tls_client en) (en_roots en) (en_server_name en) (en_connect_runtime en) (en_now en) (en_token en)
                  (en_rnd en) (en_nanos en) (ca_hub c) (ca_url c) (ca_protocols c) (ca_headers c) (ca_ca c) (ca_timeout c)
                  (ca_max c) (ca_buffer c) (ca_heartbeat c) nt of
             (r, nt) \<Rightarrow> Ok (glue_handle r nt)))"

record listen_args =
  la_hub :: nat
  la_host :: ws_str
  la_cert :: ws_str
  la_key :: ws_str
  la_port :: nat
  la_max :: nat
  la_buffer :: nat
  la_connections :: nat
  la_heartbeat :: rat

definition listen_arguments :: "lua_api \<Rightarrow> lua_value list \<Rightarrow> nat + listen_args" where
  [ws_eval]: "listen_arguments api a =
     (case check_id api (a ! 0) 1 of Err e \<Rightarrow> Err e | Ok hub \<Rightarrow>
     (case opt_str (a ! 1) 2 of Err e \<Rightarrow> Err e | Ok host \<Rightarrow>
     (case opt_str (a ! 3) 4 of Err e \<Rightarrow> Err e | Ok cert \<Rightarrow>
     (case opt_str (a ! 4) 5 of Err e \<Rightarrow> Err e | Ok key \<Rightarrow>
     (case api_integer api (a ! 2) of None \<Rightarrow> Err 3 | Some port \<Rightarrow>
      if \<not> (0 \<le> port \<and> port \<le> 65535) then Err 3 else
     (case opt_size api (a ! 5) 6 of Err e \<Rightarrow> Err e | Ok maxi \<Rightarrow>
     (case opt_size api (a ! 6) 7 of Err e \<Rightarrow> Err e | Ok buffer \<Rightarrow>
     (case opt_size api (a ! 7) 8 of Err e \<Rightarrow> Err e | Ok connections \<Rightarrow>
     (case opt_heartbeat api (a ! 8) 9 of Err e \<Rightarrow> Err e | Ok beat \<Rightarrow>
        Ok \<lparr>la_hub = hub, la_host = host, la_cert = cert, la_key = key, la_port = nat port, la_max = maxi,
            la_buffer = buffer, la_connections = connections, la_heartbeat = beat\<rparr>)))))))))"

definition l_listen :: "net_env \<Rightarrow> lua_api \<Rightarrow> lua_value list \<Rightarrow> native \<Rightarrow> called" where
  [ws_eval]: "l_listen en api a nt =
     (case listen_arguments api a of
        Err i \<Rightarrow> Err i
      | Ok c \<Rightarrow>
          (case ws_listen (en_tls_server en) (en_runtime en) (en_bound en) (en_nonblocking en) (en_local_addr en)
                  (en_from_std en) (en_to_string en) (en_nanos en) (la_hub c) (la_host c) (la_port c) (la_cert c) (la_key c)
                  (la_max c) (la_buffer c) (la_connections c) (la_heartbeat c) nt of
             (r, nt) \<Rightarrow> Ok (glue_handle r nt)))"

definition l_port :: "lua_api \<Rightarrow> (bytes \<Rightarrow> nat) \<Rightarrow> lua_value \<Rightarrow> native \<Rightarrow> called" where
  [ws_eval]: "l_port api port_of a1 nt =
     (case check_id api a1 1 of Err e \<Rightarrow> Err e | Ok i \<Rightarrow> Ok ([LNumber (of_nat (ws_port port_of i nt))], nt))"

definition l_unlisten :: "lua_api \<Rightarrow> lua_value \<Rightarrow> native \<Rightarrow> called" where
  [ws_eval]: "l_unlisten api a1 nt = (case check_id api a1 1 of Err e \<Rightarrow> Err e | Ok i \<Rightarrow> Ok ([], ws_unlisten i nt))"

definition l_reply :: "lua_api \<Rightarrow> lua_value \<Rightarrow> lua_value \<Rightarrow> lua_value \<Rightarrow> native \<Rightarrow> called" where
  [ws_eval]: "l_reply api a1 a2 a3 nt =
     (case check_id api a1 1 of Err e \<Rightarrow> Err e | Ok token \<Rightarrow>
     (case opt_integer api a2 2 0 of Err e \<Rightarrow> Err e | Ok status \<Rightarrow>
      if \<not> (0 \<le> status \<and> status \<le> 65535) then Err 2 else
     (case opt_str a3 3 of Err e \<Rightarrow> Err e | Ok protocol \<Rightarrow>
     (case ws_reply token (nat status) protocol nt of (rc, nt) \<Rightarrow> Ok (glue_result rc nt)))))"

definition l_send :: "lua_api \<Rightarrow> lua_value \<Rightarrow> lua_value \<Rightarrow> lua_value \<Rightarrow> native \<Rightarrow> called" where
  [ws_eval]: "l_send api a1 a2 a3 nt =
     (case check_id api a1 1 of Err e \<Rightarrow> Err e | Ok i \<Rightarrow>
     (case opt_str a2 2 of Err e \<Rightarrow> Err e | Ok data \<Rightarrow>
     (case ws_send i data (truthy a3) nt of (rc, nt) \<Rightarrow> Ok (glue_result rc nt))))"

definition l_ping :: "lua_api \<Rightarrow> lua_value \<Rightarrow> lua_value \<Rightarrow> native \<Rightarrow> called" where
  [ws_eval]: "l_ping api a1 a2 nt =
     (case check_id api a1 1 of Err e \<Rightarrow> Err e | Ok i \<Rightarrow>
     (case opt_str a2 2 of Err e \<Rightarrow> Err e | Ok data \<Rightarrow>
     (case ws_ping i data nt of (rc, nt) \<Rightarrow> Ok (glue_result rc nt))))"

definition l_close :: "lua_api \<Rightarrow> nat \<Rightarrow> lua_value \<Rightarrow> lua_value \<Rightarrow> lua_value \<Rightarrow> native \<Rightarrow> called" where
  [ws_eval]: "l_close api now a1 a2 a3 nt =
     (case check_id api a1 1 of Err e \<Rightarrow> Err e | Ok i \<Rightarrow>
     (case opt_integer api a2 2 1000 of Err e \<Rightarrow> Err e | Ok code \<Rightarrow>
      let code = (if code < 0 \<or> code > 65535 then 0 else code) in
     (case opt_str a3 3 of Err e \<Rightarrow> Err e | Ok why \<Rightarrow>
     (case ws_close now i code why nt of (rc, nt) \<Rightarrow> Ok (glue_result rc nt)))))"

definition l_terminate :: "lua_api \<Rightarrow> lua_value \<Rightarrow> native \<Rightarrow> called" where
  [ws_eval]: "l_terminate api a1 nt = (case check_id api a1 1 of Err e \<Rightarrow> Err e | Ok i \<Rightarrow> Ok ([], ws_terminate i nt))"

definition l_protocol :: "lua_api \<Rightarrow> lua_value \<Rightarrow> native \<Rightarrow> called" where
  [ws_eval]: "l_protocol api a1 nt =
     (case check_id api a1 1 of
        Err e \<Rightarrow> Err e
      | Ok i \<Rightarrow> Ok ([case ws_protocol i nt of None \<Rightarrow> LNil | Some p \<Rightarrow> LStr p], nt))"

definition l_shutdown :: "lua_api \<Rightarrow> lua_value \<Rightarrow> native \<Rightarrow> called" where
  [ws_eval]: "l_shutdown api a1 nt = (case check_id api a1 1 of Err e \<Rightarrow> Err e | Ok i \<Rightarrow> Ok ([], ws_shutdown i nt))"

definition STATES :: "bytes list" where
  [ws_eval]: "STATES = [str ''connecting'', str ''open'', str ''closing'', str ''closed'']"

definition l_state :: "lua_api \<Rightarrow> lua_value \<Rightarrow> native \<Rightarrow> called" where
  [ws_eval]: "l_state api a1 nt =
     (case check_id api a1 1 of Err e \<Rightarrow> Err e | Ok i \<Rightarrow> Ok ([LStr (STATES ! (ws_state i nt mod 4))], nt))"

definition l_buffered :: "lua_api \<Rightarrow> lua_value \<Rightarrow> native \<Rightarrow> called" where
  [ws_eval]: "l_buffered api a1 nt =
     (case check_id api a1 1 of Err e \<Rightarrow> Err e | Ok i \<Rightarrow> Ok ([LNumber (of_nat (ws_buffered i nt))], nt))"

text \<open>
  \<open>l_hub\<close> on a table that owns the hub, or on none: the number of the hub is stored in the owner's slot, which has
  to hold \<open>false\<close>, before the call returns.
\<close>

definition l_hub :: "(lua_value \<times> lua_value) list option \<Rightarrow> native \<Rightarrow> nat + (lua_value \<times> lua_value) list option \<times> lua_value \<times> native" where
  [ws_eval]: "l_hub owner nt =
     (case owner of
        Some t \<Rightarrow>
          if lua_get t (LStr (str ''hub'')) \<noteq> LBool False then Err 1
          else case ws_hub nt of
            (i, nt) \<Rightarrow> Ok (Some (map (\<lambda>(k, v). if k = LStr (str ''hub'') then (k, LNumber (of_nat i)) else (k, v)) t),
                         LNumber (of_nat i), nt)
      | None \<Rightarrow> (case ws_hub nt of (i, nt) \<Rightarrow> Ok (None, LNumber (of_nat i), nt)))"

end
