(* ===== verification/Native_Spec.thy ===== *)
theory Native_Spec
  imports Native
begin

text \<open>
  What the C interface promises: which calls are refused and why, that the registry stays
  consistent under any sequence of calls and events, but for connections passed to \<open>ws_unlisten\<close>, that shutting a hub down leaves nothing of
  it behind, that an upgrade is decided once and by a legal answer, and that a packed request can be
  taken apart again.
\<close>

subsection \<open>Statuses\<close>

abbreviation given :: "ws_str \<Rightarrow> bytes" where
  "given s \<equiv> (case s of None \<Rightarrow> [] | Some b \<Rightarrow> b)"

lemma statuses [simp]: "OK \<noteq> SOFT" "OK \<noteq> FATAL" "SOFT \<noteq> FATAL" "SOFT \<noteq> OK" "FATAL \<noteq> OK" "FATAL \<noteq> SOFT"
  by (simp_all add: OK_def SOFT_def FATAL_def)

lemma from_utf8_cases:
  obtains "is_utf8 b" "from_utf8 b = Ok b" | e where "\<not> is_utf8 b" "from_utf8 b = Err e"
  using from_utf8_Ok_iff [of b b] by (cases "from_utf8 b") (auto simp: from_utf8_Ok_iff)

lemma ws_text_cases:
  obtains "is_utf8 (given s)" "ws_text s what nt = (Ok s, nt)"
  | "\<not> is_utf8 (given s)" "ws_text s what nt = (Err FATAL, nt\<lparr>nt_error := what @ str '' must be valid UTF-8''\<rparr>)"
proof (cases s)
  case None
  then show thesis using that(1) by (simp add: ws_text_def)
next
  case (Some b)
  show thesis
  proof (cases b rule: from_utf8_cases)
    case 1
    with Some show thesis using that(1) by (simp add: ws_text_def)
  next
    case (2 e)
    with Some show thesis using that(2) by (simp add: ws_text_def raise_error_def ffi_fail_def)
  qed
qed

lemma with_conn_status:
  "fst (with_conn i f nt) = (if i \<in> nt_conns nt \<and> fst (f (nt_links nt i)) = Ok () then OK else SOFT)"
  by (auto simp: with_conn_def sent_def ffi_fail_def split: prod.splits sum.splits)

lemma ws_send_status:
  "fst (ws_send i data binary nt) =
     (if \<not> binary \<and> \<not> is_utf8 (given data) then FATAL
      else if i \<in> nt_conns nt \<and> fst (link_send (if binary then BINARY else TEXT) (given data) (nt_links nt i)) = Ok () then OK
      else SOFT)"
proof (cases "given data" rule: from_utf8_cases)
  case 1
  then show ?thesis by (simp add: ws_send_def with_conn_status conn_send_def conn_send_text_def)
next
  case (2 e)
  then show ?thesis by (simp add: ws_send_def with_conn_status conn_send_def ffi_fail_def)
qed

lemma ws_ping_status:
  "fst (ws_ping i data nt) =
     (if 125 < length (given data) then FATAL
      else if i \<in> nt_conns nt \<and> fst (link_send PING (given data) (nt_links nt i)) = Ok () then OK
      else SOFT)"
  by (simp add: ws_ping_def with_conn_status conn_ping_def ffi_fail_def)

lemma ws_close_status:
  "fst (ws_close now i code why nt) =
     (if 0 \<le> code \<and> code < 65536 \<and> valid_close_code (word_of_int code) \<and> is_utf8 (given why) \<and> length (given why) \<le> 123
      then OK else FATAL)"
  by (cases rule: ws_text_cases [of why "str ''close reason''" nt])
    (auto simp: ws_close_def ffi_fail_def conn_close_def)

text \<open>
  C29: The status of a call is decided by its arguments first: a call is fatal exactly when its
  arguments are invalid, whatever the handle, so a mistake is reported even on a closed socket; with
  valid arguments a send or ping succeeds exactly when the handle is known and the connection takes the
  frame, and is otherwise an expected failure; and closing always succeeds, so none of the
  checks repeated inside the library is ever the one that fires.
\<close>

theorem native_status:
  "fst (ws_send i data binary nt) =
     (if \<not> binary \<and> \<not> is_utf8 (given data) then FATAL
      else if i \<in> nt_conns nt \<and> fst (link_send (if binary then BINARY else TEXT) (given data) (nt_links nt i)) = Ok () then OK
      else SOFT) \<and>
   fst (ws_ping i data nt) =
     (if 125 < length (given data) then FATAL
      else if i \<in> nt_conns nt \<and> fst (link_send PING (given data) (nt_links nt i)) = Ok () then OK
      else SOFT) \<and>
   fst (ws_close now i code data nt) =
     (if 0 \<le> code \<and> code < 65536 \<and> valid_close_code (word_of_int code) \<and> is_utf8 (given data) \<and> length (given data) \<le> 123
      then OK else FATAL)"
  using ws_send_status ws_ping_status ws_close_status by blast

text \<open>Two hubs with a connection each, and an upgrade that the first has to decide.\<close>

definition demo_native :: native where
  "demo_native =
     \<lparr>nt_hubs = [1 \<mapsto> hub_default, 2 \<mapsto> hub_default], nt_conns = {7, 8}, nt_servers = {},
      nt_owners = [7 \<mapsto> 1, 8 \<mapsto> 2], nt_replies = [4 \<mapsto> (1, 9)], nt_next = 4, nt_error = [],
      nt_links = (\<lambda>_. cn_link demo_open), nt_home = (\<lambda>i. if i = 7 then 1 else 2),
      nt_listeners = (\<lambda>_. (\<lparr>sv_id = 0, sv_addr = [], sv_released = False\<rparr>,
        \<lparr>sh_id = 0, sh_events = hub_tx hub_default, sh_tls = None, sh_config = client_config client_default,
         sh_pending = 0, sh_stop = False, sh_connections = 0, sh_max_connections = 0\<rparr>)),
      nt_answers = [], nt_counter = 9\<rparr>"

subsection \<open>Decisions\<close>

fun legal_reply :: "reply \<Rightarrow> bool" where
  "legal_reply (Accept p) = is_utf8 (given p)"
| "legal_reply (Reject status) \<longleftrightarrow> 400 \<le> status \<and> status \<le> 599"

lemma ws_reply_effect:
  assumes "ws_reply t status protocol nt = (result, nt')"
  shows "case nt_replies nt t of
      None \<Rightarrow> result = OK \<and> nt' = nt
    | Some (h, tx) \<Rightarrow> nt_replies nt' = (nt_replies nt)(t := None) \<and> ws_reply t status' protocol' nt' = (OK, nt') \<and>
        (\<exists>r. nt_answers nt' = nt_answers nt @ [(tx, r)] \<and> legal_reply r \<and>
           (result = OK \<longleftrightarrow> is_utf8 (given protocol) \<and> (status = 0 \<or> 400 \<le> status \<and> status \<le> 599)) \<and>
           (result = OK \<longrightarrow> r = (if status = 0 then Accept protocol else Reject status)) \<and>
           (\<forall>s sha1 write_all asked. r = Reject s \<longrightarrow> handshake_decide sha1 (Some r) write_all asked = Inl (Some s)))"
proof (cases "nt_replies nt t")
  case (Some x)
  obtain h tx where x: "x = (h, tx)" by (cases x)
  let ?nt = "nt\<lparr>nt_replies := (nt_replies nt)(t := None)\<rparr>"
  have again: "ws_reply t status' protocol' n = (OK, n)" if "nt_replies n = (nt_replies nt)(t := None)" for n
    using that by (simp add: ws_reply_def)
  show ?thesis
    using assms Some x again [of nt']
    by (cases rule: ws_text_cases [of protocol "str ''protocol''" ?nt])
      (auto simp: ws_reply_def Let_def ffi_fail_def handshake_decide_def split: if_splits)
qed (use assms in \<open>simp add: ws_reply_def\<close>)

text \<open>
  C30: An upgrade is decided at most once and always legally: a known token is used up and its
  channel gets one answer, an acceptance with a UTF-8 name or a refusal whose status the
  handshake sends as it is, also when the arguments are invalid; an unknown or used token does
  nothing.
\<close>

theorem ws_reply_once:
  assumes "ws_reply t status protocol nt = (result, nt')"
  shows "case nt_replies nt t of
      None \<Rightarrow> result = OK \<and> nt' = nt
    | Some (h, tx) \<Rightarrow> nt_replies nt' = (nt_replies nt)(t := None) \<and> ws_reply t status' protocol' nt' = (OK, nt') \<and>
        (\<exists>r. nt_answers nt' = nt_answers nt @ [(tx, r)] \<and> legal_reply r \<and>
           (result = OK \<longleftrightarrow> is_utf8 (given protocol) \<and> (status = 0 \<or> 400 \<le> status \<and> status \<le> 599)) \<and>
           (result = OK \<longrightarrow> r = (if status = 0 then Accept protocol else Reject status)) \<and>
           (\<forall>s sha1 write_all asked. r = Reject s \<longrightarrow> handshake_decide sha1 (Some r) write_all asked = Inl (Some s)))"
  using assms by (rule ws_reply_effect)

theorem ws_reply_once_witness:
  "\<exists>nt'. ws_reply 4 302 None demo_native = (FATAL, nt') \<and>
     nt_answers nt' = [(9, Reject 500)] \<and> ws_reply 4 0 None nt' = (OK, nt')"
proof -
  obtain nt' where r: "ws_reply 4 302 None demo_native = (FATAL, nt')" "nt_answers nt' = [(9, Reject 500)]"
    by (simp add: ws_reply_def ws_text_def ffi_fail_def Let_def demo_native_def)
  have "nt_replies demo_native 4 = Some (1, 9)" by (simp add: demo_native_def)
  with ws_reply_once [OF r(1), of 0 None] have "ws_reply 4 0 None nt' = (OK, nt')" by simp
  with r show ?thesis by (intro exI [of _ nt']) simp
qed

subsection \<open>Packed requests\<close>

lemma split_terminated:
  "\<forall>l \<in> set ls. c \<notin> set l \<Longrightarrow> split_str [c] (concat (map (\<lambda>l. l @ [c]) ls)) = ls @ [[]]"
proof (induction ls)
  case Nil
  show ?case using split_str_absent [of c "[]" "[]"] by simp
next
  case (Cons l ls)
  then show ?case using split_str_first [of c l "[]" "concat (map (\<lambda>l. l @ [c]) ls)"] by simp
qed

definition packed_lines :: "(bytes \<Rightarrow> bytes) \<Rightarrow> (bytes \<Rightarrow> bytes) \<Rightarrow> upgrade \<Rightarrow> bytes list" where
  "packed_lines ip port req =
     [up_path req, ip (up_addr req), port (up_addr req), join (str '','') (up_protocols req)] @
     map (\<lambda>(name, value). name @ str '':'' @ value) (up_headers req)"

lemma pack_lines: "pack ip port req = concat (map (\<lambda>l. l @ [0x0A]) (packed_lines ip port req))"
  by (simp add: pack_def packed_lines_def comp_def split_def)

lemma no_newline:
  "is_token s \<Longrightarrow> 0x0A \<notin> set s" "is_value s \<Longrightarrow> 0x0A \<notin> set s" "valid_target s \<Longrightarrow> 0x0A \<notin> set s"
proof -
  show "0x0A \<notin> set s" if v: "is_value s"
  proof
    assume "0x0A \<in> set s"
    with v have "(0x0A :: byte) = 0x09 \<or> (0x20 :: byte) \<le> 0x0A" by (auto simp: is_value_def list_all_iff)
    then show False by simp
  qed
  then show "0x0A \<notin> set s" if "is_token s" using that visibleD [OF visible_token] by blast
  show "0x0A \<notin> set s" if "valid_target s"
  proof
    assume "0x0A \<in> set s"
    with visible_target [OF that] have "(0x20 :: byte) < 0x0A" by (auto simp: visible_def)
    then show False by simp
  qed
qed

lemma join_no_newline: "\<forall>p \<in> set ps. is_token p \<Longrightarrow> 0x0A \<notin> set (join (str '','') ps)"
  by (induction "str '',''" ps rule: join.induct) (auto simp: str_def dest: no_newline(1))

text \<open>
  The application sees the request that arrived: the packed form of every request that the server
  shows can be taken apart again into its path, address, subprotocols and headers, since none of them
  can hold a separator; all it takes is that addresses print without newlines.
\<close>

lemma pack_unpack:
  assumes asked: "handshake_head sid peer_addr secured head n slot ev = (Inr (r, rest, req), ev')"
    and addr: "0x0A \<notin> set (ip (up_addr req))" "0x0A \<notin> set (port (up_addr req))"
  shows "\<exists>names hs. split_str [0x0A] (pack ip port req) =
      [up_path req, ip (up_addr req), port (up_addr req), names] @ hs @ [[]] \<and>
    (if up_protocols req = [] then names = [] else split_str (str '','') names = up_protocols req) \<and>
    map (split_once (str '':'')) hs = map Some (up_headers req)"
proof -
  have req: "up_path req = req_target r" "up_protocols req = req_protocols r" "up_headers req = req_headers r"
    and adm: "admissible r"
    using handshake_head_cases [OF asked] request_admissible by auto
  have ps: "\<forall>p \<in> set (up_protocols req). is_token p" and hs: "\<forall>(k, v) \<in> set (up_headers req). is_token k \<and> is_value v"
    using adm req by (auto simp: admissible_def list_all_iff header_ok_def)
  have "valid_target (up_path req)" using adm req by (simp add: admissible_def)
  moreover have "0x0A \<notin> set (str '':'')" by (simp add: str_def)
  ultimately have "\<forall>l \<in> set (packed_lines ip port req). 0x0A \<notin> set l"
    using hs addr join_no_newline [OF ps] by (auto simp: packed_lines_def dest: no_newline)
  from split_terminated [OF this]
  have "split_str [0x0A] (pack ip port req) = packed_lines ip port req @ [[]]" by (simp add: pack_lines)
  moreover have comma: "split_str (str '','') (join (str '','') (up_protocols req)) = up_protocols req" if "up_protocols req \<noteq> []"
    using that ps is_token_chars(3) by (auto simp: str_def intro!: split_str_join)
  moreover have "map (split_once (str '':'')) (map (\<lambda>(k, v). k @ str '':'' @ v) (up_headers req)) = map Some (up_headers req)"
  proof -
    have "split_once (str '':'') (k @ str '':'' @ v) = Some (k, v)" if "(k, v) \<in> set (up_headers req)" for k v
      using that hs is_token_chars(1) by (auto simp: str_def intro!: split_once_single)
    then show ?thesis by auto
  qed
  ultimately show ?thesis
    by (intro exI [of _ "join (str '','') (up_protocols req)"]
        exI [of _ "map (\<lambda>(k, v). k @ str '':'' @ v) (up_headers req)"]) (auto simp: packed_lines_def)
qed

subsection \<open>Shutting down\<close>

text \<open>
  What the registry keeps to: every handle has an owner, which is a live hub, except that a connection whose
  number is in \<open>D\<close> may have none; every undecided upgrade has a live hub too; and no number is both a
  connection and a server.
\<close>

definition registry_ok :: "id set \<Rightarrow> native \<Rightarrow> bool" where
  "registry_ok D nt \<longleftrightarrow>
     dom (nt_owners nt) \<union> (D \<inter> nt_conns nt) = nt_conns nt \<union> nt_servers nt \<and> nt_conns nt \<inter> nt_servers nt = {} \<and>
     ran (nt_owners nt) \<subseteq> dom (nt_hubs nt) \<and> fst ` ran (nt_replies nt) \<subseteq> dom (nt_hubs nt)"

lemma hub_drop_keeps_closed: "link_state (links i) = Closed \<Longrightarrow> link_state (snd (hub_drop mine h links) i) = Closed"
  by (simp add: hub_drop_def Let_def hub_drain_keeps)

lemma server_close_stops: "sh_stop (snd (server_close s))"
  by (simp add: server_close_def signal_set_def split: prod.splits)

lemma ws_shutdown_registry:
  "nt_conns (ws_shutdown h nt) = {i \<in> nt_conns nt. nt_owners nt i \<noteq> Some h}"
  "nt_servers (ws_shutdown h nt) = {i \<in> nt_servers nt. nt_owners nt i \<noteq> Some h}"
  "nt_owners (ws_shutdown h nt) = (\<lambda>i. if nt_owners nt i = Some h then None else nt_owners nt i)"
  "nt_hubs (ws_shutdown h nt) = (nt_hubs nt)(h := None)"
  "nt_replies (ws_shutdown h nt) =
     (\<lambda>t. case nt_replies nt t of None \<Rightarrow> None | Some (h', tx) \<Rightarrow> if h' = h then None else Some (h', tx))"
  by (auto simp: ws_shutdown_def Let_def split: option.splits)

lemma ws_shutdown_owned:
  assumes "nt_owners nt i = Some h"
  shows "i \<in> nt_conns nt \<Longrightarrow> link_state (nt_links (ws_shutdown h nt) i) = Closed"
    and "i \<in> nt_servers nt \<Longrightarrow> sh_stop (snd (nt_listeners (ws_shutdown h nt) i))"
  using assms
  by (auto simp: ws_shutdown_def Let_def server_close_stops intro: hub_drop_keeps_closed split: option.splits)

lemma ws_shutdown_other:
  assumes "nt_owners nt i \<noteq> Some h"
  shows "nt_listeners (ws_shutdown h nt) i = nt_listeners nt i"
    and "\<lbrakk>nt_home nt i \<noteq> h;
      \<And>hb sid req. nt_hubs nt h = Some hb \<Longrightarrow> EvConnection sid i req \<notin> qd_event ` set (hb_queue hb)\<rbrakk>
      \<Longrightarrow> nt_links (ws_shutdown h nt) i = nt_links nt i"
  using assms
  by (auto simp: ws_shutdown_def Let_def hub_drop_def hub_drain_other split: option.splits)

lemma ws_shutdown_ok:
  assumes "registry_ok D nt"
  shows "registry_ok D (ws_shutdown h nt)"
proof -
  have "dom (nt_owners (ws_shutdown h nt)) \<union> (D \<inter> nt_conns (ws_shutdown h nt)) = nt_conns (ws_shutdown h nt) \<union> nt_servers (ws_shutdown h nt)"
    using assms unfolding ws_shutdown_registry registry_ok_def dom_def by auto
  moreover have "ran (nt_owners (ws_shutdown h nt)) \<subseteq> dom (nt_hubs (ws_shutdown h nt))"
    using assms unfolding ws_shutdown_registry registry_ok_def ran_def by (auto split: if_splits)
  moreover have "fst ` ran (nt_replies (ws_shutdown h nt)) \<subseteq> dom (nt_hubs (ws_shutdown h nt))"
  proof
    fix x
    assume "x \<in> fst ` ran (nt_replies (ws_shutdown h nt))"
    then obtain t tx where "nt_replies (ws_shutdown h nt) t = Some (x, tx)" by (auto simp: ran_def)
    then have "nt_replies nt t = Some (x, tx)" "x \<noteq> h"
      by (auto simp: ws_shutdown_registry split: option.splits if_splits)
    then have "x \<in> fst ` ran (nt_replies nt)" by (force simp: ran_def)
    with assms \<open>x \<noteq> h\<close> show "x \<in> dom (nt_hubs (ws_shutdown h nt))"
      unfolding ws_shutdown_registry registry_ok_def by auto
  qed
  moreover have "nt_conns (ws_shutdown h nt) \<inter> nt_servers (ws_shutdown h nt) = {}"
    using assms unfolding ws_shutdown_registry registry_ok_def by auto
  ultimately show ?thesis by (simp add: registry_ok_def)
qed

text \<open>
  C31: Shutting a hub down leaves nothing of it behind and touches nothing else: its connections
  are closed and its listeners stopped, no handle and no undecided upgrade of it stays in the registry, the
  registry is consistent; and the other hubs, their handles, owners, listeners and undecided upgrades are as they
  were, and so are their connections, but for one whose arrival was still queued at the hub.
\<close>

theorem ws_shutdown_complete:
  assumes "registry_ok D nt"
  shows "registry_ok D (ws_shutdown h nt) \<and> nt_hubs (ws_shutdown h nt) h = None \<and>
    (\<forall>i. nt_owners (ws_shutdown h nt) i \<noteq> Some h) \<and> (\<forall>t tx. nt_replies (ws_shutdown h nt) t \<noteq> Some (h, tx)) \<and>
    (\<forall>i. nt_owners nt i = Some h \<longrightarrow> ws_state i (ws_shutdown h nt) = 3 \<and>
       (i \<in> nt_conns nt \<longrightarrow> link_state (nt_links (ws_shutdown h nt) i) = Closed) \<and>
       (i \<in> nt_servers nt \<longrightarrow> i \<notin> nt_servers (ws_shutdown h nt) \<and> sh_stop (snd (nt_listeners (ws_shutdown h nt) i)))) \<and>
    (\<forall>h'. h' \<noteq> h \<longrightarrow> nt_hubs (ws_shutdown h nt) h' = nt_hubs nt h' \<and>
       (\<forall>t tx. nt_replies (ws_shutdown h nt) t = Some (h', tx) \<longleftrightarrow> nt_replies nt t = Some (h', tx))) \<and>
    (\<forall>i. nt_owners nt i \<noteq> Some h \<longrightarrow> nt_owners (ws_shutdown h nt) i = nt_owners nt i \<and>
       (i \<in> nt_conns (ws_shutdown h nt) \<longleftrightarrow> i \<in> nt_conns nt) \<and> (i \<in> nt_servers (ws_shutdown h nt) \<longleftrightarrow> i \<in> nt_servers nt) \<and>
       nt_listeners (ws_shutdown h nt) i = nt_listeners nt i \<and>
       (nt_home nt i \<noteq> h \<and> (\<forall>hb sid req. nt_hubs nt h = Some hb \<longrightarrow> EvConnection sid i req \<notin> qd_event ` set (hb_queue hb))
          \<longrightarrow> nt_links (ws_shutdown h nt) i = nt_links nt i))"
proof -
  have gone: "ws_state i (ws_shutdown h nt) = 3" if "nt_owners nt i = Some h" for i
    using that by (simp add: ws_state_def ws_shutdown_registry)
  have "\<forall>t tx. nt_replies (ws_shutdown h nt) t \<noteq> Some (h, tx)"
    by (auto simp: ws_shutdown_registry split: option.splits)
  moreover have "\<forall>h'. h' \<noteq> h \<longrightarrow> nt_hubs (ws_shutdown h nt) h' = nt_hubs nt h' \<and>
      (\<forall>t tx. nt_replies (ws_shutdown h nt) t = Some (h', tx) \<longleftrightarrow> nt_replies nt t = Some (h', tx))"
    by (auto simp: ws_shutdown_registry split: option.splits)
  ultimately show ?thesis
    using ws_shutdown_ok [OF assms] gone ws_shutdown_owned [of nt _ h] ws_shutdown_other [of nt _ h]
    by (simp add: ws_shutdown_registry)
qed

theorem ws_shutdown_complete_witness:
  "link_state (nt_links demo_native 7) = Open \<and> ws_state 7 (ws_shutdown 1 demo_native) = 3 \<and>
   link_state (nt_links (ws_shutdown 1 demo_native) 7) = Closed \<and>
   nt_links (ws_shutdown 1 demo_native) 8 = nt_links demo_native 8 \<and> 8 \<in> nt_conns (ws_shutdown 1 demo_native)"
proof -
  have ok: "registry_ok {} demo_native" by (auto simp: registry_ok_def demo_native_def ran_def)
  have 7: "nt_owners demo_native 7 = Some 1" "7 \<in> nt_conns demo_native"
    and 8: "nt_owners demo_native 8 \<noteq> Some 1" "8 \<in> nt_conns demo_native" "nt_home demo_native 8 \<noteq> 1"
      "\<forall>hb sid req. nt_hubs demo_native 1 = Some hb \<longrightarrow> EvConnection sid 8 req \<notin> qd_event ` set (hb_queue hb)"
    by (simp_all add: demo_native_def hub_default_def)
  have "link_state (nt_links demo_native 7) = Open" by (simp add: demo_native_def ws_eval)
  with ws_shutdown_complete [OF ok, of 1] 7 8 show ?thesis by blast
qed

subsection \<open>The registry under every call\<close>

text \<open>
  Everything that can change the registry's state: the calls of the interface, an event that
  arrives at a hub, and the tasks of connections and listeners, which draw numbers and change the shared
  objects.  \<open>D\<close> holds the numbers of those connections that the caller passes to \<open>ws_unlisten\<close>, which is meant for
  servers.  The counter of numbers, 64 bits wide, does not run out, and the tasks report connections under
  numbers that they have drawn and that are not those of servers.
\<close>

fun conn_of :: "event \<Rightarrow> id option" where
  "conn_of (EvConnection _ i _) = Some i"
| "conn_of (EvClose i _ _) = Some i"
| "conn_of _ = None"

inductive native_step :: "id set \<Rightarrow> native \<Rightarrow> native \<Rightarrow> bool" for D where
  call_hub: "native_step D nt (snd (ws_hub nt))"
| call_shutdown: "native_step D nt (ws_shutdown h nt)"
| call_connect: "nt_counter nt < usize_max \<Longrightarrow>
    native_step D nt (snd (ws_connect tls_client roots server_name runtime now token rnd nanos
      h url protocols headers ca timeout maxi buffer beat nt))"
| call_listen: "nt_counter nt < usize_max \<Longrightarrow>
    native_step D nt (snd (ws_listen tls_server runtime bound nonblocking local_addr from_std to_string nanos
      h host port cert key maxi buffer limit beat nt))"
| call_send: "native_step D nt (snd (ws_send i data binary nt))"
| call_ping: "native_step D nt (snd (ws_ping i data nt))"
| call_close: "native_step D nt (snd (ws_close now i code why nt))"
| call_terminate: "native_step D nt (ws_terminate i nt)"
| call_error: "native_step D nt (snd (ws_error nt))"
| call_unlisten: "i \<notin> nt_conns nt \<or> i \<in> D \<Longrightarrow> native_step D nt (ws_unlisten i nt)"
| call_reply: "native_step D nt (snd (ws_reply t status protocol nt))"
| call_wait: "ws_wait ip port nanos h timeout nt = Some (res, ev, nt') \<Longrightarrow> native_step D nt nt'"
| arrives: "\<lbrakk>nt_hubs nt h = Some hb; \<And>i. conn_of (qd_event q) = Some i \<Longrightarrow> i < nt_counter nt \<and> i \<notin> nt_servers nt\<rbrakk> \<Longrightarrow>
    native_step D nt (nt\<lparr>nt_hubs := (nt_hubs nt)(h \<mapsto> hb\<lparr>hb_queue := hb_queue hb @ [q]\<rparr>)\<rparr>)"
| tasks: "nt_counter nt \<le> n \<Longrightarrow>
    native_step D nt (nt\<lparr>nt_counter := n, nt_links := links, nt_home := home, nt_listeners := listeners\<rparr>)"

definition native_inv :: "id set \<Rightarrow> native \<Rightarrow> bool" where
  "native_inv D nt \<longleftrightarrow> registry_ok D nt \<and> (\<forall>i \<in> nt_conns nt \<union> nt_servers nt. i < nt_counter nt) \<and>
     (\<forall>h hb q i. nt_hubs nt h = Some hb \<and> q \<in> set (hb_queue hb) \<and> conn_of (qd_event q) = Some i \<longrightarrow>
        i < nt_counter nt \<and> i \<notin> nt_servers nt)"

lemma native_inv_queued:
  "\<lbrakk>native_inv D nt; nt_hubs nt h = Some hb; q \<in> set (hb_queue hb); conn_of (qd_event q) = Some i\<rbrakk>
    \<Longrightarrow> i < nt_counter nt \<and> i \<notin> nt_servers nt"
  unfolding native_inv_def by blast

lemma queue_inv:
  assumes inv: "native_inv D nt"
    and qs: "\<And>q i. \<lbrakk>q \<in> set qs; conn_of (qd_event q) = Some i\<rbrakk> \<Longrightarrow> i < nt_counter nt \<and> i \<notin> nt_servers nt"
  shows "native_inv D (nt\<lparr>nt_hubs := (nt_hubs nt)(h \<mapsto> hb\<lparr>hb_queue := qs\<rparr>)\<rparr>)" (is "native_inv D ?nt")
  unfolding native_inv_def
proof (intro conjI allI impI)
  show "registry_ok D ?nt" "\<forall>i \<in> nt_conns ?nt \<union> nt_servers ?nt. i < nt_counter ?nt"
    using inv by (auto simp: native_inv_def registry_ok_def)
  fix k hb' q i
  assume q: "nt_hubs ?nt k = Some hb' \<and> q \<in> set (hb_queue hb') \<and> conn_of (qd_event q) = Some i"
  have "i < nt_counter nt \<and> i \<notin> nt_servers nt"
  proof (cases "k = h")
    case True
    with q qs show ?thesis by auto
  next
    case False
    with q native_inv_queued [OF inv] show ?thesis by auto
  qed
  then show "i < nt_counter ?nt" "i \<notin> nt_servers ?nt" by simp_all
qed

definition same_registry :: "native \<Rightarrow> native \<Rightarrow> bool" where
  "same_registry nt nt' \<longleftrightarrow>
     nt_hubs nt' = nt_hubs nt \<and> nt_conns nt' = nt_conns nt \<and> nt_servers nt' = nt_servers nt \<and>
     nt_owners nt' = nt_owners nt \<and> nt_replies nt' = nt_replies nt \<and> nt_counter nt' = nt_counter nt"

lemma same_registry_inv: "\<lbrakk>same_registry nt nt'; native_inv D nt\<rbrakk> \<Longrightarrow> native_inv D nt'"
  by (simp add: same_registry_def native_inv_def registry_ok_def)

lemma same_registry_refl [simp]: "same_registry nt nt"
  by (simp add: same_registry_def)

lemma same_registry_trans: "\<lbrakk>same_registry nt nt'; same_registry nt' nt''\<rbrakk> \<Longrightarrow> same_registry nt nt''"
  by (simp add: same_registry_def)

text \<open>The calls on a connection and the reading of options leave the registry alone.\<close>

lemma raise_error_same: "same_registry nt (snd (raise_error s m nt))"
  by (simp add: raise_error_def ffi_fail_def same_registry_def)

lemma ws_text_same: "same_registry nt (snd (ws_text s what nt))"
  by (cases rule: ws_text_cases [of s what nt]) (simp_all add: same_registry_def)

lemma ffi_lines_same: "same_registry nt (snd (ffi_lines s what nt))"
  by (cases rule: ws_text_cases [of s what nt]) (simp_all add: ffi_lines_def attempt_def same_registry_def)

lemma header_lines_same: "same_registry nt (snd (header_lines ls hs nt))"
  by (induction ls hs nt rule: header_lines.induct) (auto simp: raise_error_same split: option.splits)

lemma with_conn_same: "same_registry nt (snd (with_conn i f nt))"
  by (auto simp: with_conn_def sent_def ffi_fail_def same_registry_def split: prod.splits sum.splits)

lemma conn_calls_same:
  "same_registry nt (snd (ws_send i data binary nt))" "same_registry nt (snd (ws_ping i data nt))"
  "same_registry nt (ws_terminate i nt)" "same_registry nt (snd (ws_error nt))"
  using with_conn_same
  by (auto simp: ws_send_def ws_ping_def ws_terminate_def ws_error_def ffi_fail_def Let_def same_registry_def split: sum.splits)

lemma ws_close_same: "same_registry nt (snd (ws_close now i code why nt))"
  by (cases rule: ws_text_cases [of why "str ''close reason''" nt])
    (auto simp: ws_close_def ffi_fail_def conn_close_def same_registry_def Let_def)

lemma attempt_inv:
  assumes "native_inv D nt" "same_registry nt n0" "same_registry n0 (snd r)"
    and "\<And>x n. \<lbrakk>r = (Ok x, n); same_registry nt n\<rbrakk> \<Longrightarrow> native_inv D (snd (f x n))"
  shows "native_inv D (snd (attempt r f))"
proof (cases r)
  case (Pair res n)
  with assms(2,3) have n: "same_registry nt n" by (auto intro: same_registry_trans)
  show ?thesis
  proof (cases res)
    case (Inl e)
    with Pair same_registry_inv [OF n assms(1)] show ?thesis by (simp add: attempt_def)
  next
    case (Inr x)
    with Pair assms(4) n show ?thesis by (simp add: attempt_def)
  qed
qed

text \<open>Adding a handle with a fresh number for a live hub.\<close>

lemma fresh_handle:
  assumes inv: "native_inv D nt" and h: "h \<in> dom (nt_hubs nt)" and c: "nt_counter nt = i" "nt_counter nt' = Suc i"
    and same: "nt_hubs nt' = nt_hubs nt" "nt_replies nt' = nt_replies nt" "nt_owners nt' = (nt_owners nt)(i \<mapsto> h)"
    and add: "nt_conns nt' = insert i (nt_conns nt) \<and> nt_servers nt' = nt_servers nt \<or>
      nt_conns nt' = nt_conns nt \<and> nt_servers nt' = insert i (nt_servers nt)"
  shows "native_inv D nt'"
proof -
  have fresh: "i \<notin> nt_conns nt" "i \<notin> nt_servers nt" using inv c(1) by (auto simp: native_inv_def)
  have "nt_owners nt i = None" using inv fresh by (auto simp: native_inv_def registry_ok_def)
  then have "ran (nt_owners nt') = insert h (ran (nt_owners nt))" by (simp add: same(3))
  moreover have "dom (nt_owners nt') \<union> (D \<inter> nt_conns nt') = nt_conns nt' \<union> nt_servers nt'" "nt_conns nt' \<inter> nt_servers nt' = {}"
    using inv same(3) add fresh by (auto simp: native_inv_def registry_ok_def)
  ultimately have "registry_ok D nt'" using inv h same(1,2) by (auto simp: native_inv_def registry_ok_def)
  moreover have "\<forall>j \<in> nt_conns nt' \<union> nt_servers nt'. j < nt_counter nt'"
  proof -
    have "\<forall>j \<in> nt_conns nt \<union> nt_servers nt. j < i" using inv c(1) by (simp add: native_inv_def)
    with add c(2) show ?thesis by (auto intro: less_SucI)
  qed
  moreover have "j < nt_counter nt' \<and> j \<notin> nt_servers nt'"
    if "nt_hubs nt' k = Some hb" "q \<in> set (hb_queue hb)" "conn_of (qd_event q) = Some j" for k hb q j
  proof -
    have "j < nt_counter nt" "j \<notin> nt_servers nt" using inv that same(1) by (auto simp: native_inv_def)
    with c add show ?thesis by auto
  qed
  ultimately show ?thesis unfolding native_inv_def by blast
qed

lemma next_id_fresh: "c < usize_max \<Longrightarrow> next_id c = (c, Suc c)"
  by (simp add: next_id_def wrapping_add_def usize_max_def usize_modulus_def)

lemma ws_connect_inv:
  assumes inv: "native_inv D nt" and c: "nt_counter nt < usize_max"
  shows "native_inv D (snd (ws_connect tls_client roots server_name runtime now token rnd nanos
    h url protocols headers ca timeout maxi buffer beat nt))"
proof -
  have added: "native_inv D (snd (case hub_connect roots server_name runtime now tx token rnd u opts (nt_counter n) of
          (Err e, counter) \<Rightarrow> raise_error FATAL e (n\<lparr>nt_counter := counter\<rparr>)
        | (Ok (_, _, l), counter) \<Rightarrow>
            (Ok (lk_id l),
             n\<lparr>nt_counter := counter, nt_links := (nt_links n)(lk_id l := l), nt_home := (nt_home n)(lk_id l := h),
                nt_conns := insert (lk_id l) (nt_conns n), nt_owners := (nt_owners n)(lk_id l \<mapsto> h)\<rparr>)))"
    if n: "same_registry nt n" and h: "h \<in> dom (nt_hubs nt)" for n tx u opts
  proof -
    have ninv: "native_inv D n" by (rule same_registry_inv [OF n inv])
    have nid: "next_id (nt_counter n) = (nt_counter n, Suc (nt_counter n))"
      using n c by (simp add: next_id_fresh same_registry_def)
    show ?thesis
    proof (cases "connect roots server_name runtime now tx (nt_counter n) token rnd u opts")
      case (Inl e)
      have "native_inv D (n\<lparr>nt_counter := Suc (nt_counter n), nt_error := e\<rparr>)"
        using ninv by (auto simp: native_inv_def registry_ok_def less_SucI)
      with Inl show ?thesis by (simp add: hub_connect_def nid raise_error_def ffi_fail_def)
    next
      case (Inr x)
      obtain a b l where x: "x = (a, b, l)" by (cases x)
      then have i: "lk_id l = nt_counter n"
        using Inr by (auto simp: connect_def link_new_def Let_def split: sum.splits prod.splits)
      have "h \<in> dom (nt_hubs n)" using h n by (simp add: same_registry_def)
      with Inr x i show ?thesis
        by (auto simp: hub_connect_def nid intro!: fresh_handle [OF ninv, of h "nt_counter n"])
    qed
  qed
  show ?thesis
  proof (cases "nt_hubs nt h")
    case None
    have "native_inv D (snd (raise_error FATAL (str ''unknown hub'') nt))" using raise_error_same inv by (rule same_registry_inv)
    with None show ?thesis by (simp add: ws_connect_def ffi_hub_def attempt_def raise_error_def ffi_fail_def)
  next
    case (Some hb)
    then have h: "h \<in> dom (nt_hubs nt)" by blast
    have tls: "same_registry n (snd (case c of None \<Rightarrow> (Ok None, n)
        | Some d \<Rightarrow> (case tls_client d of Err e \<Rightarrow> raise_error FATAL e n | Ok k \<Rightarrow> (Ok (Some k), n))))" for c n
      by (simp add: raise_error_same split: option.splits sum.splits)
    show ?thesis
      unfolding ws_connect_def Let_def ffi_hub_def Some option.case
      by (rule attempt_inv [OF inv same_registry_refl], simp,
          (rule attempt_inv [OF inv], assumption, rule ws_text_same ffi_lines_same header_lines_same tls)+, rule added [OF _ h])
  qed
qed

lemma ws_listen_inv:
  assumes inv: "native_inv D nt" and c: "nt_counter nt < usize_max"
  shows "native_inv D (snd (ws_listen tls_server runtime bound nonblocking local_addr from_std to_string nanos
    h host port cert key maxi buffer limit beat nt))"
proof -
  have added: "native_inv D (snd (case hub_listen runtime bound nonblocking local_addr from_std tx opts (nt_counter n) of
          (Err e, counter) \<Rightarrow> raise_error SOFT (to_string e) (n\<lparr>nt_counter := counter\<rparr>)
        | (Ok (sv, sh), counter) \<Rightarrow>
            (Ok (sv_id sv),
             n\<lparr>nt_counter := counter, nt_listeners := (nt_listeners n)(sv_id sv := (sv, sh)),
                nt_servers := insert (sv_id sv) (nt_servers n), nt_owners := (nt_owners n)(sv_id sv \<mapsto> h)\<rparr>)))"
    if n: "same_registry nt n" and h: "h \<in> dom (nt_hubs nt)" for n tx opts
  proof -
    have ninv: "native_inv D n" by (rule same_registry_inv [OF n inv])
    have nid: "next_id (nt_counter n) = (nt_counter n, Suc (nt_counter n))"
      using n c by (simp add: next_id_fresh same_registry_def)
    show ?thesis
    proof (cases "listen runtime bound nonblocking local_addr from_std tx (nt_counter n) opts")
      case (Inl e)
      have "native_inv D (n\<lparr>nt_counter := Suc (nt_counter n), nt_error := to_string e\<rparr>)"
        using ninv by (auto simp: native_inv_def registry_ok_def less_SucI)
      with Inl show ?thesis by (simp add: hub_listen_def nid raise_error_def ffi_fail_def)
    next
      case (Inr x)
      obtain sv sh where x: "x = (sv, sh)" by (cases x)
      then have i: "sv_id sv = nt_counter n"
        using Inr unfolding listen_def guards by (elim exE conjE) auto
      have "h \<in> dom (nt_hubs n)" using h n by (simp add: same_registry_def)
      with Inr x i show ?thesis
        by (auto simp: hub_listen_def nid intro!: fresh_handle [OF ninv, of h "nt_counter n"])
    qed
  qed
  show ?thesis
  proof (cases "nt_hubs nt h")
    case None
    have "native_inv D (snd (raise_error FATAL (str ''unknown hub'') nt))" using raise_error_same inv by (rule same_registry_inv)
    with None show ?thesis by (simp add: ws_listen_def ffi_hub_def attempt_def raise_error_def ffi_fail_def)
  next
    case (Some hb)
    then have h: "h \<in> dom (nt_hubs nt)" by blast
    have lim: "same_registry n (snd (if 0 < k then if k \<le> usize_max then (Ok k, n)
        else raise_error FATAL m n else (Ok k', n)))" for k k' m n
      by (simp add: raise_error_same)
    have tls: "same_registry n (snd (case (ce, ke) of
        (Some ce, Some ke) \<Rightarrow> (case tls_server ce ke of Err e \<Rightarrow> raise_error FATAL e n | Ok k \<Rightarrow> (Ok (Some k), n))
      | (None, None) \<Rightarrow> (Ok None, n) | _ \<Rightarrow> raise_error FATAL m n))" for ce ke m n
      by (simp add: raise_error_same split: option.splits sum.splits)
    show ?thesis
      unfolding ws_listen_def Let_def ffi_hub_def Some option.case
      by (rule attempt_inv [OF inv same_registry_refl], simp,
          (rule attempt_inv [OF inv], assumption, rule ws_text_same lim tls)+, rule added [OF _ h])
  qed
qed

lemma shutdown_inv:
  assumes "native_inv D nt"
  shows "native_inv D (ws_shutdown h nt)"
proof -
  have "nt_counter (ws_shutdown h nt) = nt_counter nt" by (simp add: ws_shutdown_def Let_def split: option.splits)
  with assms ws_shutdown_ok [of D nt h] show ?thesis
    unfolding native_inv_def ws_shutdown_registry by (auto split: if_splits)
qed

lemma flatten_inv:
  assumes inv: "native_inv D nt" and h: "h \<in> dom (nt_hubs nt)"
    and e: "\<And>i. conn_of e = Some i \<Longrightarrow> i < nt_counter nt \<and> i \<notin> nt_servers nt"
  shows "native_inv D (snd (flatten ip port h e nt))"
proof (cases e)
  case (EvClose i code why)
  with e have "i \<notin> nt_servers nt" by simp
  with inv EvClose show ?thesis
    by (auto simp: native_inv_def registry_ok_def ran_def split: if_splits)
next
  case (EvConnection sid i req)
  with e have "i \<notin> nt_servers nt" "i < nt_counter nt" by simp_all
  with inv h EvConnection show ?thesis
    by (auto simp: native_inv_def registry_ok_def ran_def split: if_splits)
next
  case (EvRequest sid req tx)
  have "ran ((nt_replies nt)(t \<mapsto> (h, tx))) \<subseteq> insert (h, tx) (ran (nt_replies nt))" for t
    by (auto simp: ran_def split: if_splits)
  then have "fst ` ran ((nt_replies nt)(t \<mapsto> (h, tx))) \<subseteq> insert h (fst ` ran (nt_replies nt))" for t
    using image_mono [of _ "insert (h, tx) (ran (nt_replies nt))" fst] by simp
  moreover have "fst ` ran (nt_replies nt) \<subseteq> dom (nt_hubs nt)" using inv by (simp add: native_inv_def registry_ok_def)
  ultimately have "fst ` ran ((nt_replies nt)(t \<mapsto> (h, tx))) \<subseteq> dom (nt_hubs nt)" for t using h by blast
  then show ?thesis using inv EvRequest
    by (simp add: native_inv_def registry_ok_def registry_token_def Let_def del: ran_map_upd)
qed (use inv in \<open>auto simp: native_inv_def registry_ok_def take_data_def\<close>)

lemma wait_inv:
  assumes wait: "ws_wait ip port nanos h timeout nt = Some (res, ev, nt')" and "native_inv D nt"
  shows "native_inv D nt'"
proof (cases "nt_hubs nt h")
  case None
  have "native_inv D (nt\<lparr>nt_error := str ''unknown hub''\<rparr>)" by (rule same_registry_inv [OF _ assms(2)]) (simp add: same_registry_def)
  with None wait show ?thesis by (auto simp: ws_wait_def ffi_fail_def)
next
  case (Some hb)
  show ?thesis
  proof (cases "hb_queue hb")
    case Nil
    with Some assms show ?thesis by (auto simp: ws_wait_def hub_recv_def split: if_splits)
  next
    case (Cons q qs)
    let ?nt = "nt\<lparr>nt_hubs := (nt_hubs nt)(h \<mapsto> hb\<lparr>hb_queue := qs\<rparr>)\<rparr>"
    have "native_inv D ?nt" using native_inv_queued [OF assms(2) Some] Cons by (intro queue_inv [OF assms(2)]) auto
    moreover have "i < nt_counter ?nt \<and> i \<notin> nt_servers ?nt" if "conn_of (qd_event q) = Some i" for i
      using that native_inv_queued [OF assms(2) Some, of q i] Cons by simp
    ultimately have "native_inv D (snd (flatten ip port h (qd_event q) ?nt))" by (intro flatten_inv) auto
    with Some Cons wait show ?thesis by (auto simp: ws_wait_def hub_recv_def split: prod.splits)
  qed
qed

lemma reply_inv:
  assumes "native_inv D nt"
  shows "native_inv D (snd (ws_reply t status protocol nt))"
proof (cases "nt_replies nt t")
  case (Some x)
  let ?nt = "nt\<lparr>nt_replies := (nt_replies nt)(t := None)\<rparr>"
  have "ran ((nt_replies nt)(t := None)) \<subseteq> ran (nt_replies nt)" by (auto simp: ran_def)
  then have "fst ` ran ((nt_replies nt)(t := None)) \<subseteq> fst ` ran (nt_replies nt)" by (rule image_mono)
  moreover have "fst ` ran (nt_replies nt) \<subseteq> dom (nt_hubs nt)" using assms by (simp add: native_inv_def registry_ok_def)
  ultimately have "fst ` ran ((nt_replies nt)(t := None)) \<subseteq> dom (nt_hubs nt)" by (rule subset_trans)
  then have "native_inv D ?nt" using assms by (simp add: native_inv_def registry_ok_def)
  moreover have "same_registry ?nt (snd (ws_reply t status protocol nt))"
    using Some by (cases rule: ws_text_cases [of protocol "str ''protocol''" ?nt])
      (auto simp: ws_reply_def Let_def ffi_fail_def same_registry_def split: prod.splits)
  ultimately show ?thesis by (blast intro: same_registry_inv)
qed (use assms in \<open>simp add: ws_reply_def\<close>)

lemma native_step_inv: "\<lbrakk>native_step D nt nt'; native_inv D nt\<rbrakk> \<Longrightarrow> native_inv D nt'"
proof (induction rule: native_step.induct)
  case (call_hub nt)
  then show ?case
    by (auto simp: ws_hub_def registry_token_def Let_def native_inv_def registry_ok_def hub_default_def)
next
  case (call_unlisten i nt)
  then have "registry_ok D (ws_unlisten i nt)"
    by (auto simp: native_inv_def registry_ok_def ws_unlisten_def Let_def ran_def split: if_splits)
  with call_unlisten show ?case by (auto simp: native_inv_def ws_unlisten_def Let_def split: if_splits)
next
  case (arrives nt h hb q)
  show ?case
    using arrives(2) native_inv_queued [OF arrives(3,1)] by (intro queue_inv [OF arrives(3)]) auto
next
  case (tasks nt n listeners home links)
  let ?nt = "nt\<lparr>nt_counter := n, nt_links := links, nt_home := home, nt_listeners := listeners\<rparr>"
  have "registry_ok D ?nt" using tasks(2) by (simp add: native_inv_def registry_ok_def)
  moreover have "\<forall>i \<in> nt_conns nt \<union> nt_servers nt. i < n"
    using tasks order_less_le_trans unfolding native_inv_def by metis
  moreover have "i < n \<and> i \<notin> nt_servers nt"
    if "nt_hubs nt h = Some hb" "q \<in> set (hb_queue hb)" "conn_of (qd_event q) = Some i" for h hb q i
    using native_inv_queued [OF tasks(2) that] tasks(1) by simp
  ultimately show ?case unfolding native_inv_def by (simp, blast)
qed (rule shutdown_inv ws_connect_inv ws_listen_inv wait_inv reply_inv same_registry_inv [OF conn_calls_same(1)]
    same_registry_inv [OF conn_calls_same(2)] same_registry_inv [OF conn_calls_same(3)] same_registry_inv [OF conn_calls_same(4)]
    same_registry_inv [OF ws_close_same], assumption+)+

lemma native_steps_inv: "\<lbrakk>(native_step D)\<^sup>*\<^sup>* nt nt'; native_inv D nt\<rbrakk> \<Longrightarrow> native_inv D nt'"
  by (induction rule: rtranclp_induct) (auto intro: native_step_inv)

lemma shutdown_all:
  assumes "registry_ok D nt" "dom (nt_hubs nt) \<subseteq> set hs"
  shows "registry_ok D (fold ws_shutdown hs nt) \<and> nt_hubs (fold ws_shutdown hs nt) = Map.empty"
  using assms
proof (induction hs arbitrary: nt)
  case (Cons h hs)
  have "dom (nt_hubs (ws_shutdown h nt)) \<subseteq> set hs" using Cons.prems(2) by (auto simp: ws_shutdown_registry)
  with Cons.IH [OF ws_shutdown_ok [OF Cons.prems(1)]] show ?case by simp
qed simp

lemma ran_empty_iff: "ran m = {} \<longleftrightarrow> m = Map.empty"
proof
  assume "ran m = {}"
  then have "m k = None" for k by (cases "m k") (auto simp: ran_def)
  then show "m = Map.empty" by (simp add: fun_eq_iff)
qed simp

lemma registry_ok_empty:
  assumes "registry_ok D nt" "nt_hubs nt = Map.empty"
  shows "nt_conns nt \<subseteq> D \<and> nt_servers nt = {} \<and> nt_owners nt = Map.empty \<and> nt_replies nt = Map.empty"
proof -
  have "ran (nt_owners nt) = {}" "ran (nt_replies nt) = {}" using assms by (auto simp: registry_ok_def)
  then have e: "nt_owners nt = Map.empty" "nt_replies nt = Map.empty" by (simp_all add: ran_empty_iff)
  have "D \<inter> nt_conns nt = nt_conns nt \<union> nt_servers nt" "nt_conns nt \<inter> nt_servers nt = {}"
    using assms(1) e(1) by (simp_all add: registry_ok_def)
  then have "nt_conns nt \<subseteq> D" "nt_servers nt = {}" by blast+
  with e show ?thesis by simp
qed

lemma native_reach_ok:
  "(native_step D)\<^sup>*\<^sup>* (native_default links home listeners) nt \<Longrightarrow> registry_ok D nt"
  using native_steps_inv [of D "native_default links home listeners" nt]
  by (simp add: native_inv_def registry_ok_def native_default_def)

text \<open>
  The exception is real: a connection whose number is passed to \<open>ws_unlisten\<close> loses its owner but stays in the
  registry, and no later shutdown removes it.
\<close>

lemma unlisten_orphans:
  assumes "i \<in> nt_conns nt"
  shows "i \<in> nt_conns (fold ws_shutdown hs (ws_unlisten i nt)) \<and> nt_owners (fold ws_shutdown hs (ws_unlisten i nt)) i = None"
proof -
  have "i \<in> nt_conns (fold ws_shutdown hs n) \<and> nt_owners (fold ws_shutdown hs n) i = None"
    if "i \<in> nt_conns n" "nt_owners n i = None" for n
    using that by (induction hs arbitrary: n) (simp_all add: ws_shutdown_registry)
  with assms show ?thesis by (simp add: ws_unlisten_def Let_def)
qed

text \<open>
  C32: No handle leaks.  From the empty registry on, under every sequence of calls of the interface, events and
  steps of the tasks behind it, every server and undecided upgrade in the registry belongs to a live hub, and
  so does every connection, unless its number is one of those in \<open>D\<close>, the connections' numbers that were
  passed to \<open>ws_unlisten\<close>; and no number names two things.  So when all hubs are shut down, in any order, nothing
  is left in the registry but connections with numbers in \<open>D\<close>; and if \<open>D\<close> is empty, so is the registry.
\<close>

theorem registry_consistent:
  assumes "(native_step D)\<^sup>*\<^sup>* (native_default links home listeners) nt" "dom (nt_hubs nt) \<subseteq> set hs"
  shows "dom (nt_owners nt) \<union> (D \<inter> nt_conns nt) = nt_conns nt \<union> nt_servers nt \<and> nt_conns nt \<inter> nt_servers nt = {} \<and>
    ran (nt_owners nt) \<subseteq> dom (nt_hubs nt) \<and> fst ` ran (nt_replies nt) \<subseteq> dom (nt_hubs nt) \<and>
    nt_conns (fold ws_shutdown hs nt) \<subseteq> D \<and> nt_servers (fold ws_shutdown hs nt) = {} \<and>
    nt_owners (fold ws_shutdown hs nt) = Map.empty \<and> nt_replies (fold ws_shutdown hs nt) = Map.empty"
proof -
  have ok: "registry_ok D nt" using assms(1) by (rule native_reach_ok)
  from shutdown_all [OF ok assms(2)] have "registry_ok D (fold ws_shutdown hs nt)" "nt_hubs (fold ws_shutdown hs nt) = Map.empty"
    by simp_all
  from registry_ok_empty [OF this] ok show ?thesis by (simp add: registry_ok_def)
qed

theorem registry_consistent_witness:
  "\<exists>nt. (native_step {})\<^sup>*\<^sup>* (native_default (nt_links demo_native) (nt_home demo_native) (nt_listeners demo_native)) nt \<and>
     nt_replies nt 2 = Some (1, 9) \<and> nt_replies (fold ws_shutdown [1] nt) 2 = None"
proof -
  let ?start = "native_default (nt_links demo_native) (nt_home demo_native) (nt_listeners demo_native)"
  let ?q = "\<lparr>qd_event = EvRequest 5 \<lparr>up_path = [], up_headers = [], up_protocols = [], up_addr = []\<rparr> 9,
    qd_permit = None, qd_pending = None\<rparr>"
  define a where "a = snd (ws_hub ?start)"
  define b where "b = a\<lparr>nt_hubs := (nt_hubs a)(1 \<mapsto> hub_default\<lparr>hb_queue := hb_queue hub_default @ [?q]\<rparr>)\<rparr>"
  define c where "c = snd (snd (the (ws_wait (\<lambda>x. x) (\<lambda>x. x) (\<lambda>_. 0) 1 0 b)))"
  have hub: "nt_hubs a = [1 \<mapsto> hub_default]" "nt_next a = 1" "nt_replies a = Map.empty"
    by (simp_all add: a_def ws_hub_def registry_token_def native_default_def wrapping_add_def usize_modulus_def usize_max_def)
  have "native_step {} ?start a" unfolding a_def by (rule call_hub)
  moreover have "native_step {} a b" unfolding b_def by (rule arrives) (simp_all add: hub)
  moreover have "\<exists>r e. ws_wait (\<lambda>x. x) (\<lambda>x. x) (\<lambda>_. 0) 1 0 b = Some (r, e, c)"
    by (simp add: c_def b_def hub ws_wait_def hub_recv_def hub_default_def registry_token_def Let_def)
  then have "native_step {} b c" by (blast intro: call_wait)
  ultimately have steps: "(native_step {})\<^sup>*\<^sup>* ?start c"
    by (blast intro: rtranclp.rtrancl_into_rtrancl r_into_rtranclp)
  have "nt_hubs c = [1 \<mapsto> hub_default\<lparr>hb_queue := []\<rparr>]" "nt_replies c = [2 \<mapsto> (1, 9)]"
    by (simp_all add: b_def c_def hub registry_token_def wrapping_add_def usize_modulus_def usize_max_def
        ws_wait_def hub_recv_def hub_default_def Let_def numeral_2_eq_2)
  then have c: "dom (nt_hubs c) \<subseteq> set [1]" "nt_replies c 2 = Some (1, 9)" by (simp_all split: if_splits)
  have "nt_replies (fold ws_shutdown [1] c) = Map.empty" using registry_consistent [OF steps c(1)] by blast
  with steps c(2) show ?thesis by (intro exI [of _ c]) simp
qed

end
