(* ===== verification/Script_Socket.thy ===== *)
theory Script_Socket
  imports Script_Opts Glue Native_Spec
begin

text \<open>
  Sockets as Lua makes them (\<open>ws/socket.lua\<close>): \<open>ws.connect\<close> from its options to the native call, and the state
  a script sees.
\<close>

subsection \<open>Connecting\<close>

text \<open>\<open>table.concat\<close> of an array of strings.\<close>

definition table_concat :: "bytes \<Rightarrow> (lua_value \<times> lua_value) list \<Rightarrow> bytes" where
  [ws_eval]: "table_concat sep t = join sep (map (\<lambda>v. case v of LStr s \<Rightarrow> s | _ \<Rightarrow> []) (ipairs t))"

definition connect_values :: "nat \<Rightarrow> bytes \<Rightarrow> (lua_value \<times> lua_value) list \<Rightarrow> lua_value list" where
  [ws_eval]: "connect_values hub url opt =
     (let tls = lua_get opt (LStr (str ''tls'')); limits = lua_get opt (LStr (str ''limits''));
          protocols = (case lua_get opt (LStr (str ''protocols'')) of LTable t \<Rightarrow> LStr (table_concat [0x0A] t) | v \<Rightarrow> v)
      in [LNumber (of_nat hub), LStr url, protocols, lua_get opt (LStr (str ''headers'')), lua_field tls (str ''ca''),
          lua_get opt (LStr (str ''timeout'')), lua_field limits (str ''message''), lua_field limits (str ''buffer''),
          lua_get opt (LStr (str ''heartbeat''))])"

text \<open>\<open>Socket.connect\<close>, up to the creation of the object: the error it raises, or the number of the socket.\<close>

definition socket_connect ::
  "net_env \<Rightarrow> lua_api \<Rightarrow> (bytes list \<Rightarrow> bytes list) \<Rightarrow> (lua_value \<Rightarrow> bytes) \<Rightarrow> nat \<Rightarrow> lua_value \<Rightarrow> lua_value \<Rightarrow> native \<Rightarrow>
   (lua_value + lua_value) \<times> native" where
  [ws_eval]: "socket_connect en api sorting tostring hub url options nt =
     (case url of
        LStr url \<Rightarrow>
          (case opts_check sorting tostring client_spec None options of
             Err e \<Rightarrow> (Err (LStr e), nt)
           | Ok opt \<Rightarrow>
               if truthy (lua_get opt (LStr (str ''tls''))) \<and> strip_prefix (str ''wss://'') (to_ascii_lowercase url) = None
               then (Err (LStr (str ''option 'tls' needs a wss:// URL'')), nt)
               else (case l_connect en api (connect_values hub url opt) nt of
                       Err _ \<Rightarrow> (Err LOther, nt)
                     | Ok (vs, nt) \<Rightarrow> (if truthy (vs ! 0) then Ok (vs ! 0) else Err (vs ! 1), nt)))
      | _ \<Rightarrow> (Err (LStr (str ''url must be a string'')), nt))"

subsection \<open>Lines\<close>

lemma str_lines_line: "0x0A \<notin> set l \<Longrightarrow> str_lines acc (l @ 0x0A # r) = strip_cr (acc @ l) # str_lines [] r"
  by (induction l arbitrary: acc) auto

lemma str_lines_rest: "0x0A \<notin> set l \<Longrightarrow> str_lines acc l = (if acc @ l = [] then [] else [acc @ l])"
  by (induction l arbitrary: acc) auto

lemma strip_cr_none: "0x0D \<notin> set l \<Longrightarrow> strip_cr l = l"
  by (auto simp: strip_cr_def dest: last_in_set)

lemma str_lines_terminated:
  "\<forall>l \<in> set ls. 0x0A \<notin> set l \<and> strip_cr l = l \<Longrightarrow> str_lines [] (concat (map (\<lambda>l. l @ [0x0A]) ls)) = ls"
  by (induction ls) (simp_all add: str_lines_line)

lemma str_lines_join:
  "\<forall>l \<in> set ls. 0x0A \<notin> set l \<and> 0x0D \<notin> set l \<and> l \<noteq> [] \<Longrightarrow> str_lines [] (join [0x0A] ls) = ls"
  by (induction "[0x0A :: byte]" ls rule: join.induct) (auto simp: str_lines_line str_lines_rest strip_cr_none)

lemma mset_eq_map:
  "mset xs = mset (map f ys) \<Longrightarrow> \<exists>ys'. mset ys' = mset ys \<and> xs = map f ys'"
proof (induction xs arbitrary: ys)
  case (Cons x xs)
  have "x \<in> set (map f ys)" using mset_eq_setD [OF Cons.prems] by auto
  then obtain y where y: "y \<in> set ys" "x = f y" by auto
  then have ys: "mset ys = add_mset y (mset (remove1 y ys))" by simp
  have "add_mset x (mset xs) = image_mset f (mset ys)" using Cons.prems by simp
  also have "\<dots> = add_mset x (mset (map f (remove1 y ys)))" unfolding y(2) by (subst ys) (simp only: image_mset_add_mset mset_map)
  finally have "mset xs = mset (map f (remove1 y ys))" by (simp only: add_mset_add_mset_same_iff)
  from Cons.IH [OF this] obtain zs where "mset zs = mset (remove1 y ys)" "xs = map f zs" by blast
  with y ys show ?case by (intro exI [of _ "y # zs"]) (simp only: mset.simps list.map)
qed simp

lemma header_lines_map:
  "\<forall>h \<in> set hs. 0x3A \<notin> set (fst h) \<Longrightarrow> header_lines (map (\<lambda>h. fst h @ str '':'' @ snd h) hs) out nt = (Ok (out @ hs), nt)"
proof (induction hs arbitrary: out)
  case (Cons h hs)
  have "split_once (str '':'') (fst h @ str '':'' @ snd h) = Some (fst h, snd h)"
    using Cons.prems split_once_single [of "0x3A" "fst h" "snd h"] by (simp add: str_def)
  with Cons show ?case by simp
qed simp

text \<open>The header lines of an option come back from the native side as the headers that were given.\<close>

lemma headers_reach_native:
  assumes "\<forall>h \<in> set hs. clean_header h" "\<And>xs. mset (sorting xs) = mset xs"
  shows "\<exists>hs'. mset hs' = mset hs \<and> header_lines (str_lines [] (concat (sorting (map header_line hs)))) [] nt = (Ok hs', nt)"
proof -
  obtain hs' where hs': "mset hs' = mset hs" "sorting (map header_line hs) = map header_line hs'"
    using mset_eq_map [OF assms(2)] by blast
  let ?ls = "map (\<lambda>h. fst h @ str '':'' @ snd h) hs'"
  have clean: "\<forall>h \<in> set hs'. clean_header h" using assms(1) mset_eq_setD [OF hs'(1)] by simp
  have "strip_cr (k @ str '':'' @ v) = k @ str '':'' @ v" if "0x0D \<notin> set v" for k v
    using that by (cases v rule: rev_cases) (auto simp: strip_cr_def str_def)
  with clean have "\<forall>l \<in> set ?ls. 0x0A \<notin> set l \<and> strip_cr l = l" by (auto simp: clean_header_def str_def)
  from str_lines_terminated [OF this] have "str_lines [] (concat (map header_line hs')) = ?ls"
    by (simp add: header_line_def [abs_def] comp_def)
  moreover have "header_lines ?ls [] nt = (Ok hs', nt)" using header_lines_map [of hs' "[]"] clean by (simp add: clean_header_def)
  ultimately show ?thesis using hs' by auto
qed

subsection \<open>Options that reach the native call\<close>

lemma field_cases:
  assumes "check_pairs sorting tostring s path t = Ok out" "map_of s name = Some (Kind k)"
  obtains "lua_get out (LStr name) = LNil" "map_of t (LStr name) = None"
  | val where "map_of t (LStr name) = Some val" "kinds sorting k val = Ok (lua_get out (LStr name))"
  using check_pairs_field [OF assms(1), of name] assms(2) by auto

lemma nested_cases:
  assumes "check_pairs sorting tostring s path t = Ok out" "map_of s name = Some (Nested sub)" "map_of sub key = Some (Kind k)"
  obtains "lua_field (lua_get out (LStr name)) key = LNil" "lua_field (lua_get t (LStr name)) key = LNil"
  | "kinds sorting k (lua_field (lua_get t (LStr name)) key) = Ok (lua_field (lua_get out (LStr name)) key)"
proof -
  consider "lua_get out (LStr name) = LNil" "lua_get t (LStr name) = LNil"
    | val p r where "opts_check sorting tostring sub p val = Ok r" "lua_get out (LStr name) = LTable r" "lua_get t (LStr name) = val"
    using check_pairs_field [OF assms(1), of name] assms(2) by (auto simp: lua_get_def)
  then show thesis
  proof cases
    case 1
    then show ?thesis using that(1) by (simp add: lua_field_def)
  next
    case (2 val p r)
    consider "r = []" "val = LNil" | t' where "check_pairs sorting tostring sub p t' = Ok r" "val = LTable t'"
      using 2(1) by (cases val) auto
    then show ?thesis
    proof cases
      case 1
      with 2 show ?thesis using that(1) by (simp add: lua_field_def lua_get_def)
    next
      case (2 t')
      note out = \<open>lua_get out (LStr name) = LTable r\<close> and t = \<open>lua_get t (LStr name) = val\<close>
      from 2(1) assms(3) show ?thesis
      proof (cases rule: field_cases)
        case 1
        with out t 2(2) show ?thesis using that(1) by (simp add: lua_field_def lua_get_def)
      next
        case (2 v)
        with out t \<open>val = LTable t'\<close> show ?thesis using that(2) by (simp add: lua_field_def lua_get_def)
      qed
    qed
  qed
qed

text \<open>The value of each kind passes the check of the C layer.\<close>

lemma opt_size_ok:
  assumes "api_ok api" "v = LNil \<or> (\<exists>val. kinds sorting KSize val = Ok v)"
  shows "\<exists>n \<le> 2 ^ 53. opt_size api v i = Ok n \<and> (v = LNil \<and> n = 0 \<or> v = LNumber (of_nat n) \<and> 0 < n)"
proof (cases "v = LNil")
  case True
  then show ?thesis by (simp add: opt_size_def opt_number_def)
next
  case False
  then have "lua_integer v 1 (2 ^ 53)" using assms(2) by (auto split: if_splits)
  then obtain x where x: "v = LNumber x" "of_int \<lfloor>x\<rfloor> = x" "1 \<le> x" "x \<le> 2 ^ 53" by (cases v) (auto simp: lua_integer_def)
  define n where "n = nat \<lfloor>x\<rfloor>"
  have "0 \<le> \<lfloor>x\<rfloor>" using x(3) by simp
  then have "of_nat n = (of_int \<lfloor>x\<rfloor> :: rat)" by (simp add: n_def)
  then have n: "x = of_nat n" using x(2) by simp
  have "(of_nat 1 :: rat) \<le> of_nat n" "(of_nat n :: rat) \<le> of_nat (2 ^ 53)" using x(3,4) n by simp_all
  then have "1 \<le> n" "n \<le> 2 ^ 53" by (simp_all only: of_nat_le_iff)
  moreover have "opt_size api v i = Ok n"
    using x assms(1) by (simp add: opt_size_def opt_number_def api_ok_def n_def)
  ultimately show ?thesis using x(1) n by auto
qed

lemma opt_heartbeat_ok:
  assumes "api_ok api" "v = LNil \<or> (\<exists>val. kinds sorting KHeartbeat val = Ok v)"
  shows "opt_heartbeat api v i = Ok (case v of LNumber x \<Rightarrow> x | LBool _ \<Rightarrow> 0 | _ \<Rightarrow> - 1)"
proof (cases "v = LNil")
  case False
  then have "v = LBool False \<or> (\<exists>x. v = LNumber x \<and> 0 < x \<and> x \<le> 1000000)"
    using assms(2) by (auto split: if_splits lua_value.splits)
  with assms(1) show ?thesis by (auto simp: opt_heartbeat_def api_ok_def)
qed (simp add: opt_heartbeat_def)

lemma opt_str_kinds:
  assumes "v = LNil \<or> (\<exists>s. v = LStr s)"
  shows "opt_str v i = Ok (case v of LStr s \<Rightarrow> Some s | _ \<Rightarrow> None)"
  using assms by (auto simp: opt_str_def)

lemma protocols_reach_native:
  assumes "check_pairs sorting tostring client_spec path t = Ok opt"
  obtains ts where
    "case map_of t (LStr (str ''protocols'')) of None \<Rightarrow> ts = [] | Some (LStr s) \<Rightarrow> ts = [s] | Some (LTable l) \<Rightarrow> map LStr ts = ipairs l
     | _ \<Rightarrow> False"
    "(case lua_get opt (LStr (str ''protocols'')) of LTable t \<Rightarrow> LStr (table_concat [0x0A] t) | v \<Rightarrow> v) =
       (if map_of t (LStr (str ''protocols'')) = None then LNil else LStr (join [0x0A] ts))"
    "str_lines [] (join [0x0A] ts) = ts"
proof -
  have "map_of client_spec (str ''protocols'') = Some (Kind KList)" by (simp add: client_spec_def)
  from assms this show thesis
  proof (cases rule: field_cases)
    case 1
    then show ?thesis using that [of "[]"] by simp
  next
    case (2 val)
    from 2(2) obtain ts where ts: "lua_get opt (LStr (str ''protocols'')) = LTable (lua_array (map LStr ts))"
      "\<forall>t \<in> set ts. is_token t" "case val of LStr s \<Rightarrow> ts = [s] | LTable t \<Rightarrow> map LStr ts = ipairs t | _ \<Rightarrow> False"
      by (auto elim: kind_list_ok)
    have "LNil \<notin> set (map LStr ts)" by auto
    then have "table_concat [0x0A] (lua_array (map LStr ts)) = join [0x0A] ts"
      by (simp add: table_concat_def ipairs_lua_array comp_def)
    moreover have "\<forall>l \<in> set ts. 0x0A \<notin> set l \<and> 0x0D \<notin> set l \<and> l \<noteq> []"
    proof
      fix l
      assume "l \<in> set ts"
      with ts(2) have tok: "is_token l" by simp
      then have "l \<noteq> []" by (auto simp: is_token_def)
      with is_token_chars(2) [OF tok] no_newline(1) [OF tok] show "0x0A \<notin> set l \<and> 0x0D \<notin> set l \<and> l \<noteq> []" by simp
    qed
    moreover have "case map_of t (LStr (str ''protocols'')) of None \<Rightarrow> ts = [] | Some (LStr s) \<Rightarrow> ts = [s]
      | Some (LTable l) \<Rightarrow> map LStr ts = ipairs l | _ \<Rightarrow> False" using 2(1) ts(3) by (simp split: lua_value.splits)
    ultimately show ?thesis using that [of ts] 2(1) ts(1) str_lines_join by simp
  qed
qed

lemma header_option_reaches_native:
  assumes "check_pairs sorting tostring client_spec path t = Ok opt" "\<And>xs. mset (sorting xs) = mset xs"
  obtains hs hs' where
    "case map_of t (LStr (str ''headers'')) of None \<Rightarrow> hs = [] | Some v \<Rightarrow> v = LTable (map (\<lambda>(k, x). (LStr k, LStr x)) hs)"
    "lua_get opt (LStr (str ''headers'')) = LNil \<and> hs' = [] \<or>
     (\<exists>s. lua_get opt (LStr (str ''headers'')) = LStr s \<and> header_lines (str_lines [] s) [] nt = (Ok hs', nt))"
    "mset hs' = mset hs"
proof -
  have "map_of client_spec (str ''headers'') = Some (Kind KHeaders)" by (simp add: client_spec_def str_def)
  from assms(1) this show thesis
  proof (cases rule: field_cases)
    case 1
    then show ?thesis using that [of "[]" "[]"] by simp
  next
    case (2 val)
    from 2(2) obtain hs where hs: "val = LTable (map (\<lambda>(k, x). (LStr k, LStr x)) hs)"
      "lua_get opt (LStr (str ''headers'')) = LStr (concat (sorting (map header_line hs)))" "\<forall>h \<in> set hs. clean_header h"
      by (auto elim: kind_headers_ok)
    obtain hs' where "mset hs' = mset hs"
      "header_lines (str_lines [] (concat (sorting (map header_line hs)))) [] nt = (Ok hs', nt)"
      using headers_reach_native [OF hs(3) assms(2)] by blast
    then show ?thesis using that [of hs hs'] 2(1) hs(1,2) by simp
  qed
qed

lemma client_spec_get:
  "map_of client_spec (str ''timeout'') = Some (Kind KSeconds)" "map_of client_spec (str ''heartbeat'') = Some (Kind KHeartbeat)"
  "map_of client_spec (str ''tls'') = Some (Nested [(str ''ca'', Kind KString)])"
  "map_of client_spec (str ''limits'') = Some (Nested [(str ''message'', Kind KSize), (str ''buffer'', Kind KSize)])"
  by (simp_all add: client_spec_def) (simp_all add: str_def)

lemma str_limits: "str ''buffer'' \<noteq> str ''message''"
  by (simp add: str_def)

lemma kinds_same: "\<lbrakk>kinds sorting k val = Ok v; k = KSize \<or> k = KString\<rbrakk> \<Longrightarrow> v = val"
  by (cases val) (auto split: if_splits)

lemma limits_reach_native:
  assumes "api_ok api" "check_pairs sorting tostring client_spec path t = Ok opt"
    and key: "map_of [(str ''message'', Kind KSize), (str ''buffer'', Kind KSize)] key = Some (Kind KSize)"
  shows "\<exists>n \<le> 2 ^ 53. opt_size api (lua_field (lua_get opt (LStr (str ''limits''))) key) i = Ok n \<and>
    lua_field (lua_get t (LStr (str ''limits''))) key = (if n = 0 then LNil else LNumber (of_nat n))"
proof -
  let ?v = "lua_field (lua_get opt (LStr (str ''limits''))) key" and ?t = "lua_field (lua_get t (LStr (str ''limits''))) key"
  have "(?v = LNil \<or> (\<exists>val. kinds sorting KSize val = Ok ?v)) \<and> ?v = ?t"
    using assms(2) client_spec_get(4) key
  proof (cases rule: nested_cases)
    case 2
    then have "?v = ?t" by (rule kinds_same) simp
    with 2 show ?thesis by blast
  qed simp
  then have v: "?v = LNil \<or> (\<exists>val. kinds sorting KSize val = Ok ?v)" and same: "?v = ?t" by blast+
  from opt_size_ok [OF assms(1) v, of i] obtain n where
    n: "n \<le> 2 ^ 53" "opt_size api ?v i = Ok n" "?v = LNil \<and> n = 0 \<or> ?v = LNumber (of_nat n) \<and> 0 < n" by blast
  from n(3) have "?t = (if n = 0 then LNil else LNumber (of_nat n))" unfolding same by (elim disjE conjE) simp_all
  with n show ?thesis by blast
qed

lemma ca_reaches_native:
  assumes "check_pairs sorting tostring client_spec path t = Ok opt"
  shows "\<exists>ca. opt_str (lua_field (lua_get opt (LStr (str ''tls''))) (str ''ca'')) 5 = Ok ca \<and>
    lua_field (lua_get t (LStr (str ''tls''))) (str ''ca'') = (case ca of None \<Rightarrow> LNil | Some s \<Rightarrow> LStr s)"
proof -
  let ?v = "lua_field (lua_get opt (LStr (str ''tls''))) (str ''ca'')" and ?t = "lua_field (lua_get t (LStr (str ''tls''))) (str ''ca'')"
  have "map_of [(str ''ca'', Kind KString)] (str ''ca'') = Some (Kind KString)" by simp
  with assms client_spec_get(3) have "?v = ?t \<and> (?v = LNil \<or> (\<exists>s. ?v = LStr s))"
  proof (cases rule: nested_cases)
    case 2
    then have "?v = ?t" by (rule kinds_same) simp
    with 2 show ?thesis by (cases ?t) simp_all
  qed simp
  then have same: "?v = ?t" and str: "?v = LNil \<or> (\<exists>s. ?v = LStr s)" by blast+
  from str show ?thesis unfolding same by (elim disjE exE) (simp_all add: opt_str_def)
qed

lemma timeout_reaches_native:
  assumes "api_ok api" "check_pairs sorting tostring client_spec path t = Ok opt"
  shows "\<exists>timeout. opt_number api (lua_get opt (LStr (str ''timeout''))) 6 0 = Ok timeout \<and>
    (case map_of t (LStr (str ''timeout'')) of None \<Rightarrow> timeout = 0 | Some v \<Rightarrow> v = LNumber timeout \<and> 0 < timeout)"
  using assms(2) client_spec_get(1)
proof (cases rule: field_cases)
  case (2 val)
  then obtain x where "val = LNumber x" "0 < x" "lua_get opt (LStr (str ''timeout'')) = LNumber x"
    by (cases val) (auto split: if_split_asm)
  with 2(1) assms(1) show ?thesis by (simp add: opt_number_def api_ok_def)
qed (simp add: opt_number_def)

lemma heartbeat_reaches_native:
  assumes "api_ok api" "check_pairs sorting tostring client_spec path t = Ok opt"
  shows "\<exists>beat. opt_heartbeat api (lua_get opt (LStr (str ''heartbeat''))) 9 = Ok beat \<and>
    (case map_of t (LStr (str ''heartbeat'')) of None \<Rightarrow> beat = - 1
     | Some v \<Rightarrow> v = LBool False \<and> beat = 0 \<or> v = LNumber beat \<and> 0 < beat)"
  using assms(2) client_spec_get(2)
proof (cases rule: field_cases)
  case (2 val)
  have "lua_get opt (LStr (str ''heartbeat'')) = val \<and> (val = LBool False \<or> (case val of LNumber x \<Rightarrow> x > 0 \<and> x \<le> 1000000 | _ \<Rightarrow> False))"
    using 2(2) by (simp split: if_split_asm)
  then have v: "lua_get opt (LStr (str ''heartbeat'')) = val"
    and "val = LBool False \<or> (case val of LNumber x \<Rightarrow> x > 0 \<and> x \<le> 1000000 | _ \<Rightarrow> False)" by blast+
  from this(2) have "val = LBool False \<or> (\<exists>x. val = LNumber x \<and> 0 < x)" by (cases val) simp_all
  have "opt_heartbeat api val 9 = Ok (case val of LNumber x \<Rightarrow> x | LBool _ \<Rightarrow> 0 | _ \<Rightarrow> - 1)"
    using 2(2) unfolding v by (intro opt_heartbeat_ok [OF assms(1), of _ sorting]) blast
  with 2(1) v \<open>val = LBool False \<or> (\<exists>x. val = LNumber x \<and> 0 < x)\<close> show ?thesis by (elim disjE exE conjE) simp_all
qed (simp add: opt_heartbeat_def)

text \<open>
  C38: Options that \<open>ws.connect\<close> accepts arrive: whatever table of options passes the check, the C layer
  raises no argument error, and the native call reads back exactly the subprotocols and, up to their order, the
  headers of the table; the certificate and each of the two limits are those that the sub-tables \<open>tls\<close> and \<open>limits\<close>
  name, with nothing and 0 for an absent one, and the limits are at most 2^53; the timeout and the heartbeat are the given
  ones or their defaults.  It takes that a number converts to itself and that sorting keeps the lines.
\<close>

theorem connect_options_native:
  assumes api: "api_ok api" and hub: "0 < hub" "hub < 2 ^ 63" and sorting: "\<And>xs. mset (sorting xs) = mset xs"
    and checked: "opts_check sorting tostring client_spec None (LTable t) = Ok opt"
  shows "\<exists>c ts hs hs'. connect_arguments api (connect_values hub url opt) = Ok c \<and> ca_hub c = hub \<and> ca_url c = Some url \<and>
    (case map_of t (LStr (str ''protocols'')) of None \<Rightarrow> ts = [] | Some (LStr s) \<Rightarrow> ts = [s] | Some (LTable l) \<Rightarrow> map LStr ts = ipairs l
     | _ \<Rightarrow> False) \<and>
    str_lines [] (given (ca_protocols c)) = ts \<and>
    (case map_of t (LStr (str ''headers'')) of None \<Rightarrow> hs = [] | Some v \<Rightarrow> v = LTable (map (\<lambda>(k, x). (LStr k, LStr x)) hs)) \<and>
    header_lines (str_lines [] (given (ca_headers c))) [] nt = (Ok hs', nt) \<and> mset hs' = mset hs \<and>
    lua_field (lua_get t (LStr (str ''tls''))) (str ''ca'') = (case ca_ca c of None \<Rightarrow> LNil | Some s \<Rightarrow> LStr s) \<and>
    (case map_of t (LStr (str ''timeout'')) of None \<Rightarrow> ca_timeout c = 0 | Some v \<Rightarrow> v = LNumber (ca_timeout c) \<and> 0 < ca_timeout c) \<and>
    (case map_of t (LStr (str ''heartbeat'')) of
       None \<Rightarrow> ca_heartbeat c = - 1
     | Some v \<Rightarrow> v = LBool False \<and> ca_heartbeat c = 0 \<or> v = LNumber (ca_heartbeat c) \<and> 0 < ca_heartbeat c) \<and>
    lua_field (lua_get t (LStr (str ''limits''))) (str ''message'') =
      (if ca_max c = 0 then LNil else LNumber (of_nat (ca_max c))) \<and>
    lua_field (lua_get t (LStr (str ''limits''))) (str ''buffer'') =
      (if ca_buffer c = 0 then LNil else LNumber (of_nat (ca_buffer c))) \<and>
    ca_max c \<le> 2 ^ 53 \<and> ca_buffer c \<le> 2 ^ 53"
proof -
  have pairs: "check_pairs sorting tostring client_spec None t = Ok opt" using checked by simp
  obtain ts where ts: "case map_of t (LStr (str ''protocols'')) of None \<Rightarrow> ts = [] | Some (LStr s) \<Rightarrow> ts = [s]
      | Some (LTable l) \<Rightarrow> map LStr ts = ipairs l | _ \<Rightarrow> False"
    and p: "(case lua_get opt (LStr (str ''protocols'')) of LTable t \<Rightarrow> LStr (table_concat [0x0A] t) | v \<Rightarrow> v) =
       (if map_of t (LStr (str ''protocols'')) = None then LNil else LStr (join [0x0A] ts))"
    and lines: "str_lines [] (join [0x0A] ts) = ts" using pairs by (rule protocols_reach_native)
  obtain hs hs' where hs: "case map_of t (LStr (str ''headers'')) of None \<Rightarrow> hs = []
      | Some v \<Rightarrow> v = LTable (map (\<lambda>(k, x). (LStr k, LStr x)) hs)"
    and h: "lua_get opt (LStr (str ''headers'')) = LNil \<and> hs' = [] \<or>
     (\<exists>s. lua_get opt (LStr (str ''headers'')) = LStr s \<and> header_lines (str_lines [] s) [] nt = (Ok hs', nt))"
    and same: "mset hs' = mset hs" by (rule header_option_reaches_native [OF pairs sorting, of nt])
  obtain maxi where maxi: "maxi \<le> 2 ^ 53"
    "opt_size api (lua_field (lua_get opt (LStr (str ''limits''))) (str ''message'')) 7 = Ok maxi"
    "lua_field (lua_get t (LStr (str ''limits''))) (str ''message'') = (if maxi = 0 then LNil else LNumber (of_nat maxi))"
    using limits_reach_native [OF api pairs, of "str ''message''" 7] by auto
  obtain buffer where buffer: "buffer \<le> 2 ^ 53"
    "opt_size api (lua_field (lua_get opt (LStr (str ''limits''))) (str ''buffer'')) 8 = Ok buffer"
    "lua_field (lua_get t (LStr (str ''limits''))) (str ''buffer'') = (if buffer = 0 then LNil else LNumber (of_nat buffer))"
    using limits_reach_native [OF api pairs, of "str ''buffer''" 8] by (auto simp: str_limits)
  obtain ca where ca: "opt_str (lua_field (lua_get opt (LStr (str ''tls''))) (str ''ca'')) 5 = Ok ca"
    "lua_field (lua_get t (LStr (str ''tls''))) (str ''ca'') = (case ca of None \<Rightarrow> LNil | Some s \<Rightarrow> LStr s)"
    using ca_reaches_native [OF pairs] by blast
  obtain timeout where timeout: "opt_number api (lua_get opt (LStr (str ''timeout''))) 6 0 = Ok timeout"
    "case map_of t (LStr (str ''timeout'')) of None \<Rightarrow> timeout = 0 | Some v \<Rightarrow> v = LNumber timeout \<and> 0 < timeout"
    using timeout_reaches_native [OF api pairs] by blast
  obtain beat where beat: "opt_heartbeat api (lua_get opt (LStr (str ''heartbeat''))) 9 = Ok beat"
    "case map_of t (LStr (str ''heartbeat'')) of None \<Rightarrow> beat = - 1
     | Some v \<Rightarrow> v = LBool False \<and> beat = 0 \<or> v = LNumber beat \<and> 0 < beat"
    using heartbeat_reaches_native [OF api pairs] by blast
  have id: "check_id api (LNumber (of_nat hub)) 1 = Ok hub"
    using api hub unfolding api_ok_def check_id_def by (auto dest: spec [of _ "int hub"])
  obtain ps where ps: "opt_str (case lua_get opt (LStr (str ''protocols'')) of LTable t \<Rightarrow> LStr (table_concat [0x0A] t) | v \<Rightarrow> v) 3 = Ok ps"
    "str_lines [] (given ps) = ts"
    using ts lines unfolding p by (cases "map_of t (LStr (str ''protocols''))") (simp_all add: opt_str_def)
  obtain hl where hl: "opt_str (lua_get opt (LStr (str ''headers''))) 4 = Ok hl"
    "header_lines (str_lines [] (given hl)) [] nt = (Ok hs', nt)"
    using h by (elim disjE exE conjE) (simp_all add: opt_str_def)
  have url: "opt_str (LStr url) 2 = Ok (Some url)" by (simp add: opt_str_def)
  have "connect_arguments api (connect_values hub url opt) =
      Ok \<lparr>ca_hub = hub, ca_url = Some url, ca_protocols = ps, ca_headers = hl, ca_ca = ca, ca_timeout = timeout,
          ca_max = maxi, ca_buffer = buffer, ca_heartbeat = beat\<rparr>"
    unfolding connect_values_def Let_def
    by (rule connect_arguments_ok [OF id url ps(1) hl(1) ca(1) timeout(1) maxi(2) buffer(2) beat(1)])
  then obtain c where c: "connect_arguments api (connect_values hub url opt) = Ok c" "ca_hub c = hub" "ca_url c = Some url"
    and given: "ps = ca_protocols c" "hl = ca_headers c" "timeout = ca_timeout c" "beat = ca_heartbeat c" "maxi = ca_max c"
      "buffer = ca_buffer c" "ca = ca_ca c" by (rule that) simp_all
  show ?thesis
    using c ts ps(2) hs hl(2) same ca(2) timeout(2) beat(2) maxi(1,3) buffer(1,3) unfolding given
    by (intro exI [of _ c] exI [of _ ts] exI [of _ hs] exI [of _ hs'] conjI)
qed

text \<open>A table with one subprotocol, one header and one limit.\<close>

definition demo_api :: lua_api where
  "demo_api = \<lparr>api_integer = (\<lambda>v. case v of LNumber x \<Rightarrow> Some \<lfloor>x\<rfloor> | _ \<Rightarrow> None), api_number = (\<lambda>v. case v of LNumber x \<Rightarrow> Some x | _ \<Rightarrow> None)\<rparr>"

definition demo_options :: "(lua_value \<times> lua_value) list" where
  "demo_options = [(LStr (str ''protocols''), LStr (str ''chat'')), (LStr (str ''headers''), LTable [(LStr [0x78], LStr [0x31])]),
     (LStr (str ''limits''), LTable [(LStr (str ''buffer''), LNumber 5)])]"

theorem connect_options_native_witness:
  "\<exists>opt c. opts_check (\<lambda>ls. ls) (\<lambda>_. []) client_spec None (LTable demo_options) = Ok opt \<and>
     connect_arguments demo_api (connect_values 1 [] opt) = Ok c \<and> str_lines [] (given (ca_protocols c)) = [str ''chat''] \<and>
     header_lines (str_lines [] (given (ca_headers c))) [] demo_native = (Ok [([0x78], [0x31])], demo_native) \<and>
     ca_timeout c = 0 \<and> ca_buffer c = 5"
proof -
  have api: "api_ok demo_api" by (simp add: api_ok_def demo_api_def)
  have "is_token (str ''chat'')" by (simp add: ws_eval)
  then have "kinds (\<lambda>ls. ls) KList (LStr (str ''chat'')) = Ok (LTable (lua_array [LStr (str ''chat'')]))"
    by (simp add: kind_list_def ipairs_lua_array lua_token_iff) (simp add: lua_array_def lua_integer_def)
  moreover have "kinds (\<lambda>ls. ls) KHeaders (LTable [(LStr [0x78], LStr [0x31])]) = Ok (LStr (header_line ([0x78], [0x31])))"
    by (simp add: kind_headers_def header_pair_def)
  moreover have "kinds (\<lambda>ls. ls) KSize (LNumber 5) = Ok (LNumber 5)" by (simp add: lua_integer_def)
  ultimately have checked: "opts_check (\<lambda>ls. ls) (\<lambda>_. []) client_spec None (LTable demo_options) =
      Ok [(LStr (str ''protocols''), LTable (lua_array [LStr (str ''chat'')])), (LStr (str ''headers''), LStr (header_line ([0x78], [0x31]))),
          (LStr (str ''limits''), LTable [(LStr (str ''buffer''), LNumber 5)])]"
    (is "_ = Ok ?opt")
    by (simp add: demo_options_def spec_get_def client_spec_def Let_def del: kinds.simps) (simp add: str_def)
  from connect_options_native [OF api _ _ _ this, of 1 "[]" demo_native] obtain c ts hs hs' where
    c: "connect_arguments demo_api (connect_values 1 [] ?opt) = Ok c" "str_lines [] (given (ca_protocols c)) = ts"
    "header_lines (str_lines [] (given (ca_headers c))) [] demo_native = (Ok hs', demo_native)"
    and c': "mset hs' = mset hs" "case map_of demo_options (LStr (str ''protocols'')) of None \<Rightarrow> ts = [] | Some (LStr s) \<Rightarrow> ts = [s] | Some (LTable l) \<Rightarrow> map LStr ts = ipairs l
     | _ \<Rightarrow> False"
    "case map_of demo_options (LStr (str ''headers'')) of None \<Rightarrow> hs = [] | Some v \<Rightarrow> v = LTable (map (\<lambda>(k, x). (LStr k, LStr x)) hs)"
    "case map_of demo_options (LStr (str ''timeout'')) of None \<Rightarrow> ca_timeout c = 0 | Some v \<Rightarrow> v = LNumber (ca_timeout c) \<and> 0 < ca_timeout c"
    and size: "lua_field (lua_get demo_options (LStr (str ''limits''))) (str ''buffer'') =
      (if ca_buffer c = 0 then LNil else LNumber (of_nat (ca_buffer c)))"
    by auto
  have "map_of demo_options (LStr (str ''protocols'')) = Some (LStr (str ''chat''))"
    "map_of demo_options (LStr (str ''headers'')) = Some (LTable [(LStr [0x78], LStr [0x31])])"
    "map_of demo_options (LStr (str ''timeout'')) = None" by (simp_all add: demo_options_def) (simp_all add: str_def)
  with c' have "ts = [str ''chat'']" "hs' = [([0x78], [0x31])]" "ca_timeout c = 0" by auto
  moreover have "lua_field (lua_get demo_options (LStr (str ''limits''))) (str ''buffer'') = LNumber 5"
    by (simp add: demo_options_def lua_get_def lua_field_def) (simp add: str_def)
  with size have "(of_nat (ca_buffer c) :: rat) = of_nat 5" by (simp split: if_splits)
  then have "ca_buffer c = 5" by (simp only: of_nat_eq_iff)
  ultimately show ?thesis using c checked by (intro exI [of _ ?opt] exI [of _ c]) simp
qed

end
