(* ===== verification/Script.thy ===== *)
theory Script
  imports Script_Socket
begin

text \<open>
  Servers as Lua makes them (\<open>ws/server.lua\<close>): listening, closing and the clients; and upgrades: taking a packed
  request apart and answering it, with the application's \<open>accept\<close> callback as an argument.

  A raised error is the first part of a handler's result.  The callback may
  change any state, listeners and the request's list of subprotocols included, so it returns the
  request and the state it leaves.
\<close>

subsection \<open>Taking a request apart\<close>

record lua_req =
  lr_path :: bytes
  lr_address :: bytes
  lr_port :: "nat option"
  lr_protocols :: "bytes list"
  lr_headers :: "bytes \<Rightarrow> bytes option"

text \<open>\<open>gmatch("([^\n]*)\n")\<close>: the pieces that a newline ends.  \<open>gmatch("[^,]+")\<close>: the pieces that are not empty.\<close>

definition lua_lines :: "bytes \<Rightarrow> bytes list" where
  [ws_eval]: "lua_lines data = butlast (split_str [0x0A] data)"

definition lua_items :: "bytes \<Rightarrow> bytes list" where
  [ws_eval]: "lua_items s = filter (\<lambda>p. p \<noteq> []) (split_str (str '','') s)"

text \<open>A line that does not match raises an error, since nothing is stored under \<open>nil\<close>.\<close>

fun lua_headers :: "bytes list \<Rightarrow> (bytes \<Rightarrow> bytes option) \<Rightarrow> (bytes \<Rightarrow> bytes option) option" where
  "lua_headers [] hs = Some hs"
| "lua_headers (line # lines) hs =
     (case split_once (str '':'') line of
        None \<Rightarrow> None
      | Some (name, val) \<Rightarrow>
          if name = [] then None
          else lua_headers lines (hs(name := Some (case hs name of None \<Rightarrow> val | Some prev \<Rightarrow> prev @ str '', '' @ val))))"

text \<open>\<open>request\<close>; \<open>None\<close> when it raises.  The number a text stands for is \<open>tonumber\<close>.\<close>

definition lua_request :: "(bytes \<Rightarrow> nat option) \<Rightarrow> bytes \<Rightarrow> lua_req option" where
  [ws_eval]: "lua_request tonumber data =
     (case lua_lines data of
        path # address # port # names # lines \<Rightarrow>
          map_option (\<lambda>hs. \<lparr>lr_path = path, lr_address = address, lr_port = tonumber port, lr_protocols = lua_items names,
            lr_headers = hs\<rparr>) (lua_headers lines Map.empty)
      | _ \<Rightarrow> None)"

definition joined :: "headers \<Rightarrow> bytes \<Rightarrow> bytes option" where
  "joined hs name = (case http_all hs name of [] \<Rightarrow> None | vs \<Rightarrow> Some (join (str '', '') vs))"

lemma join_first: "join sep ((a @ sep @ b) # vs) = a @ sep @ join sep (b # vs)"
  by (cases vs) simp_all

lemma lua_headers_joined:
  assumes "map (split_once (str '':'')) lines = map Some hs" "\<forall>(k, v) \<in> set hs. k \<noteq> []"
  shows "lua_headers lines f =
    Some (\<lambda>name. case f name of
      None \<Rightarrow> joined hs name
    | Some prev \<Rightarrow> Some (join (str '', '') (prev # http_all hs name)))"
  using assms
proof (induction lines arbitrary: hs f)
  case Nil
  then show ?case by (auto simp: joined_def http_all_def fun_eq_iff split: option.splits)
next
  case (Cons line lines)
  then obtain k v hs' where hs: "hs = (k, v) # hs'" by (cases hs) auto
  have step: "map (split_once (str '':'')) lines = map Some hs'" "\<forall>(k, v) \<in> set hs'. k \<noteq> []"
    "split_once (str '':'') line = Some (k, v)" "k \<noteq> []" using Cons.prems hs by auto
  show ?case
    using step by (auto simp: Cons.IH [OF step(1,2)] hs joined_def http_all_def join_first fun_eq_iff split: option.splits list.splits)
qed

lemma lua_request_packed:
  assumes asked: "handshake_head sid peer_addr secured head n slot ev = (Inr (r, rest, req), ev')"
    and addr: "0x0A \<notin> set (ip (up_addr req))" "0x0A \<notin> set (port (up_addr req))"
  shows "lua_request tonumber (pack ip port req) =
    Some \<lparr>lr_path = up_path req, lr_address = ip (up_addr req), lr_port = tonumber (port (up_addr req)),
      lr_protocols = up_protocols req, lr_headers = joined (up_headers req)\<rparr>"
proof -
  have adm: "admissible r" and same: "up_protocols req = req_protocols r" "up_headers req = req_headers r"
    using handshake_head_cases [OF asked] request_admissible by auto
  obtain names hs where packed: "split_str [0x0A] (pack ip port req) =
      [up_path req, ip (up_addr req), port (up_addr req), names] @ hs @ [[]]"
    and names: "if up_protocols req = [] then names = [] else split_str (str '','') names = up_protocols req"
    and hs: "map (split_once (str '':'')) hs = map Some (up_headers req)"
    using pack_unpack [OF asked, of ip port] addr by blast
  have "split_str (str '','') [] = [[]]" using split_str_absent [of "0x2C" "[]" "[]"] by (simp add: str_def)
  moreover have "[] \<notin> set (up_protocols req)" "\<forall>(k, v) \<in> set (up_headers req). k \<noteq> []"
    using adm same by (auto simp: admissible_def list_all_iff header_ok_def is_token_def)
  ultimately show ?thesis
    using names lua_headers_joined [OF hs, of Map.empty]
    by (auto simp: lua_request_def lua_lines_def packed lua_items_def butlast_append filter_id_conv split: if_splits)
qed

text \<open>
  C37: The application sees the request that arrived: what Lua takes apart is, for every request the server shows,
  its path, address and subprotocols in their order, and for every header name all its values in
  their order, joined with a comma, since none of them can hold a separator; all it takes is that addresses
  print without newlines.
\<close>

theorem lua_request_faithful:
  assumes "handshake_head sid peer_addr secured head n slot ev = (Inr (r, rest, req), ev')"
    and "0x0A \<notin> set (ip (up_addr req))" "0x0A \<notin> set (port (up_addr req))"
  shows "lua_request tonumber (pack ip port req) =
    Some \<lparr>lr_path = up_path req, lr_address = ip (up_addr req), lr_port = tonumber (port (up_addr req)),
      lr_protocols = up_protocols req,
      lr_headers = (\<lambda>name. case http_all (up_headers req) name of [] \<Rightarrow> None | vs \<Rightarrow> Some (join (str '', '') vs))\<rparr>"
  using lua_request_packed [OF assms(1), of ip port tonumber] assms(2,3) by (simp add: joined_def fun_eq_iff)

text \<open>A request for \<open>ws://a/x\<close> with the subprotocol \<open>chat\<close>, and the first half of its handshake.\<close>

definition demo_head :: bytes where
  "demo_head = client_request
     \<lparr>url_tls = False, url_host = str ''a'', url_port = 80, url_target = str ''/x'', url_authority = str ''a''\<rparr>
     (base64_encode (replicate 16 0)) [str ''chat''] []"

lemma demo_asked:
  obtains r req ev' where "handshake_head 1 (Some [7]) True (Some (Ok (demo_head, [1]))) 2 3 (hub_tx hub_default) = (Inr (r, [1], req), ev')"
    "up_path req = str ''/x''" "up_addr req = [7]" "up_protocols req = [str ''chat'']"
proof -
  let ?u = "\<lparr>url_tls = False, url_host = str ''a'', url_port = 80, url_target = str ''/x'', url_authority = str ''a''\<rparr>"
  let ?k = "base64_encode (replicate 16 0)"
  have p: "url_parse (str ''ws://a/x'') = Ok ?u" by code_simp
  have "is_token (str ''chat'')" by (simp add: ws_eval)
  then have ok: "request_ok ?u ?k [str ''chat''] []"
    by (simp add: request_ok_def client_request_def length_base64_encode)
      (simp add: str_def CRLF_def MAX_HEAD_def MAX_HEADERS_def http_all_def)
  from request_of_client [OF p _ ok] show thesis
    using that by (simp add: demo_head_def handshake_head_def events_send_pending_def hub_tx_def hub_default_def Let_def)
qed

theorem lua_request_faithful_witness:
  "\<exists>r req ev' q. handshake_head 1 (Some [7]) True (Some (Ok (demo_head, [1]))) 2 3 (hub_tx hub_default) = (Inr (r, [1], req), ev') \<and>
     lua_request (\<lambda>_. Some 80) (pack (\<lambda>a. a) (\<lambda>a. []) req) = Some q \<and>
     lr_path q = str ''/x'' \<and> lr_port q = Some 80 \<and> lr_protocols q = [str ''chat'']"
proof -
  obtain r req ev' where h: "handshake_head 1 (Some [7]) True (Some (Ok (demo_head, [1]))) 2 3 (hub_tx hub_default) = (Inr (r, [1], req), ev')"
    and req: "up_path req = str ''/x''" "up_addr req = [7]" "up_protocols req = [str ''chat'']" by (rule demo_asked)
  from lua_request_faithful [OF h, of "\<lambda>a. a" "\<lambda>a. []" "\<lambda>_. Some 80"] h req show ?thesis by auto
qed

subsection \<open>Deciding an upgrade\<close>

text \<open>
  \<open>loop.servers\<close> names server objects, \<open>lx_objects\<close>; \<open>loop.sockets\<close> is listed in the order of \<open>pairs\<close>, each
  socket with the server that accepted it.
\<close>

record lua_server =
  lv_accept :: bool
  lv_protocols :: "bytes list"

record lua_state =
  lx_servers :: "id \<Rightarrow> nat option"
  lx_objects :: "nat \<Rightarrow> lua_server"
  lx_fresh :: nat
  lx_sockets :: "(id \<times> nat option) list"
  lx_native :: native

datatype accept_result = Raised lua_value | Returned lua_value lua_value

type_synonym accept_callback = "nat \<Rightarrow> lua_req \<Rightarrow> lua_state \<Rightarrow> accept_result \<times> lua_req \<times> lua_state"

definition core_reply :: "nat \<Rightarrow> nat \<Rightarrow> ws_str \<Rightarrow> lua_state \<Rightarrow> lua_state" where
  [ws_eval]: "core_reply token status protocol st =
     (case ws_reply token status protocol (lx_native st) of (rc, nt) \<Rightarrow> st\<lparr>lx_native := snd (glue_result rc nt)\<rparr>)"

text \<open>This is what the call through the C layer does, for any token and status the handlers pass.\<close>

lemma core_reply_glue:
  assumes "api_ok api" "0 < token" "token < 2 ^ 63" "status \<le> 65535"
  shows "\<exists>vs. l_reply api (LNumber (of_nat token)) (LNumber (of_nat status)) (case protocol of None \<Rightarrow> LNil | Some p \<Rightarrow> LStr p) (lx_native st) =
    Ok (vs, lx_native (core_reply token status protocol st))"
proof -
  have number: "api_integer api (LNumber (of_nat n)) = Some (int n)" if "n < 2 ^ 63" for n
    using assms(1) that unfolding api_ok_def by (auto dest!: spec [of _ "int n"])
  have "opt_str (case protocol of None \<Rightarrow> LNil | Some p \<Rightarrow> LStr p) 3 = Ok protocol" by (simp add: opt_str_def split: option.split)
  moreover obtain rc nt where "ws_reply token status protocol (lx_native st) = (rc, nt)" by (cases "ws_reply token status protocol (lx_native st)")
  ultimately show ?thesis
    using assms number [of token] number [of status]
    by (simp add: l_reply_def check_id_def opt_integer_def core_reply_def) (metis prod.collapse)
qed

text \<open>The status of a refusal, \<open>None\<close> if it is not an integer from 400 to 599.\<close>

definition refusal_status :: "lua_value \<Rightarrow> nat option" where
  [ws_eval]: "refusal_status v =
     (case (if truthy v then v else LNumber 403) of
        LNumber x \<Rightarrow> if of_int \<lfloor>x\<rfloor> \<noteq> x \<or> x < 400 \<or> x > 599 then None else Some (nat \<lfloor>x\<rfloor>)
      | _ \<Rightarrow> None)"

text \<open>What follows an acceptance: the listener may be closed by now; otherwise the first subprotocol it knows.\<close>

definition accept_upgrade :: "nat \<Rightarrow> id \<Rightarrow> nat \<Rightarrow> lua_req \<Rightarrow> lua_state \<Rightarrow> lua_state" where
  [ws_eval]: "accept_upgrade token server s req st =
     (if lx_servers st server \<noteq> Some s then core_reply token 503 None st
      else core_reply token 0 (find (\<lambda>p. p \<in> set (lv_protocols (lx_objects st s))) (lr_protocols req)) st)"

definition request_handler ::
  "accept_callback \<Rightarrow> (bytes \<Rightarrow> nat option) \<Rightarrow> nat \<Rightarrow> bytes \<Rightarrow> id \<Rightarrow> lua_state \<Rightarrow> lua_value option \<times> lua_state" where
  [ws_eval]: "request_handler accept tonumber token data server st =
     (case lx_servers st server of
        None \<Rightarrow> (None, core_reply token 503 None st)
      | Some s \<Rightarrow>
          (case lua_request tonumber data of
             None \<Rightarrow> (Some LOther, st)
           | Some req \<Rightarrow>
               if lv_accept (lx_objects st s)
               then (case accept s req st of
                       (Raised e, req, st) \<Rightarrow> (Some e, core_reply token 500 None st)
                     | (Returned accepted status, req, st) \<Rightarrow>
                         if truthy accepted then (None, accept_upgrade token server s req st)
                         else (case refusal_status status of
                                 None \<Rightarrow> (Some (LStr (str ''accept: status must be an integer from 400 to 599'')),
                                          core_reply token 500 None st)
                               | Some status \<Rightarrow> (None, core_reply token status None st)))
               else (None, accept_upgrade token server s req st)))"

text \<open>One answer to \<open>token\<close>, sent to \<open>tx\<close>, and to nothing else.\<close>

definition answered :: "nat \<Rightarrow> nat \<Rightarrow> reply \<Rightarrow> lua_state \<Rightarrow> lua_state \<Rightarrow> bool" where
  "answered token tx r st st' \<longleftrightarrow>
     nt_answers (lx_native st') = nt_answers (lx_native st) @ [(tx, r)] \<and>
     nt_replies (lx_native st') = (nt_replies (lx_native st))(token := None) \<and>
     lx_servers st' = lx_servers st"

lemma core_reply_answered:
  assumes "nt_replies (lx_native st) token = Some (h, tx)"
  shows "\<lbrakk>400 \<le> status; status \<le> 599\<rbrakk> \<Longrightarrow> answered token tx (Reject status) st (core_reply token status None st)"
    and "is_utf8 (given protocol) \<Longrightarrow> answered token tx (Accept protocol) st (core_reply token 0 protocol st)"
    and "\<not> is_utf8 (given protocol) \<Longrightarrow> answered token tx (Reject 500) st (core_reply token 0 protocol st)"
proof -
  let ?nt = "(lx_native st)\<lparr>nt_replies := (nt_replies (lx_native st))(token := None)\<rparr>"
  show "answered token tx (Reject status) st (core_reply token status None st)" if "400 \<le> status" "status \<le> 599"
    using assms that by (simp add: answered_def core_reply_def ws_reply_def ws_text_def glue_result_def)
  show "answered token tx (Accept protocol) st (core_reply token 0 protocol st)" if "is_utf8 (given protocol)"
    using assms that by (cases rule: ws_text_cases [of protocol "str ''protocol''" ?nt]) (simp_all add: answered_def core_reply_def ws_reply_def glue_result_def ws_error_def)
  show "answered token tx (Reject 500) st (core_reply token 0 protocol st)" if "\<not> is_utf8 (given protocol)"
    using assms that by (cases rule: ws_text_cases [of protocol "str ''protocol''" ?nt]) (simp_all add: answered_def core_reply_def ws_reply_def glue_result_def ws_error_def)
qed

lemma refusal_status_range: "refusal_status v = Some status \<Longrightarrow> 400 \<le> status \<and> status \<le> 599"
  by (auto simp: refusal_status_def le_nat_iff nat_le_iff le_floor_iff floor_le_iff split: lua_value.splits if_splits)

lemma accept_upgrade_answered:
  assumes "nt_replies (lx_native st) token = Some (h, tx)" "\<forall>p \<in> set (lr_protocols req). is_utf8 p"
  shows "answered token tx
      (if lx_servers st server = Some s
       then Accept (find (\<lambda>p. p \<in> set (lv_protocols (lx_objects st s))) (lr_protocols req)) else Reject 503)
      st (accept_upgrade token server s req st)"
proof -
  let ?p = "find (\<lambda>p. p \<in> set (lv_protocols (lx_objects st s))) (lr_protocols req)"
  have "is_utf8 (given ?p)"
    using assms(2) by (auto simp: find_Some_iff split: option.splits dest: nth_mem)
  then show ?thesis
    using core_reply_answered(1) [OF assms(1), of 503] core_reply_answered(2) [OF assms(1)]
    by (simp add: accept_upgrade_def)
qed

text \<open>What the callback may not do behind the loop's back: answer requests, or add to the subprotocols offered.\<close>

definition fair :: "accept_callback \<Rightarrow> lua_req \<Rightarrow> lua_state \<Rightarrow> bool" where
  "fair accept q st \<longleftrightarrow> (\<forall>s. case accept s q st of (_, q', st') \<Rightarrow>
     nt_replies (lx_native st') = nt_replies (lx_native st) \<and> nt_answers (lx_native st') = nt_answers (lx_native st) \<and>
     set (lr_protocols q') \<subseteq> set (lr_protocols q))"

text \<open>The answers the handshake acts on as they are: legal ones that pick an offered subprotocol.\<close>

fun sound_reply :: "bytes list \<Rightarrow> reply \<Rightarrow> bool" where
  "sound_reply offered (Accept p) \<longleftrightarrow> (\<forall>q. p = Some q \<longrightarrow> q \<in> set offered)"
| "sound_reply offered (Reject status) \<longleftrightarrow> 400 \<le> status \<and> status \<le> 599"

definition upheld :: "accept_callback \<Rightarrow> lua_req \<Rightarrow> id \<Rightarrow> lua_state \<Rightarrow> lua_state \<Rightarrow> reply \<Rightarrow> bool" where
  "upheld accept q server st st' r \<longleftrightarrow>
     (case lx_servers st server of
        None \<Rightarrow> r = Reject 503
      | Some s \<Rightarrow>
          (case (if lv_accept (lx_objects st s) then fst (accept s q st) else Returned (LBool True) LNil) of
             Raised _ \<Rightarrow> r = Reject 500
           | Returned accepted status \<Rightarrow>
               if \<not> truthy accepted then r = Reject (case refusal_status status of None \<Rightarrow> 500 | Some x \<Rightarrow> x)
               else if lx_servers st' server = Some s then \<exists>p. r = Accept p else r = Reject 503))"

lemma accept_upgrade_upheld:
  assumes "nt_replies (lx_native st) token = Some (h, tx)" "\<forall>p \<in> set (lr_protocols q). is_utf8 p"
    "set (lr_protocols q') \<subseteq> set (lr_protocols q)"
  shows "\<exists>r. answered token tx r st (accept_upgrade token server s q' st) \<and> sound_reply (lr_protocols q) r \<and>
    (if lx_servers (accept_upgrade token server s q' st) server = Some s then \<exists>p. r = Accept p else r = Reject 503)"
proof -
  let ?r = "if lx_servers st server = Some s
       then Accept (find (\<lambda>p. p \<in> set (lv_protocols (lx_objects st s))) (lr_protocols q')) else Reject 503"
  have a: "answered token tx ?r st (accept_upgrade token server s q' st)"
    using assms by (intro accept_upgrade_answered) auto
  then have "lx_servers (accept_upgrade token server s q' st) = lx_servers st" by (simp add: answered_def)
  moreover have "sound_reply (lr_protocols q) ?r"
    using assms(3) by (auto simp: find_Some_iff dest: nth_mem)
  ultimately show ?thesis using a by (intro exI [of _ ?r]) simp
qed

lemma request_handler_upheld:
  assumes q: "lua_request tonumber data = Some q" "\<forall>p \<in> set (lr_protocols q). is_utf8 p" "fair accept q st"
    and pending: "nt_replies (lx_native st) token = Some (h, tx)"
    and run: "request_handler accept tonumber token data server st = (e, st')"
  shows "\<exists>r. nt_answers (lx_native st') = nt_answers (lx_native st) @ [(tx, r)] \<and>
    nt_replies (lx_native st') = (nt_replies (lx_native st))(token := None) \<and>
    sound_reply (lr_protocols q) r \<and> upheld accept q server st st' r \<and> (e \<noteq> None \<longrightarrow> r = Reject 500)"
proof (cases "lx_servers st server")
  case None
  with run have "e = None" "st' = core_reply token 503 None st" by (simp_all add: request_handler_def)
  with core_reply_answered(1) [OF pending, of 503] None show ?thesis
    by (intro exI [of _ "Reject 503"]) (simp add: answered_def upheld_def)
next
  case (Some s)
  show ?thesis
  proof (cases "lv_accept (lx_objects st s)")
    case False
    with run Some q have "e = None" "st' = accept_upgrade token server s q st" by (simp_all add: request_handler_def)
    with accept_upgrade_upheld [OF pending q(2), of q server s] Some False show ?thesis
      by (auto simp: answered_def upheld_def truthy_def)
  next
    case True
    obtain said q' mid where call: "accept s q st = (said, q', mid)" by (cases "accept s q st") auto
    have mid: "nt_replies (lx_native mid) = nt_replies (lx_native st)" "nt_answers (lx_native mid) = nt_answers (lx_native st)"
      "set (lr_protocols q') \<subseteq> set (lr_protocols q)"
      using q(3) call unfolding fair_def by (auto dest!: spec [of _ s])
    have pending': "nt_replies (lx_native mid) token = Some (h, tx)" using mid pending by simp
    show ?thesis
    proof (cases "\<exists>accepted status. said = Returned accepted status \<and> truthy accepted")
      case accepted: True
      with run Some q True call have "e = None" "st' = accept_upgrade token server s q' mid"
        by (auto simp: request_handler_def)
      with accept_upgrade_upheld [OF pending' q(2) mid(3), of server s] accepted Some True call mid show ?thesis
        by (auto simp: answered_def upheld_def)
    next
      case False
      let ?status = "case said of Raised _ \<Rightarrow> 500 | Returned _ v \<Rightarrow> (case refusal_status v of None \<Rightarrow> 500 | Some x \<Rightarrow> x)"
      have st': "st' = core_reply token ?status None mid" "e \<noteq> None \<longrightarrow> ?status = 500"
        using run Some q True call False by (auto simp: request_handler_def split: accept_result.splits option.splits if_splits)
      have range: "400 \<le> ?status" "?status \<le> 599"
        by (auto split: accept_result.split option.split dest: refusal_status_range)
      show ?thesis
        using core_reply_answered(1) [OF pending' range] range st' mid Some True call False
        by (intro exI [of _ "Reject ?status"]) (auto simp: answered_def upheld_def split: accept_result.splits)
    qed
  qed
qed

text \<open>
  C36: Every upgrade request is answered exactly once, and the answer is carried out: whatever the \<open>accept\<close>
  callback does short of answering itself or adding subprotocols, the handler uses the token up
  with one answer; an acceptance makes the handshake switch protocols, with no subprotocol or one the client
  offered, and happens only while the listener exists and if the callback, when there is one, said yes; a
  refusal is sent to the client with its status from 400 to 599, which is the callback's, 403 by
  default; and an error reaches the application only along with a 500.
\<close>

theorem lua_answers_once:
  assumes asked: "handshake_head sid peer_addr secured head n slot ev = (Inr (parsed, rest, req), ev')"
    and addr: "0x0A \<notin> set (ip (up_addr req))" "0x0A \<notin> set (port (up_addr req))"
    and fair: "\<And>q. fair accept q st" and pending: "nt_replies (lx_native st) token = Some (h, tx)"
    and run: "request_handler accept tonumber token (pack ip port req) server st = (e, st')"
  shows "\<exists>q r. lua_request tonumber (pack ip port req) = Some q \<and>
    nt_answers (lx_native st') = nt_answers (lx_native st) @ [(tx, r)] \<and>
    nt_replies (lx_native st') = (nt_replies (lx_native st))(token := None) \<and>
    upheld accept q server st st' r \<and> (e \<noteq> None \<longrightarrow> r = Reject 500) \<and>
    handshake_decide sha1 (Some r) (\<lambda>_. True) (parsed, rest, req) =
      (case r of Accept p \<Rightarrow> Inr (rest, p, req) | Reject status \<Rightarrow> Inl (Some status)) \<and>
    (\<forall>status. r = Reject status \<longrightarrow> 400 \<le> status \<and> status \<le> 599)"
proof -
  obtain q where q: "lua_request tonumber (pack ip port req) = Some q" "lr_protocols q = up_protocols req"
    using lua_request_packed [OF asked, of ip port tonumber] addr by simp
  have "\<forall>p \<in> set (lr_protocols q). is_utf8 p"
    using handshake_head_cases [OF asked] request_admissible q(2)
    by (auto simp: admissible_def list_all_iff intro!: is_utf8_ascii is_token_chars(5))
  from request_handler_upheld [OF q(1) this fair pending run] obtain r where
    r: "nt_answers (lx_native st') = nt_answers (lx_native st) @ [(tx, r)]"
       "nt_replies (lx_native st') = (nt_replies (lx_native st))(token := None)"
       "sound_reply (up_protocols req) r" "upheld accept q server st st' r" "e \<noteq> None \<longrightarrow> r = Reject 500"
    unfolding q(2) by blast
  with q show ?thesis
    by (intro exI [of _ q] exI [of _ r]) (cases r; auto simp: handshake_decide_def split: option.splits)
qed

text \<open>A listener whose callback closes it and then accepts: the request is refused with 503.\<close>

definition demo_script :: lua_state where
  "demo_script = \<lparr>lx_servers = [5 \<mapsto> 0], lx_objects = (\<lambda>_. \<lparr>lv_accept = True, lv_protocols = [str ''chat'']\<rparr>), lx_fresh = 1, lx_sockets = [], lx_native = demo_native\<rparr>"

definition demo_accept :: accept_callback where
  "demo_accept s q st = (Returned (LBool True) LNil, q, st\<lparr>lx_servers := Map.empty\<rparr>)"

theorem lua_answers_once_witness:
  "\<exists>r req ev' e st'. handshake_head 1 (Some [7]) True (Some (Ok (demo_head, [1]))) 2 3 (hub_tx hub_default) = (Inr (r, [1], req), ev') \<and>
     request_handler demo_accept (\<lambda>_. Some 80) 4 (pack (\<lambda>a. a) (\<lambda>a. []) req) 5 demo_script = (e, st') \<and>
     nt_answers (lx_native st') = [(9, Reject 503)] \<and>
     handshake_decide (\<lambda>x. x) (Some (Reject 503)) (\<lambda>_. True) (r, [1], req) = Inl (Some 503)"
proof -
  obtain r req ev' where h: "handshake_head 1 (Some [7]) True (Some (Ok (demo_head, [1]))) 2 3 (hub_tx hub_default) = (Inr (r, [1], req), ev')"
    and req: "up_path req = str ''/x''" "up_addr req = [7]" "up_protocols req = [str ''chat'']" by (rule demo_asked)
  have fair: "\<And>q. fair demo_accept q demo_script" by (simp add: fair_def demo_accept_def)
  have pending: "nt_replies (lx_native demo_script) 4 = Some (1, 9)" by (simp add: demo_script_def demo_native_def)
  obtain e st' where run: "request_handler demo_accept (\<lambda>_. Some 80) 4 (pack (\<lambda>a. a) (\<lambda>a. []) req) 5 demo_script = (e, st')"
    by (cases "request_handler demo_accept (\<lambda>_. Some 80) 4 (pack (\<lambda>a. a) (\<lambda>a. []) req) 5 demo_script")
  have "0x0A \<notin> set (up_addr req)" "0x0A \<notin> set []" using req by simp_all
  from lua_answers_once [OF h this fair pending run, of "\<lambda>x. x"] obtain q d where
    q: "lua_request (\<lambda>_. Some 80) (pack (\<lambda>a. a) (\<lambda>a. []) req) = Some q" and
    d: "nt_answers (lx_native st') = [(9, d)]" "upheld demo_accept q 5 demo_script st' d"
       "handshake_decide (\<lambda>x. x) (Some d) (\<lambda>_. True) (r, [1], req) = (case d of Accept p \<Rightarrow> Inr ([1], p, req) | Reject status \<Rightarrow> Inl (Some status))"
    by (auto simp: demo_script_def demo_native_def)
  have "lx_servers st' = Map.empty"
    using run q by (auto simp: request_handler_def demo_script_def demo_accept_def accept_upgrade_def core_reply_def truthy_def
      split: prod.splits)
  with d(2) have "d = Reject 503" by (simp add: upheld_def demo_script_def demo_accept_def truthy_def)
  with h run d show ?thesis by auto
qed

subsection \<open>Listening and closing\<close>

definition listen_values :: "nat \<Rightarrow> (lua_value \<times> lua_value) list \<Rightarrow> lua_value list" where
  [ws_eval]: "listen_values hub opt =
     (let tls = lua_get opt (LStr (str ''tls'')); limits = lua_get opt (LStr (str ''limits''));
          host = lua_get opt (LStr (str ''host''))
      in [LNumber (of_nat hub), if truthy host then host else LStr (str ''0.0.0.0''), lua_get opt (LStr (str ''port'')),
          lua_field tls (str ''cert''), lua_field tls (str ''key''), lua_field limits (str ''message''),
          lua_field limits (str ''buffer''), lua_field limits (str ''connections''), lua_get opt (LStr (str ''heartbeat''))])"

text \<open>\<open>Server.listen\<close>: the error it raises, or the new object.\<close>

definition server_listen ::
  "net_env \<Rightarrow> lua_api \<Rightarrow> (bytes list \<Rightarrow> bytes list) \<Rightarrow> (lua_value \<Rightarrow> bytes) \<Rightarrow> nat \<Rightarrow> lua_value \<Rightarrow> lua_state \<Rightarrow>
   (lua_value + nat) \<times> lua_state" where
  [ws_eval]: "server_listen en api sorting tostring hub arg st =
     (case opts_check sorting tostring server_spec None
             (case arg of LTable _ \<Rightarrow> arg | LNil \<Rightarrow> LTable [] | _ \<Rightarrow> LTable [(LStr (str ''port''), arg)]) of
        Err e \<Rightarrow> (Err (LStr e), st)
      | Ok opt \<Rightarrow>
          let tls = lua_get opt (LStr (str ''tls'')) in
          if lua_get opt (LStr (str ''port'')) = LNil then (Err (LStr (str ''option 'port' is required'')), st)
          else if truthy tls \<and> \<not> (truthy (lua_field tls (str ''cert'')) \<and> truthy (lua_field tls (str ''key'')))
          then (Err (LStr (str ''options 'tls.cert' and 'tls.key' must be set together'')), st)
          else (case l_listen en api (listen_values hub opt) (lx_native st) of
                  Err _ \<Rightarrow> (Err LOther, st)
                | Ok (vs, nt) \<Rightarrow>
                    (case vs ! 0 of
                       LNumber x \<Rightarrow>
                         let i = nat \<lfloor>x\<rfloor>; s = lx_fresh st;
                             protocols = (case lua_get opt (LStr (str ''protocols'')) of LTable t \<Rightarrow> ipairs t | _ \<Rightarrow> [])
                         in (Ok s, st\<lparr>lx_native := nt, lx_fresh := s + 1, lx_servers := (lx_servers st)(i \<mapsto> s),
                              lx_objects := (lx_objects st)(s :=
                                \<lparr>lv_accept = truthy (lua_get opt (LStr (str ''accept''))),
                                 lv_protocols = map (\<lambda>v. case v of LStr p \<Rightarrow> p | _ \<Rightarrow> []) protocols\<rparr>)\<rparr>)
                     | _ \<Rightarrow> (Err (vs ! 1), st\<lparr>lx_native := nt\<rparr>))))"

definition server_clients :: "nat \<Rightarrow> lua_state \<Rightarrow> id list" where
  [ws_eval]: "server_clients s st = sort (map fst (filter (\<lambda>(_, s'). s' = Some s) (lx_sockets st)))"

definition server_close_lua :: "nat \<Rightarrow> id \<Rightarrow> nat \<Rightarrow> lua_state \<Rightarrow> lua_state" where
  [ws_eval]: "server_close_lua now i s st =
     (if lx_servers st i \<noteq> Some s then st
      else st\<lparr>lx_servers := (lx_servers st)(i := None),
              lx_native := fold (\<lambda>(c, s') nt. if s' = Some s then snd (ws_close now c 1001 None nt) else nt) (lx_sockets st)
                             (ws_unlisten i (lx_native st))\<rparr>)"

text \<open>The handler of a new connection; the server whose \<open>connection\<close> event is emitted, if any.\<close>

definition connection_handler :: "nat \<Rightarrow> id \<Rightarrow> id \<Rightarrow> lua_state \<Rightarrow> nat option \<times> lua_state" where
  [ws_eval]: "connection_handler now i server st =
     (case lx_servers st server of
        None \<Rightarrow> (None, st\<lparr>lx_native := snd (ws_close now i 1001 None (lx_native st))\<rparr>)
      | Some s \<Rightarrow> (Some s, st\<lparr>lx_sockets := filter (\<lambda>(c, _). c \<noteq> i) (lx_sockets st) @ [(i, Some s)]\<rparr>))"

text \<open>The handler of a close event forgets the socket before it tells the listeners.\<close>

definition close_handler :: "id \<Rightarrow> lua_state \<Rightarrow> bool \<times> lua_state" where
  [ws_eval]: "close_handler i st =
     (i \<in> fst ` set (lx_sockets st), st\<lparr>lx_sockets := filter (\<lambda>(c, _). c \<noteq> i) (lx_sockets st)\<rparr>)"

text \<open>A socket is one of its server's clients from its connection event until its close event.\<close>

lemma clients_connection:
  "connection_handler now i server st = (Some s, st') \<Longrightarrow> set (server_clients s st') = insert i (set (server_clients s st))"
  by (force simp: connection_handler_def server_clients_def split: option.splits)

lemma clients_close: "set (server_clients s (snd (close_handler i st))) = set (server_clients s st) - {i}"
  by (force simp: close_handler_def server_clients_def)

text \<open>A closed server accepts nothing any more: a request that still arrives is refused with 503, a connection closed.\<close>

lemma closed_server_refuses:
  assumes "lx_servers st i = Some s"
  shows "request_handler accept tonumber token data i (server_close_lua now i s st) =
      (None, core_reply token 503 None (server_close_lua now i s st))"
    and "fst (connection_handler now' c i (server_close_lua now i s st)) = None"
  using assms by (simp_all add: request_handler_def connection_handler_def server_close_lua_def)

end
