(* ===== verification/Script_Timer.thy ===== *)
theory Script_Timer
  imports Complex_Main Ws_Prelude "HOL-Library.Multiset" "HOL-Library.Sublist"
begin

text \<open>
  The timers of the Lua event loop (\<open>ws/timer.lua\<close>).  A timer is an object of the store \<open>tq_objects\<close>,
  named by a number; the list \<open>timers\<close> holds names.  The callbacks are an argument: they may start, cancel and
  change timers, let time pass, and raise an error, so a callback maps a state to a state with the error, if any, and
  \<open>tq_calls\<close> records which ran.
  \<open>core.now\<close> reads \<open>tq_clock\<close>.  \<open>table.sort\<close> is an argument too, of which only what the Lua manual says is used.
\<close>

record lua_timer =
  tr_due :: rat
  tr_every :: "rat option"
  tr_live :: bool

record timer_state =
  tq_timers :: "nat list"
  tq_objects :: "nat \<Rightarrow> lua_timer"
  tq_fresh :: nat
  tq_clock :: rat
  tq_calls :: "nat list"

definition timer_cancel :: "nat \<Rightarrow> timer_state \<Rightarrow> timer_state" where
  [ws_eval]: "timer_cancel t st = st\<lparr>tq_objects := (tq_objects st)(t := (tq_objects st t)\<lparr>tr_live := False\<rparr>)\<rparr>"

text \<open>\<open>start\<close>: the delay is \<open>None\<close> if it is no finite number, \<open>fn\<close> tells whether the callback is a function.\<close>

definition timer_start :: "rat option \<Rightarrow> bool \<Rightarrow> bool \<Rightarrow> timer_state \<Rightarrow> bytes + nat \<times> timer_state" where
  [ws_eval]: "timer_start delay fn every st =
     (case delay of
        Some d \<Rightarrow>
          if d < 0 \<or> every \<and> d = 0
          then Err (if every then str ''interval must be a positive number of seconds''
                    else str ''delay must be a non-negative number of seconds'')
          else if \<not> fn then Err (str ''callback must be a function'')
          else Ok (tq_fresh st,
            st\<lparr>tq_timers := tq_timers st @ [tq_fresh st], tq_fresh := tq_fresh st + 1,
               tq_objects := (tq_objects st)(tq_fresh st :=
                 \<lparr>tr_due = tq_clock st + d, tr_every = (if every then Some d else None), tr_live = True\<rparr>)\<rparr>)
      | None \<Rightarrow> Err (if every then str ''interval must be a positive number of seconds''
                    else str ''delay must be a non-negative number of seconds''))"

abbreviation live :: "timer_state \<Rightarrow> nat \<Rightarrow> bool" where
  "live st t \<equiv> tr_live (tq_objects st t)"

definition timer_prune :: "timer_state \<Rightarrow> timer_state" where
  [ws_eval]: "timer_prune st = st\<lparr>tq_timers := filter (live st) (tq_timers st)\<rparr>"

definition timer_pending :: "timer_state \<Rightarrow> bool \<times> timer_state" where
  [ws_eval]: "timer_pending st = (tq_timers (timer_prune st) \<noteq> [], timer_prune st)"

fun soonest :: "timer_state \<Rightarrow> rat option \<Rightarrow> nat list \<Rightarrow> rat option" where
  "soonest st best [] = best"
| "soonest st best (t # ts) =
     soonest st (if live st t \<and> (case best of None \<Rightarrow> True | Some b \<Rightarrow> tr_due (tq_objects st t) < b)
                 then Some (tr_due (tq_objects st t)) else best) ts"

definition timer_wait :: "timer_state \<Rightarrow> rat option" where
  [ws_eval]: "timer_wait st = map_option (\<lambda>s. max 0 (s - tq_clock st)) (soonest st None (tq_timers st))"

text \<open>One timer of the list \<open>due\<close>, the loop over the list, which an error leaves, and \<open>fire\<close>.\<close>

type_synonym 'e callback = "nat \<Rightarrow> timer_state \<Rightarrow> 'e option \<times> timer_state"

definition timer_run :: "'e callback \<Rightarrow> nat \<Rightarrow> timer_state \<Rightarrow> 'e option \<times> timer_state" where
  [ws_eval]: "timer_run fn t st =
     (if live st t then
        let o1 = tq_objects st t;
            o2 = (case tr_every o1 of Some e \<Rightarrow> o1\<lparr>tr_due := tq_clock st + e\<rparr> | None \<Rightarrow> o1\<lparr>tr_live := False\<rparr>)
        in fn t (st\<lparr>tq_objects := (tq_objects st)(t := o2), tq_calls := tq_calls st @ [t]\<rparr>)
      else (None, st))"

fun timer_runs :: "'e callback \<Rightarrow> nat list \<Rightarrow> timer_state \<Rightarrow> 'e option \<times> timer_state" where
  "timer_runs fn [] st = (None, st)"
| "timer_runs fn (t # ts) st =
     (case timer_run fn t st of (Some e, st) \<Rightarrow> (Some e, st) | (None, st) \<Rightarrow> timer_runs fn ts st)"

definition timer_due :: "timer_state \<Rightarrow> nat list" where
  [ws_eval]: "timer_due st = filter (\<lambda>t. live st t \<and> tr_due (tq_objects st t) \<le> tq_clock st) (tq_timers st)"

definition timer_fire ::
  "((nat \<Rightarrow> rat) \<Rightarrow> nat list \<Rightarrow> nat list) \<Rightarrow> 'e callback \<Rightarrow> timer_state \<Rightarrow> 'e option \<times> timer_state" where
  [ws_eval]: "timer_fire sorting fn st =
     (case timer_runs fn (sorting (\<lambda>t. tr_due (tq_objects st t)) (timer_due st)) st of
        (Some e, st) \<Rightarrow> (Some e, st)
      | (None, st) \<Rightarrow> (None, timer_prune st))"

subsection \<open>Sleeping\<close>

lemma soonest_le:
  "soonest st best ts = None \<longleftrightarrow> best = None \<and> (\<forall>t \<in> set ts. \<not> live st t)"
  "soonest st best ts = Some s \<Longrightarrow>
    (\<forall>b. best = Some b \<longrightarrow> s \<le> b) \<and> (\<forall>t \<in> set ts. live st t \<longrightarrow> s \<le> tr_due (tq_objects st t)) \<and>
    (best = Some s \<or> (\<exists>t \<in> set ts. live st t \<and> s = tr_due (tq_objects st t)))"
proof (induction ts arbitrary: best)
  case (Cons t ts)
  { case 1 show ?case using Cons(1) by (auto split: option.splits) }
  { case 2
    let ?b = "if live st t \<and> (case best of None \<Rightarrow> True | Some b \<Rightarrow> tr_due (tq_objects st t) < b)
              then Some (tr_due (tq_objects st t)) else best"
    from 2 have "soonest st ?b ts = Some s" by simp
    from Cons(2) [OF this] show ?case by (cases best) (auto split: if_splits) }
qed auto

text \<open>
  The loop never sleeps past a timer, and a live timer is due when it wakes; it sleeps for good only
  without live timers.
\<close>

lemma timer_wait_exact:
  "timer_wait st = None \<longleftrightarrow> (\<forall>t \<in> set (tq_timers st). \<not> live st t)"
  "timer_wait st = Some w \<Longrightarrow>
    0 \<le> w \<and> (\<forall>t \<in> set (tq_timers st). live st t \<longrightarrow> 0 < w \<longrightarrow> tq_clock st + w \<le> tr_due (tq_objects st t)) \<and>
    (\<exists>t \<in> set (tq_timers st). live st t \<and> tr_due (tq_objects st t) \<le> tq_clock st + w)"
proof -
  show "timer_wait st = None \<longleftrightarrow> (\<forall>t \<in> set (tq_timers st). \<not> live st t)" by (simp add: timer_wait_def soonest_le)
  assume "timer_wait st = Some w"
  then obtain s where s: "soonest st None (tq_timers st) = Some s" "w = max 0 (s - tq_clock st)"
    by (auto simp: timer_wait_def)
  from soonest_le(2) [OF s(1)] s(2)
  show "0 \<le> w \<and> (\<forall>t \<in> set (tq_timers st). live st t \<longrightarrow> 0 < w \<longrightarrow> tq_clock st + w \<le> tr_due (tq_objects st t)) \<and>
    (\<exists>t \<in> set (tq_timers st). live st t \<and> tr_due (tq_objects st t) \<le> tq_clock st + w)"
    by (auto simp: max_def split: if_splits)
qed

subsection \<open>Firing\<close>

text \<open>What the Lua manual says of \<open>table.sort\<close>: it reorders, and the keys then ascend.\<close>

definition sorts :: "((nat \<Rightarrow> rat) \<Rightarrow> nat list \<Rightarrow> nat list) \<Rightarrow> bool" where
  "sorts sorting \<longleftrightarrow> (\<forall>k xs. mset (sorting k xs) = mset xs \<and> sorted (map k (sorting k xs)))"

text \<open>
  Callbacks do not touch the record of the calls; those that leave timers alone neither change one of the given ones
  nor drop it from the list.
\<close>

definition recorded :: "'e callback \<Rightarrow> bool" where
  "recorded fn \<longleftrightarrow> (\<forall>t s. tq_calls (snd (fn t s)) = tq_calls s)"

definition leaves :: "nat set \<Rightarrow> 'e callback \<Rightarrow> bool" where
  "leaves U fn \<longleftrightarrow> (\<forall>t s. \<forall>u \<in> U. tq_objects (snd (fn t s)) u = tq_objects s u \<and>
     (u \<in> set (tq_timers (snd (fn t s))) \<longleftrightarrow> u \<in> set (tq_timers s)))"

lemma timer_run_cases:
  assumes "recorded fn"
  obtains "\<not> live st t" "timer_run fn t st = (None, st)"
  | s where "live st t" "timer_run fn t st = fn t s" "tq_calls (snd (timer_run fn t st)) = tq_calls st @ [t]"
  using assms by (cases "live st t") (auto simp: timer_run_def recorded_def Let_def)

text \<open>Whatever the callbacks do: what runs is a part of the list in its order, and only the last one can have raised.\<close>

lemma timer_runs_calls:
  assumes "recorded fn"
  shows "timer_runs fn ts st = (err, st') \<Longrightarrow> \<exists>ran. tq_calls st' = tq_calls st @ ran \<and> subseq ran ts \<and>
    (\<forall>e. err = Some e \<longrightarrow> ran \<noteq> [] \<and> (\<exists>s. fst (fn (last ran) s) = Some e))"
proof (induction ts arbitrary: st)
  case Nil
  then show ?case by simp
next
  case (Cons t ts)
  obtain e s where step: "timer_run fn t st = (e, s)" by (cases "timer_run fn t st")
  show ?case
  proof (cases e)
    case (Some x)
    with Cons.prems step have r: "err = Some x" "st' = s" by simp_all
    from assms show ?thesis
    proof (cases rule: timer_run_cases [of fn st t])
      case (2 s')
      with step r Some have "tq_calls st' = tq_calls st @ [t]" "fst (fn t s') = Some x" by (simp_all add: prod_eq_iff)
      with r(1) show ?thesis by (intro exI [of _ "[t]"]) auto
    qed (use step Some in simp)
  next
    case None
    with Cons.prems step have "timer_runs fn ts s = (err, st')" by simp
    from Cons.IH [OF this] obtain ran where
      ran: "tq_calls st' = tq_calls s @ ran" "subseq ran ts"
        "\<forall>e. err = Some e \<longrightarrow> ran \<noteq> [] \<and> (\<exists>s. fst (fn (last ran) s) = Some e)" by blast
    from assms show ?thesis
    proof (cases rule: timer_run_cases [of fn st t])
      case 1
      with step ran show ?thesis by (intro exI [of _ ran]) (auto intro: subseq_Cons')
    next
      case (2 s')
      with step ran show ?thesis by (intro exI [of _ "t # ran"]) auto
    qed
  qed
qed

lemma timer_run_leaves:
  assumes "leaves U fn" "t \<in> U" "live st t" "timer_run fn t st = (e, st')"
  shows "u \<in> U \<Longrightarrow> u \<noteq> t \<Longrightarrow> tq_objects st' u = tq_objects st u"
    and "tr_every (tq_objects st t) = None \<Longrightarrow> \<not> live st' t"
    and "u \<in> U \<Longrightarrow> u \<in> set (tq_timers st') \<longleftrightarrow> u \<in> set (tq_timers st)"
proof -
  define o2 where "o2 = (case tr_every (tq_objects st t) of Some e \<Rightarrow> (tq_objects st t)\<lparr>tr_due := tq_clock st + e\<rparr>
    | None \<Rightarrow> (tq_objects st t)\<lparr>tr_live := False\<rparr>)"
  define s where "s = st\<lparr>tq_objects := (tq_objects st)(t := o2), tq_calls := tq_calls st @ [t]\<rparr>"
  have "st' = snd (fn t s)" using assms(3,4) by (simp add: timer_run_def o2_def s_def Let_def)
  then have s': "tq_objects st' u = tq_objects s u" "u \<in> set (tq_timers st') \<longleftrightarrow> u \<in> set (tq_timers s)" if "u \<in> U" for u
    using assms(1) that by (auto simp: leaves_def)
  show "u \<in> U \<Longrightarrow> u \<noteq> t \<Longrightarrow> tq_objects st' u = tq_objects st u" using s' by (simp add: s_def)
  show "tr_every (tq_objects st t) = None \<Longrightarrow> \<not> live st' t" using s'(1) [OF assms(2)] by (simp add: s_def o2_def)
  show "u \<in> U \<Longrightarrow> u \<in> set (tq_timers st') \<longleftrightarrow> u \<in> set (tq_timers st)" using s'(2) by (simp add: s_def)
qed

text \<open>When the callbacks leave the timers alone, all run, or all up to the one that raised.\<close>

lemma timer_runs_all:
  assumes "leaves U fn" "recorded fn"
  shows "\<lbrakk>timer_runs fn ts st = (err, st'); set ts \<subseteq> U; distinct ts; \<forall>t \<in> set ts. live st t\<rbrakk> \<Longrightarrow>
    \<exists>ran rest. ts = ran @ rest \<and> tq_calls st' = tq_calls st @ ran \<and> (err = None \<longrightarrow> rest = []) \<and>
      (\<forall>u \<in> U - set ran. tq_objects st' u = tq_objects st u) \<and>
      (\<forall>t \<in> set ran. tr_every (tq_objects st t) = None \<longrightarrow> \<not> live st' t) \<and>
      (\<forall>u \<in> U. u \<in> set (tq_timers st') \<longleftrightarrow> u \<in> set (tq_timers st))"
proof (induction ts arbitrary: st)
  case Nil
  then show ?case by simp
next
  case (Cons t ts)
  from Cons.prems have t: "t \<in> U" "live st t" "t \<notin> set ts" "set ts \<subseteq> U" "distinct ts" by auto
  obtain e s where step: "timer_run fn t st = (e, s)" by (cases "timer_run fn t st")
  have calls: "tq_calls s = tq_calls st @ [t]" using step t(2) by (cases rule: timer_run_cases [OF assms(2), of st t]) simp_all
  note left = timer_run_leaves [OF assms(1) t(1,2) step]
  show ?case
  proof (cases e)
    case (Some x)
    with Cons.prems(1) step have r: "err = Some x" "st' = s" by simp_all
    have "\<forall>u \<in> U - set [t]. tq_objects st' u = tq_objects st u" using left(1) r(2) by simp
    then show ?thesis using left calls r by (intro exI [of _ "[t]"] exI [of _ ts]) auto
  next
    case None
    with Cons.prems(1) step have run: "timer_runs fn ts s = (err, st')" by simp
    have others: "tq_objects s u = tq_objects st u" if "u \<in> set ts" for u using left(1) that t by blast
    then have "\<forall>u \<in> set ts. live s u" using Cons.prems by simp
    from Cons.IH [OF run t(4,5) this] obtain ran rest where
      r: "ts = ran @ rest" "tq_calls st' = tq_calls s @ ran" "err = None \<longrightarrow> rest = []"
      and o: "\<forall>u \<in> U - set ran. tq_objects st' u = tq_objects s u"
        "\<forall>u \<in> set ran. tr_every (tq_objects s u) = None \<longrightarrow> \<not> live st' u"
      and l: "\<forall>u \<in> U. u \<in> set (tq_timers st') \<longleftrightarrow> u \<in> set (tq_timers s)" by blast
    have same: "\<forall>u \<in> U - set (t # ran). tq_objects st' u = tq_objects st u" using o(1) left(1) by simp
    have "tq_objects st' t = tq_objects s t" using o(1) t(1,3) r(1) by simp
    then have one: "tr_every (tq_objects st t) = None \<longrightarrow> \<not> live st' t" using left(2) by simp
    have "\<forall>u \<in> set (t # ran). tr_every (tq_objects st u) = None \<longrightarrow> \<not> live st' u"
    proof
      fix u
      assume "u \<in> set (t # ran)"
      then show "tr_every (tq_objects st u) = None \<longrightarrow> \<not> live st' u" using one o(2) others r(1) by auto
    qed
    moreover have "\<forall>u \<in> U. u \<in> set (tq_timers st') \<longleftrightarrow> u \<in> set (tq_timers st)" using l left(3) by simp
    ultimately show ?thesis using r calls same
      by (intro exI [of _ "t # ran"] exI [of _ rest] conjI) simp_all
  qed
qed

text \<open>
  C40: Firing runs timers at most once and in order, whatever the callbacks do to each other's timers and whether or not
  they raise: the ones that run were live and due when it began, no one runs twice, they run by the time they were
  due, and an error that comes out was raised by the last one that ran.  If the callbacks leave the existing timers
  alone, every due timer runs, unless one raises: then those that did not run are due no earlier than
  those that did, and stay in the list as they were, so they are due again at the next firing; a one-shot
  timer that ran is no longer live, and without an error it is gone from the list.
\<close>

theorem timer_fire_order:
  assumes "sorts sorting" "recorded fn" "distinct (tq_timers st)" "timer_fire sorting fn st = (err, st')"
  shows "\<exists>ran. tq_calls st' = tq_calls st @ ran \<and> distinct ran \<and>
    sorted (map (\<lambda>t. tr_due (tq_objects st t)) ran) \<and>
    (\<forall>t \<in> set ran. t \<in> set (tq_timers st) \<and> live st t \<and> tr_due (tq_objects st t) \<le> tq_clock st) \<and>
    (\<forall>e. err = Some e \<longrightarrow> ran \<noteq> [] \<and> (\<exists>s. fst (fn (last ran) s) = Some e)) \<and>
    (leaves (set (tq_timers st)) fn \<longrightarrow>
      (\<forall>t \<in> set (tq_timers st). live st t \<and> tr_due (tq_objects st t) \<le> tq_clock st \<longrightarrow>
         (if t \<in> set ran
          then tr_every (tq_objects st t) = None \<longrightarrow> \<not> live st' t \<and> (err = None \<longrightarrow> t \<notin> set (tq_timers st'))
          else err \<noteq> None \<and> t \<in> set (tq_timers st') \<and> tq_objects st' t = tq_objects st t \<and>
            (\<forall>u \<in> set ran. tr_due (tq_objects st u) \<le> tr_due (tq_objects st t)))))"
proof -
  let ?k = "\<lambda>t. tr_due (tq_objects st t)"
  let ?ts = "sorting ?k (timer_due st)"
  have ms: "mset ?ts = mset (timer_due st)" and so: "sorted (map ?k ?ts)" using assms(1) by (auto simp: sorts_def)
  have set: "set ?ts = set (timer_due st)" using mset_eq_setD [OF ms] .
  have dist: "distinct ?ts" using mset_eq_imp_distinct_iff [OF ms] assms(3) by (simp add: timer_due_def)
  obtain s where s: "timer_runs fn ?ts st = (err, s)" "st' = (if err = None then timer_prune s else s)"
    using assms(4) by (auto simp: timer_fire_def split: prod.splits option.splits)
  then have st': "tq_calls st' = tq_calls s" "tq_objects st' = tq_objects s"
    "err \<noteq> None \<Longrightarrow> tq_timers st' = tq_timers s" "err = None \<Longrightarrow> tq_timers st' = filter (live s) (tq_timers s)"
    by (auto simp: timer_prune_def)
  obtain ran where ran: "tq_calls s = tq_calls st @ ran" "subseq ran ?ts"
    "\<forall>e. err = Some e \<longrightarrow> ran \<noteq> [] \<and> (\<exists>s. fst (fn (last ran) s) = Some e)"
    using timer_runs_calls [OF assms(2) s(1)] by blast
  obtain N where N: "ran = nths ?ts N" using ran(2) by (auto simp: subseq_conv_nths)
  have "distinct ran" unfolding N using dist by (rule distinct_nthsI)
  moreover have "sorted (map ?k ran)" unfolding N nths_map [symmetric] using so by (rule sorted_nths)
  moreover have "set ran \<subseteq> set (timer_due st)" unfolding N set [symmetric] by (rule set_nths_subset)
  moreover have "if t \<in> set ran
      then tr_every (tq_objects st t) = None \<longrightarrow> \<not> live st' t \<and> (err = None \<longrightarrow> t \<notin> set (tq_timers st'))
      else err \<noteq> None \<and> t \<in> set (tq_timers st') \<and> tq_objects st' t = tq_objects st t \<and> (\<forall>u \<in> set ran. ?k u \<le> ?k t)"
    if leaves: "leaves (set (tq_timers st)) fn" and t: "t \<in> set (timer_due st)" for t
  proof -
    have in_list: "set ?ts \<subseteq> set (tq_timers st)" "\<forall>t \<in> set ?ts. live st t" unfolding set by (auto simp: timer_due_def)
    from timer_runs_all [OF leaves assms(2) s(1) in_list(1) dist in_list(2)] obtain ran' rest where
      r: "?ts = ran' @ rest" "tq_calls s = tq_calls st @ ran'" "err = None \<longrightarrow> rest = []"
      and o: "\<forall>u \<in> set (tq_timers st) - set ran'. tq_objects s u = tq_objects st u"
        "\<forall>t \<in> set ran'. tr_every (tq_objects st t) = None \<longrightarrow> \<not> live s t"
      and l: "\<forall>u \<in> set (tq_timers st). u \<in> set (tq_timers s) \<longleftrightarrow> u \<in> set (tq_timers st)" by blast
    have same: "ran' = ran" using r(2) ran(1) by simp
    have "t \<in> set ran \<or> t \<in> set rest" using t r(1) unfolding set [symmetric] same by simp
    moreover have "\<forall>u \<in> set ran. \<forall>v \<in> set rest. ?k u \<le> ?k v" using so unfolding r(1) same by (simp add: sorted_append)
    moreover have "t \<in> set (tq_timers st)" using t by (simp add: timer_due_def)
    ultimately show ?thesis using o l r(3) st' unfolding same by auto
  qed
  ultimately show ?thesis using ran(1,3) st'(1)
    by (intro exI [of _ ran]) (auto simp: timer_due_def)
qed

text \<open>Three timers: a repeating one due at 2, a one-shot one due at 1, and one that is not due yet.\<close>

definition demo_timers :: timer_state where
  "demo_timers = \<lparr>tq_timers = [0, 1, 2], tq_objects = (\<lambda>t. if t = 0 then \<lparr>tr_due = 2, tr_every = Some 5, tr_live = True\<rparr>
       else if t = 1 then \<lparr>tr_due = 1, tr_every = None, tr_live = True\<rparr> else \<lparr>tr_due = 9, tr_every = None, tr_live = True\<rparr>),
     tq_fresh = 3, tq_clock = 3, tq_calls = []\<rparr>"

text \<open>The first timer to run raises, so the second one does not run and is left as it was.\<close>

theorem timer_fire_order_witness:
  "\<exists>st'. timer_fire (\<lambda>k xs. sort_key k xs) (\<lambda>t s. (if t = 1 then Some () else None, s)) demo_timers = (Some (), st') \<and>
     0 \<notin> set (tq_calls st') \<and> 0 \<in> set (tq_timers st') \<and> tq_objects st' 0 = tq_objects demo_timers 0"
proof -
  let ?fn = "\<lambda>t s. (if t = (1 :: nat) then Some () else None, s :: timer_state)"
  have s: "sorts (\<lambda>k xs. sort_key k xs)" "recorded ?fn" "distinct (tq_timers demo_timers)"
    by (simp_all add: sorts_def recorded_def demo_timers_def)
  obtain st' where fire: "timer_fire (\<lambda>k xs. sort_key k xs) ?fn demo_timers = (Some (), st')" "tq_calls st' = [1]"
    by (simp add: timer_fire_def timer_due_def timer_run_def demo_timers_def)
  from timer_fire_order [OF s fire(1)] obtain ran where
    ran: "tq_calls st' = tq_calls demo_timers @ ran"
    and all: "leaves (set (tq_timers demo_timers)) ?fn \<longrightarrow>
      (\<forall>t \<in> set (tq_timers demo_timers). live demo_timers t \<and> tr_due (tq_objects demo_timers t) \<le> tq_clock demo_timers \<longrightarrow>
         (if t \<in> set ran
          then tr_every (tq_objects demo_timers t) = None \<longrightarrow> \<not> live st' t \<and> (Some () = None \<longrightarrow> t \<notin> set (tq_timers st'))
          else Some () \<noteq> None \<and> t \<in> set (tq_timers st') \<and> tq_objects st' t = tq_objects demo_timers t \<and>
            (\<forall>u \<in> set ran. tr_due (tq_objects demo_timers u) \<le> tr_due (tq_objects demo_timers t))))" by blast
  have "leaves (set (tq_timers demo_timers)) ?fn" by (simp add: leaves_def)
  moreover have "ran = [1]" using ran fire(2) by (simp add: demo_timers_def)
  moreover have "0 \<in> set (tq_timers demo_timers)" "live demo_timers 0" "tr_due (tq_objects demo_timers 0) \<le> tq_clock demo_timers"
    by (simp_all add: demo_timers_def)
  ultimately have "0 \<in> set (tq_timers st') \<and> tq_objects st' 0 = tq_objects demo_timers 0" using all by auto
  with fire show ?thesis by (intro exI [of _ st']) simp
qed

end
