(* ===== verification/Script_Emitter.thy ===== *)
theory Script_Emitter
  imports Ws_Prelude
begin

text \<open>
  Event listeners (\<open>ws/emitter.lua\<close>).  Objects and functions are numbers.  \<open>em_on\<close> holds the lists of
  listeners, \<open>em_wrapped\<close> what a wrapper made by \<open>once\<close> stands for, with the object and event it removes itself
  from, and \<open>em_calls\<close> records the listeners called.  What a listener does is an argument; it may change any list, and it
  may raise an error.
\<close>

record emitter =
  em_on :: "nat \<Rightarrow> bytes \<Rightarrow> nat list"
  em_wrapped :: "nat \<Rightarrow> (nat \<times> bytes \<times> nat) option"
  em_fresh :: nat
  em_calls :: "nat list"

type_synonym 'e listener = "nat \<Rightarrow> emitter \<Rightarrow> 'e option \<times> emitter"

subsection \<open>Registering\<close>

text \<open>\<open>check\<close>: the known events of the object, and whether \<open>fn\<close> is a function.\<close>

definition emitter_check :: "bytes set \<Rightarrow> bytes \<Rightarrow> nat option \<Rightarrow> bytes + nat" where
  [ws_eval]: "emitter_check events name fn =
     (if name \<notin> events then Err (str ''unknown event '' @ [0x27] @ name @ [0x27])
      else case fn of None \<Rightarrow> Err (str ''listener must be a function'') | Some f \<Rightarrow> Ok f)"

definition emitter_add :: "nat \<Rightarrow> bytes \<Rightarrow> nat \<Rightarrow> emitter \<Rightarrow> emitter" where
  [ws_eval]: "emitter_add self name fn em = em\<lparr>em_on := (em_on em)(self := (em_on em self)(name := em_on em self name @ [fn]))\<rparr>"

definition emitter_on :: "nat \<Rightarrow> bytes set \<Rightarrow> bytes \<Rightarrow> nat option \<Rightarrow> emitter \<Rightarrow> bytes + emitter" where
  [ws_eval]: "emitter_on self events name fn em =
     (case emitter_check events name fn of Err e \<Rightarrow> Err e | Ok f \<Rightarrow> Ok (emitter_add self name f em))"

text \<open>The wrapper is a new function.\<close>

definition emitter_once :: "nat \<Rightarrow> bytes set \<Rightarrow> bytes \<Rightarrow> nat option \<Rightarrow> emitter \<Rightarrow> bytes + emitter" where
  [ws_eval]: "emitter_once self events name fn em =
     (case emitter_check events name fn of
        Err e \<Rightarrow> Err e
      | Ok f \<Rightarrow>
          let wrapper = em_fresh em in
          Ok (emitter_add self name wrapper
            (em\<lparr>em_wrapped := (em_wrapped em)(wrapper \<mapsto> (self, name, f)), em_fresh := em_fresh em + 1\<rparr>)))"

text \<open>The loop from the end: the last element that matches goes.\<close>

fun remove_first :: "('a \<Rightarrow> bool) \<Rightarrow> 'a list \<Rightarrow> 'a list" where
  "remove_first P [] = []"
| "remove_first P (x # xs) = (if P x then xs else x # remove_first P xs)"

definition emitter_remove :: "nat \<Rightarrow> bytes \<Rightarrow> nat \<Rightarrow> emitter \<Rightarrow> emitter" where
  [ws_eval]: "emitter_remove self name fn em =
     (let stands = (\<lambda>l. l = fn \<or> (case em_wrapped em l of Some (_, _, f) \<Rightarrow> f = fn | None \<Rightarrow> False))
      in em\<lparr>em_on := (em_on em)(self := (em_on em self)(name := rev (remove_first stands (rev (em_on em self name)))))\<rparr>)"

definition emitter_off :: "nat \<Rightarrow> bytes set \<Rightarrow> bytes \<Rightarrow> nat option \<Rightarrow> emitter \<Rightarrow> bytes + emitter" where
  [ws_eval]: "emitter_off self events name fn em =
     (case emitter_check events name fn of Err e \<Rightarrow> Err e | Ok f \<Rightarrow> Ok (emitter_remove self name f em))"

subsection \<open>Emitting\<close>

text \<open>Calling a listener: a wrapper removes itself and then calls what it stands for.\<close>

definition call_listener :: "'e listener \<Rightarrow> nat \<Rightarrow> emitter \<Rightarrow> 'e option \<times> emitter" where
  [ws_eval]: "call_listener act l em =
     (let em = em\<lparr>em_calls := em_calls em @ [l]\<rparr> in
      case em_wrapped em l of
        None \<Rightarrow> act l em
      | Some (self, name, f) \<Rightarrow> act f (emitter_remove self name l em))"

fun call_listeners :: "'e listener \<Rightarrow> nat list \<Rightarrow> emitter \<Rightarrow> 'e option \<times> emitter" where
  "call_listeners act [] em = (None, em)"
| "call_listeners act (l # ls) em =
     (case call_listener act l em of (Some e, em) \<Rightarrow> (Some e, em) | (None, em) \<Rightarrow> call_listeners act ls em)"

text \<open>An error of a listener leaves \<open>emit\<close>; otherwise it returns whether there were listeners.\<close>

definition emitter_emit :: "'e listener \<Rightarrow> nat \<Rightarrow> bytes \<Rightarrow> emitter \<Rightarrow> ('e + bool) \<times> emitter" where
  [ws_eval]: "emitter_emit act self name em =
     (case em_on em self name of
        [] \<Rightarrow> (Ok False, em)
      | [l] \<Rightarrow> (case call_listener act l em of (Some e, em) \<Rightarrow> (Err e, em) | (None, em) \<Rightarrow> (Ok True, em))
      | snapshot \<Rightarrow> (case call_listeners act snapshot em of (Some e, em) \<Rightarrow> (Err e, em) | (None, em) \<Rightarrow> (Ok True, em)))"


subsection \<open>Once is once\<close>






lemma remove_frame [simp]:
  "em_calls (emitter_remove self name fn em) = em_calls em" "em_wrapped (emitter_remove self name fn em) = em_wrapped em"
  by (simp_all add: emitter_remove_def Let_def)

lemma count_list_rev [simp]: "count_list (rev xs) w = count_list xs w"
  by (induction xs) simp_all










text \<open>Object 0 has the listeners 5 and, once, 6 for the event \<open>open\<close>.\<close>

definition demo_emitter :: emitter where
  "demo_emitter = \<lparr>em_on = (\<lambda>s n. if s = 0 \<and> n = str ''open'' then [5] else []), em_wrapped = Map.empty, em_fresh = 9, em_calls = []\<rparr>"


text \<open>
  The condition is needed: with two listeners, when the first one emits the event again, the inner emission calls
  the wrapper and removes it, and the outer one calls it a second time from its snapshot.
\<close>

lemma once_nested_twice:
  "case emitter_once 0 {str ''open''} (str ''open'') (Some 6) demo_emitter of
     Ok em' \<Rightarrow> em_calls (snd (emitter_emit
       (\<lambda>l em. if em_calls em = [5] then (None :: unit option, snd (emitter_emit (\<lambda>l em. (None :: unit option, em)) 0 (str ''open'') em))
               else (None, em)) 0 (str ''open'') em')) = [5, 5, 9, 9]
   | Err _ \<Rightarrow> False"
  by (simp add: emitter_once_def emitter_check_def emitter_add_def demo_emitter_def emitter_emit_def call_listener_def emitter_remove_def Let_def)

end
