(* ===== verification/Script_Loop.thy ===== *)
theory Script_Loop
  imports Lua
begin

text \<open>
  The event loop (\<open>ws/loop.lua\<close>) and the state of a socket that a script sees (\<open>ws/socket.lua\<close>).

  The loop is a function of what it calls: firing the timers and the time until the next one, whether anything is
  active, the wait for an event, and the handler of an event.  Handlers and timers may raise an error, which is the first part of
  their result.
\<close>

subsection \<open>The state of a socket\<close>

text \<open>\<open>registered\<close> tells whether the loop still knows the socket, \<open>native\<close> is the state of the connection.\<close>

definition socket_state :: "bool \<Rightarrow> bytes \<Rightarrow> bool \<Rightarrow> bytes" where
  [ws_eval]: "socket_state registered native opened =
     (if \<not> registered then str ''closed''
      else if native = str ''closed'' then str ''closing''
      else if native = str ''open'' \<and> \<not> opened then str ''connecting''
      else native)"

text \<open>The position of a state in the life of a connection.\<close>

definition state_rank :: "bytes \<Rightarrow> nat" where
  "state_rank s = (if s = str ''connecting'' then 0 else if s = str ''open'' then 1 else if s = str ''closing'' then 2 else 3)"

lemma state_names:
  "str ''open'' \<noteq> str ''connecting''" "str ''closing'' \<noteq> str ''connecting''" "str ''closed'' \<noteq> str ''connecting''"
  "str ''closing'' \<noteq> str ''open''" "str ''closed'' \<noteq> str ''open''" "str ''closed'' \<noteq> str ''closing''"
  by (simp_all add: str_def)

text \<open>
  What a script sees never goes back, as long as the connection does not; it sees \<open>closed\<close> exactly once the close
  event was handled, and \<open>open\<close> only after the open event.
\<close>

lemma socket_state_forward:
  assumes "native \<in> {str ''connecting'', str ''open'', str ''closing'', str ''closed''}"
    "native' \<in> {str ''connecting'', str ''open'', str ''closing'', str ''closed''}"
    "state_rank native \<le> state_rank native'" "opened \<longrightarrow> opened'" "registered' \<longrightarrow> registered"
  shows "state_rank (socket_state registered native opened) \<le> state_rank (socket_state registered' native' opened')"
  using assms state_names by (auto simp: socket_state_def state_rank_def)

lemma socket_state_closed:
  "native \<in> {str ''connecting'', str ''open'', str ''closing'', str ''closed''} \<Longrightarrow>
     (socket_state registered native opened = str ''closed'' \<longleftrightarrow> \<not> registered) \<and>
     (socket_state registered native opened = str ''open'' \<longrightarrow> opened)"
  using state_names by (auto simp: socket_state_def)

subsection \<open>The loop\<close>

definition BATCH :: nat where [ws_eval]: "BATCH = 256"

record ('s, 'ev) loop_calls =
  lo_fire :: "'s \<Rightarrow> lua_value option \<times> 's"
  lo_active :: "'s \<Rightarrow> bool \<times> 's"
  lo_timer :: "'s \<Rightarrow> rat option"
  lo_wait :: "rat \<Rightarrow> 's \<Rightarrow> 'ev option \<times> 's"
  lo_handle :: "'ev \<Rightarrow> 's \<Rightarrow> lua_value option \<times> 's"

text \<open>Up to \<open>n\<close> events; only the first wait may block.  The number of events handled is counted.\<close>

fun loop_events :: "('s, 'ev) loop_calls \<Rightarrow> nat \<Rightarrow> rat \<Rightarrow> 's \<Rightarrow> nat \<times> lua_value option \<times> 's" where
  "loop_events lo 0 timeout st = (0, None, st)"
| "loop_events lo (Suc n) timeout st =
     (case lo_wait lo timeout st of
        (None, st) \<Rightarrow> (0, None, st)
      | (Some ev, st) \<Rightarrow>
          (case lo_handle lo ev st of
             (Some e, st) \<Rightarrow> (1, Some e, st)
           | (None, st) \<Rightarrow> (case loop_events lo n 0 st of (k, r) \<Rightarrow> (Suc k, r))))"

definition loop_timeout :: "rat option \<Rightarrow> rat option \<Rightarrow> rat" where
  [ws_eval]: "loop_timeout timer limit =
     (case (case limit of
              Some l \<Rightarrow> if (case timer of None \<Rightarrow> True | Some w \<Rightarrow> w > l) then limit else timer
            | None \<Rightarrow> timer) of
        None \<Rightarrow> - 1
      | Some w \<Rightarrow> w)"

definition loop_step :: "('s, 'ev) loop_calls \<Rightarrow> rat option \<Rightarrow> 's \<Rightarrow> (lua_value + bool) \<times> 's" where
  [ws_eval]: "loop_step lo limit st =
     (case lo_fire lo st of
        (Some e, st) \<Rightarrow> (Err e, st)
      | (None, st) \<Rightarrow>
          (case lo_active lo st of
             (False, st) \<Rightarrow> (Ok False, st)
           | (True, st) \<Rightarrow>
               (case loop_events lo BATCH (loop_timeout (lo_timer lo st) limit) st of
                  (_, Some e, st) \<Rightarrow> (Err e, st)
                | (_, None, st) \<Rightarrow>
                    (case lo_fire lo st of
                       (Some e, st) \<Rightarrow> (Err e, st)
                     | (None, st) \<Rightarrow> (case lo_active lo st of (a, st) \<Rightarrow> (Ok a, st))))))"

text \<open>\<open>guarded\<close>, with the flag \<open>running\<close> beside the state.\<close>

definition guarded :: "('s \<Rightarrow> (lua_value + 'a) \<times> 's) \<Rightarrow> bool \<times> 's \<Rightarrow> (lua_value + 'a) \<times> bool \<times> 's" where
  [ws_eval]: "guarded f st =
     (if fst st then (Err (LStr (str ''the event loop is already running'')), st)
      else case f (snd st) of (r, s) \<Rightarrow> (r, False, s))"

text \<open>\<open>run\<close>: \<open>None\<close> while it goes on.\<close>

partial_function (option) loop_while :: "('s, 'ev) loop_calls \<Rightarrow> 's \<Rightarrow> ((lua_value + unit) \<times> 's) option" where
  "loop_while lo st =
     (case loop_step lo None st of
        (Err e, st) \<Rightarrow> Some (Err e, st)
      | (Ok active, st) \<Rightarrow> if active then loop_while lo st else Some (Ok (), st))"

definition loop_run :: "('s, 'ev) loop_calls \<Rightarrow> bool \<times> 's \<Rightarrow> ((lua_value + unit) \<times> bool \<times> 's) option" where
  [ws_eval]: "loop_run lo st =
     (if fst st then Some (Err (LStr (str ''the event loop is already running'')), st)
      else map_option (\<lambda>(r, s). (r, False, s)) (loop_while lo (snd st)))"

text \<open>An infinite timeout is as good as a million seconds, which is the longest native wait.\<close>

definition loop_poll :: "('s, 'ev) loop_calls \<Rightarrow> lua_value \<Rightarrow> bool \<times> 's \<Rightarrow> (lua_value + bool) \<times> bool \<times> 's" where
  [ws_eval]: "loop_poll lo timeout st =
     (case timeout of
        LNil \<Rightarrow> guarded (loop_step lo (Some 0)) st
      | LNumber t \<Rightarrow>
          if t \<ge> 0 then guarded (loop_step lo (Some t)) st
          else (Err (LStr (str ''timeout must be a non-negative number of seconds'')), st)
      | LInfinite True \<Rightarrow> guarded (loop_step lo (Some 1000000)) st
      | _ \<Rightarrow> (Err (LStr (str ''timeout must be a non-negative number of seconds'')), st))"

text \<open>\<open>check\<close>: only a fatal native error is raised.\<close>

definition loop_check :: "lua_value \<Rightarrow> lua_value \<Rightarrow> lua_value \<Rightarrow> lua_value + lua_value \<times> lua_value" where
  [ws_eval]: "loop_check ok err fatal = (if truthy fatal then Err err else Ok (ok, err))"

text \<open>A step never handles more than a batch of events before it looks at the timers again.\<close>

lemma loop_events_bounded: "fst (loop_events lo n timeout st) \<le> n"
proof (induction n arbitrary: timeout st)
  case (Suc n)
  then show ?case by (auto split: prod.splits option.splits) (metis fst_conv Suc_leI le_imp_less_Suc)+
qed simp

text \<open>The loop never sleeps past the next timer or the limit, and for good only without either.\<close>

lemma loop_timeout_bound:
  "loop_timeout timer limit = - 1 \<or> (\<forall>w. timer = Some w \<longrightarrow> loop_timeout timer limit \<le> w) \<and> (\<forall>l. limit = Some l \<longrightarrow> loop_timeout timer limit \<le> l)"
  by (auto simp: loop_timeout_def split: option.splits if_splits)

text \<open>However a step ends, also by an error, the loop can be entered again; while it runs it cannot.\<close>

lemma guarded_again: "fst (snd (guarded f (running, st))) = running"
  by (simp add: guarded_def split: prod.splits)

lemma loop_poll_again: "fst (snd (loop_poll lo timeout (running, st))) = running"
  by (simp add: loop_poll_def guarded_again split: lua_value.splits bool.splits)

text \<open>\<open>run\<close> ends exactly when the steps do: with an error of the last one, or with nothing active.\<close>

fun active_steps :: "('s, 'ev) loop_calls \<Rightarrow> nat \<Rightarrow> 's \<Rightarrow> 's option" where
  "active_steps lo 0 st = Some st"
| "active_steps lo (Suc n) st =
     (case loop_step lo None st of (Ok True, st) \<Rightarrow> active_steps lo n st | _ \<Rightarrow> None)"

lemma loop_while_ends:
  assumes "active_steps lo n st = Some st'" "loop_step lo None st' = (r, st'')" "r \<noteq> Ok True"
  shows "loop_while lo st = Some (case r of Err e \<Rightarrow> Err e | Ok _ \<Rightarrow> Ok (), st'')"
  using assms(1)
proof (induction n arbitrary: st)
  case 0
  with assms(2,3) show ?case by (cases r) (auto simp: loop_while.simps [of lo st'])
next
  case (Suc n)
  then obtain s where "loop_step lo None st = (Ok True, s)" "active_steps lo n s = Some st'"
    by (auto split: prod.splits sum.splits bool.splits)
  with Suc.IH show ?case by (simp add: loop_while.simps [of lo st])
qed

end
