(* ===== verification/Spec2Isabelle.thy ===== *)
theory Spec2Isabelle
  imports Fragments Reader_Refine Writer_Live Heartbeat_Spec Admission Net Script Script_Timer Script_Emitter Script_Loop
begin

text \<open>
  A verification library for \<open>ws\<close>, a WebSocket (RFC 6455) client and server: a Rust core (\<open>core/src\<close>), a C interface
  to it (\<open>native/src\<close>), a C module that binds this interface to Lua (\<open>native/*.c\<close>), and the Lua library that
  scripts use (\<open>ws/*.lua\<close>).  Paths are relative to \<open>src/\<close>.

  \<^bold>\<open>How the program works.\<close>  A script calls the Lua library, which checks its options and calls the C module; that
  checks the arguments and calls the C interface, which finds the hub, connection or server behind a number in its registry
  and calls the core.  In the core, \<open>connect\<close> starts a task that resolves and dials, sends the upgrade request and reads the
  response; \<open>listen\<close> starts an accept loop that admits connections within limits and, for each, reads the request, asks the
  application and answers.  Both end in \<open>Link::start\<close>, which runs a reader and a writer until the connection ends.
  Everything a script hears of is an event in its hub's queue, which the event loop takes out and hands to listeners.

  \<^bold>\<open>The protocol\<close> (\<open>core/src/proto\<close>).
  \<^item> \<open>Ws_Prelude\<close>, \<open>Utf8\<close> and \<open>Rust_Str\<close>: bytes are \<open>8 word\<close>, a result is a sum (\<open>Err\<close>, \<open>Ok\<close>); what the code uses of Rust's
    strings, numbers and UTF-8 checks; the collections \<open>ws_eval\<close> (definitions that compute) and \<open>guards\<close> (early returns).
  \<^item> \<open>Base64\<close> (\<open>base64.rs\<close>): the decoder inverts the encoder and accepts nothing else.
  \<^item> \<open>Frame\<close> (\<open>frame.rs\<close>): encoding; masking by words is masking by bytes on either byte order.
  \<^item> \<open>Reader\<close> (\<open>reader.rs\<close>, with the driver of \<open>fuzz/targets/reader.rs\<close>): the buffer with its read position and the
    message under assembly.  \<open>Incremental\<close> is the contract of a parser fed in pieces, a locale interpreted on the
    reader's step; from it \<open>Reader_Spec\<close> has that the pieces do not matter, that encoded messages are read back and that
    messages keep the limits, \<open>Fragments\<close> the same for fragmented messages.  \<open>Refine\<close> is the contract of a refinement and
    \<open>Reader_Refine\<close> shows that the reader refines a receiver without buffer positions, unmasking in place or partial UTF-8 checks.
  \<^item> \<open>Http\<close>, \<open>Url\<close>, \<open>Ipv6\<close>, \<open>Handshake\<close> (\<open>http.rs\<close>, \<open>url.rs\<close>, \<open>handshake.rs\<close>, \<open>handshake/request.rs\<close>): heads, URLs, the
    request, its checks, the response and refusals.  \<open>Handshake_Spec\<close>, \<open>Handshake_Client\<close> and \<open>Handshake_Server\<close>: what is built
    is accepted, what is accepted is admissible, a response is accepted exactly under RFC 6455's conditions.
    \<open>Head_Stream\<close> (\<open>net/stream.rs\<close>): reading a head from a stream takes exactly the head and loses nothing behind it.

  \<^bold>\<open>A connection\<close> (\<open>core/src/net/link\<close>).  \<open>Sync\<close> has events, the event queue, permits, replies and signals (\<open>event.rs\<close>,
  \<open>queue.rs\<close>, \<open>reply.rs\<close>, \<open>signal.rs\<close>).  \<open>Link\<close> has the record \<open>link\<close> with the fields of \<open>Link\<close> and each of its methods;
  \<open>Link_Io\<close> has the reader, the heartbeat and the writer, cut at each \<open>await\<close>: what the awaited future yields is an
  argument.  \<open>Link_Inv\<close> and \<open>Link_Run\<close> show that each of them keeps one invariant (flags, queue, outbound bytes as
  whole frames, byte count, events); the outbound queue is used through the locale \<open>ordered_outbox\<close>.  \<open>Conn_Run\<close> is the whole connection
  as the step relation \<open>conn_step\<close>: calls of the application and the hub, the reader's and the writer's steps, in any order.
  For every state it can reach, \<open>Conn_Spec\<close> and \<open>Conn_Msg\<close> have the single final close event, release of resources,
  the frames on the wire and that the peer decodes them, the contract of \<open>send\<close>, and that received messages, close
  frames and violations have their effects.  \<open>Conn_Wake\<close>: no wake-up of the writer is lost; with it \<open>Writer_Live\<close>: the writer
  flushes everything, if the transport keeps taking bytes.  \<open>Heartbeat_Spec\<close>: the heartbeat acts exactly from the deadline on that the
  reader sleeps until.

  \<^bold>\<open>Client, server, hub and network\<close> (\<open>core/src/net\<close>, \<open>hub.rs\<close>, \<open>tls.rs\<close>).  \<open>Client\<close> and \<open>Server\<close> have options, checks and the
  handshake on every outcome of its input and output; both sides agree on the result.  \<open>Hub\<close>: handles, receiving, dropping.
  \<open>Admission\<close>: a whole server as a step relation over its accept loop and tasks, with exact counters.  \<open>Net\<close>: staggered dialling,
  name resolution, timers, transport hints and TLS material.

  \<^bold>\<open>The C interface and Lua.\<close>  \<open>Native\<close> (\<open>native/src\<close>) has the registry as a record and each exported call as a function on it;
  \<open>Native_Spec\<close>: the status of each call, decisions, shutdown, and the registry under every sequence of calls.
  \<open>Lua\<close> is what is used of Lua's values; \<open>Glue\<close> (\<open>native/values.c\<close>, \<open>calls.c\<close>, \<open>ws.c\<close>) the checks of arguments and
  results; \<open>Script_Opts\<close> (\<open>ws/opts.lua\<close>), \<open>Script_Socket\<close> (\<open>ws/socket.lua\<close>), \<open>Script\<close> (\<open>ws/server.lua\<close>), \<open>Script_Timer\<close>,
  \<open>Script_Emitter\<close> and \<open>Script_Loop\<close> (\<open>ws/timer.lua\<close>, \<open>emitter.lua\<close>, \<open>loop.lua\<close>) the library: options arrive
  unchanged, upgrades are shown as they came and answered once, listeners and timers are called as promised, also
  when some of them raise errors.

  \<^bold>\<open>Parameters and what is asked of them.\<close>  SHA-1, random keys, clocks, tokio, rustls and the operating system are arguments, and
  nothing is asked of them except where a theorem says so: that a transport takes bytes (\<open>writer_flushes\<close>), that addresses print
  without newlines, that \<open>table.sort\<close> sorts and sorting keeps the lines, that Lua's numbers convert to themselves (\<open>api_ok\<close>), that
  listeners and callbacks keep to the stated limits (\<open>tame\<close>, \<open>recorded\<close>, \<open>leaves\<close>).  Each such theorem has a witness.

  \<^bold>\<open>Bounds and termination.\<close>  All loops are total functions with a measure, except dialling, reading a head and running the
  event loop, which may wait for ever: there \<open>None\<close> is waiting, and the theorems say when it is not \<open>None\<close>.  There is no fuel.
  Counters of \<open>usize\<close> wrap where the source's do (\<open>wrapping_add\<close>, \<open>wrapping_sub\<close>); a \<open>usize\<close> has 64 bits.  Lua's numbers are rationals, so
  rounding of times is not modelled.

  \<^bold>\<open>Atomicity.\<close>  A step of \<open>conn_step\<close> is the code between two awaits, or one call.  The source takes locks for shorter
  sections: \<open>finish\<close> stops the writer after it has released the lock of the flags, and \<open>start\<close> attaches the transport before it takes that
  lock.  Schedules in which another thread runs in between are not covered.  Permits are modelled at the level of single atomic
  accesses.  \<open>ws_wait\<close> is one step on the registry, since a Lua state uses its hub from one thread.

  \<^bold>\<open>Not modelled.\<close>  Opening sockets, the TLS record layer, building the tokio runtime; the ownership of memory that the C interface
  returns (\<open>out\<close>, \<open>ws_free\<close>), copying strings in the C module and binding the Lua API (\<open>luaapi.c\<close>); the clock \<open>ws_now\<close>; metatables, the
  finalizer and the load-time checks of the Lua library, and the table of its public functions; build scripts and the fuzz target of the
  handshake, which only calls functions modelled here.
\<close>

end
